(* ===== verification/Prelude.thy ===== *)
theory Prelude
  imports Main "HOL-Library.Word" "HOL-Library.Sublist"
begin

text \<open>
  Shared vocabulary of the development: C buffers and C strings as lists, machine
  words, the named collections of simplification rules the component theories add to,
  and the interface of an incremental consumer that several components implement.

  A buffer is a list of bytes (\<open>char\<close> for text, \<open>8 word\<close> for binary data). A C string
  is read from a buffer up to its first NUL byte; reading one past the last byte of a
  buffer yields the terminator that the code keeps there.
\<close>

unbundle bit_operations_syntax

named_theorems cstring_simps \<open>C string reads, lengths and copies\<close>
named_theorems bound_simps \<open>range facts about results of byte and word operations\<close>

type_synonym u8 = "8 word"
type_synonym u16 = "16 word"
type_synonym u32 = "32 word"
type_synonym u64 = "64 word"
type_synonym bytes = "u8 list"

subsection \<open>C strings\<close>

abbreviation NUL :: char where
  "NUL \<equiv> CHR 0x00"

abbreviation CR :: char where
  "CR \<equiv> CHR 0x0D"

abbreviation LF :: char where
  "LF \<equiv> CHR 0x0A"

definition cget :: "string \<Rightarrow> nat \<Rightarrow> char" where
  "cget s i = (if i < length s then s ! i else NUL)"

definition cstr :: "string \<Rightarrow> string" where
  "cstr b = takeWhile (\<lambda>c. c \<noteq> NUL) b"

abbreviation strlen :: "string \<Rightarrow> nat" where
  "strlen b \<equiv> length (cstr b)"

definition nul_free :: "string \<Rightarrow> bool" where
  "nul_free s \<longleftrightarrow> NUL \<notin> set s"

lemma cstr_Nil [simp]: "cstr [] = []"
  by (simp add: cstr_def)

lemma cstr_Cons [simp]: "cstr (c # s) = (if c = NUL then [] else c # cstr s)"
  by (simp add: cstr_def)

lemma nul_free_Nil [simp]: "nul_free []"
  by (simp add: nul_free_def)

lemma nul_free_Cons [simp]: "nul_free (c # s) \<longleftrightarrow> c \<noteq> NUL \<and> nul_free s"
  by (auto simp: nul_free_def)

lemma nul_free_append [simp]: "nul_free (s @ t) \<longleftrightarrow> nul_free s \<and> nul_free t"
  by (auto simp: nul_free_def)

lemma nul_free_take [simp]: "nul_free s \<Longrightarrow> nul_free (take n s)"
  using set_take_subset [of n s] by (auto simp: nul_free_def)

lemma nul_free_drop [simp]: "nul_free s \<Longrightarrow> nul_free (drop n s)"
  using set_drop_subset [of n s] by (auto simp: nul_free_def)

lemma nul_free_cstr [simp, intro]: "nul_free (cstr s)"
  by (induction s) auto

lemma cstr_nul_free [simp]: "nul_free s \<Longrightarrow> cstr s = s"
  by (induction s) auto

lemma cstr_idem: "cstr (cstr s) = cstr s"
  by simp

lemma cstr_terminated [simp]: "nul_free s \<Longrightarrow> cstr (s @ NUL # t) = s"
  by (induction s) auto

lemma length_cstr_le: "strlen s \<le> length s"
  by (induction s) auto

lemma cstr_prefix: "prefix (cstr s) s"
  by (induction s) auto

lemma cstr_append: "cstr (s @ t) = (if nul_free s then s @ cstr t else cstr s)"
  by (induction s) auto

lemma set_cstr: "set (cstr s) \<subseteq> set s"
  by (induction s) auto

lemma cget_Nil [simp]: "cget [] i = NUL"
  by (simp add: cget_def)

lemma cget_Cons_0 [simp]: "cget (c # s) 0 = c"
  by (simp add: cget_def)

lemma cget_Cons_Suc [simp]: "cget (c # s) (Suc i) = cget s i"
  by (simp add: cget_def)

lemma cget_Cons_numeral [simp]: "cget (c # s) (numeral n) = cget s (pred_numeral n)"
  by (simp add: numeral_eq_Suc)

lemma cget_nth [simp]: "i < length s \<Longrightarrow> cget s i = s ! i"
  by (simp add: cget_def)

lemma cget_beyond: "length s \<le> i \<Longrightarrow> cget s i = NUL"
  by (simp add: cget_def)

lemma cget_NUL_iff: "nul_free s \<Longrightarrow> cget s i = NUL \<longleftrightarrow> length s \<le> i"
  by (auto simp: cget_def nul_free_def) (metis nth_mem)

lemma nul_free_nth: "nul_free s \<Longrightarrow> i < length s \<Longrightarrow> s ! i \<noteq> NUL"
  unfolding nul_free_def by (metis nth_mem)

lemma cget_drop: "cget (drop i s) k = cget s (i + k)"
  by (simp add: cget_def less_diff_conv add.commute)

lemma cget_append: "cget (s @ t) i = (if i < length s then s ! i else cget t (i - length s))"
  by (auto simp: cget_def nth_append)

lemma cget_replicate: "cget (replicate n a) i = (if i < n then a else NUL)"
  by (simp add: cget_def)

lemmas cstring_basic [cstring_simps] =
  cstr_idem cstr_append length_cstr_le cget_beyond cget_NUL_iff

subsection \<open>Characters as codes\<close>

definition code :: "char \<Rightarrow> nat" where
  "code c = of_char c"

definition chr :: "nat \<Rightarrow> char" where
  "chr n = char_of n"

lemma code_chr [simp]: "code (chr n) = n mod 256"
  by (simp add: code_def chr_def)

lemma chr_code [simp]: "chr (code c) = c"
  by (simp add: code_def chr_def)

lemma code_less [simp, bound_simps]: "code c < 256"
  by (simp add: code_def)

lemma code_inject [simp]: "code c = code d \<longleftrightarrow> c = d"
  by (simp add: code_def)

lemma code_Char [simp]: "code (Char b0 b1 b2 b3 b4 b5 b6 b7) =
    of_bool b0 + 2 * (of_bool b1 + 2 * (of_bool b2 + 2 * (of_bool b3 + 2 * (of_bool b4 +
    2 * (of_bool b5 + 2 * (of_bool b6 + 2 * of_bool b7))))))"
  by (simp add: code_def of_char_def)

definition tolower :: "char \<Rightarrow> char" where
  "tolower c = (if 65 \<le> code c \<and> code c \<le> 90 then chr (code c + 32) else c)"

definition u8_of_char :: "char \<Rightarrow> u8" where
  "u8_of_char c = of_nat (code c)"

definition char_of_u8 :: "u8 \<Rightarrow> char" where
  "char_of_u8 w = chr (unat w)"

lemma char_of_u8_of_char [simp]: "char_of_u8 (u8_of_char c) = c"
  using code_less [of c] by (simp add: char_of_u8_def u8_of_char_def unat_of_nat)

subsection \<open>String comparison of the C library\<close>

fun strncmp :: "string \<Rightarrow> string \<Rightarrow> nat \<Rightarrow> int" where
  "strncmp a b n =
     (if n = 0 then 0
      else if cget a 0 \<noteq> cget b 0 then int (code (cget a 0)) - int (code (cget b 0))
      else if cget a 0 = NUL then 0
      else strncmp (tl a) (tl b) (n - 1))"

declare strncmp.simps [simp del]

fun strcmp :: "string \<Rightarrow> string \<Rightarrow> int" where
  "strcmp (a # as) (b # bs) =
     (if a \<noteq> b then int (code a) - int (code b) else if a = NUL then 0 else strcmp as bs)"
| "strcmp (a # as) [] = int (code a)"
| "strcmp [] (b # bs) = - int (code b)"
| "strcmp [] [] = 0"

text \<open>\<open>strncasecmp\<close>, as the test for equality it is used for.\<close>

fun strncaseeq :: "string \<Rightarrow> string \<Rightarrow> nat \<Rightarrow> bool" where
  "strncaseeq a b 0 = True"
| "strncaseeq a b (Suc n) =
     (if tolower (cget a 0) \<noteq> tolower (cget b 0) then False
      else if cget a 0 = NUL then True
      else strncaseeq (tl a) (tl b) n)"

lemma code_zero: "code c = 0 \<longleftrightarrow> c = NUL"
  using code_inject [of c NUL] by simp

lemma cstr_take_unfold:
  "cstr (take n s) = (if n = 0 \<or> cget s 0 = NUL then [] else cget s 0 # cstr (take (n - 1) (tl s)))"
  by (cases s; cases n) simp_all

lemma strncmp_zero [cstring_simps]: "strncmp a b n = 0 \<longleftrightarrow> cstr (take n a) = cstr (take n b)"
proof (induction a b n rule: strncmp.induct)
  case (1 a b n)
  consider "n = 0" | "n \<noteq> 0" "cget a 0 \<noteq> cget b 0" | "n \<noteq> 0" "cget a 0 = cget b 0" "cget a 0 = NUL"
    | "n \<noteq> 0" "cget a 0 = cget b 0" "cget a 0 \<noteq> NUL" by blast
  then show ?case
  proof cases
    case 4
    with 1 show ?thesis
      by (simp add: strncmp.simps [of a b] cstr_take_unfold [of n a] cstr_take_unfold [of n b])
  next
    case 2
    then show ?thesis
      by (auto simp: strncmp.simps [of a b] cstr_take_unfold [of n a] cstr_take_unfold [of n b])
  qed (simp_all add: strncmp.simps [of a b] cstr_take_unfold [of n a] cstr_take_unfold [of n b])
qed

lemma strcmp_zero [cstring_simps]: "strcmp a b = 0 \<longleftrightarrow> cstr a = cstr b"
  by (induction a b rule: strcmp.induct) (auto simp: code_zero)

subsection \<open>Words\<close>

lemma unat_u8_less [bound_simps]: "unat (b :: u8) < 256"
  using unsigned_less [of b] by simp

text \<open>The overflow test of a number read digit by digit: compare before multiplying.\<close>

lemma guarded_multiply_add:
  fixes n m d b :: "'a :: len word"
  assumes "d \<le> m" "b \<noteq> 0"
  shows "(m - d) div b < n \<longleftrightarrow> unat m < unat n * unat b + unat d"
    and "unat n * unat b + unat d \<le> unat m \<Longrightarrow> unat (n * b + d) = unat n * unat b + unat d"
proof -
  have b: "0 < unat b"
    using assms(2) by (simp add: unat_gt_0)
  have "unat ((m - d) div b) = (unat m - unat d) div unat b"
    using assms(1) by (simp add: unat_div unat_sub)
  then have "(m - d) div b < n \<longleftrightarrow> unat m - unat d < unat n * unat b"
    by (simp add: word_less_nat_alt div_less_iff_less_mult [OF b])
  then show "(m - d) div b < n \<longleftrightarrow> unat m < unat n * unat b + unat d"
    using assms(1) by (auto simp: word_le_nat_alt)
  show "unat (n * b + d) = unat n * unat b + unat d" if "unat n * unat b + unat d \<le> unat m"
  proof -
    have "unat n * unat b + unat d < 2 ^ LENGTH('a)"
      using that unsigned_less [of m, where 'a = nat] by (rule le_less_trans)
    then show ?thesis
      by (simp add: unat_word_ariths)
  qed
qed

lemma unat_ucast_u8_u32 [simp]: "unat (ucast (b :: u8) :: u32) = unat b"
  by (simp add: unsigned_ucast_eq take_bit_nat_eq_self order_less_trans [OF unat_u8_less])

subsection \<open>Occurrences of a pattern\<close>

definition occurs_at :: "'a list \<Rightarrow> nat \<Rightarrow> 'a list \<Rightarrow> bool" where
  "occurs_at p k s \<longleftrightarrow> k + length p \<le> length s \<and> take (length p) (drop k s) = p"

lemma occurs_at_sublist: "occurs_at p k s \<Longrightarrow> sublist p s"
  unfolding occurs_at_def by (metis append_take_drop_id sublist_appendI)

lemma sublist_occurs_at: "sublist p s \<Longrightarrow> \<exists>k. occurs_at p k s"
proof -
  assume "sublist p s"
  then obtain u v where "s = u @ p @ v" by (auto simp: sublist_def)
  then have "occurs_at p (length u) s" by (simp add: occurs_at_def)
  then show ?thesis ..
qed

subsection \<open>Incremental consumers\<close>

text \<open>
  A component that is fed its input piece by piece: feeding two pieces one after the
  other shows the same observation as feeding their concatenation, and what a piece does
  depends on the observable state only (stale bytes of internal buffers do not matter).
  The contract is relative to an invariant of the consumer's state and to the pieces it
  admits. From the two-piece law follows that no division of the input into pieces is
  observable.
\<close>

locale chunked =
  fixes feed :: "'s \<Rightarrow> 'b list \<Rightarrow> 's"
    and inv :: "'s \<Rightarrow> bool"
    and admits :: "'b list \<Rightarrow> bool"
    and obs :: "'s \<Rightarrow> 'o"
  assumes feed_Nil: "inv s \<Longrightarrow> obs (feed s []) = obs s"
    and feed_append: "inv s \<Longrightarrow> admits (a @ b) \<Longrightarrow> obs (feed (feed s a) b) = obs (feed s (a @ b))"
    and feed_cong: "inv s \<Longrightarrow> inv t \<Longrightarrow> obs s = obs t \<Longrightarrow> admits a \<Longrightarrow> obs (feed s a) = obs (feed t a)"
    and feed_inv: "inv s \<Longrightarrow> admits a \<Longrightarrow> inv (feed s a)"
    and admits_appendD: "admits (a @ b) \<Longrightarrow> admits a \<and> admits b"
begin

lemma feed_chunks_inv: "inv s \<Longrightarrow> admits (concat cs) \<Longrightarrow> inv (foldl feed s cs)"
proof (induction cs rule: rev_induct)
  case (snoc c cs)
  from snoc.prems(2) have "admits (concat cs)" "admits c"
    by (auto dest: admits_appendD)
  with snoc show ?case by (simp add: feed_inv)
qed simp

lemma feed_chunks:
  "inv s \<Longrightarrow> admits (concat cs) \<Longrightarrow> obs (foldl feed s cs) = obs (feed s (concat cs))"
proof (induction cs rule: rev_induct)
  case Nil
  then show ?case by (simp add: feed_Nil)
next
  case (snoc c cs)
  from snoc.prems(2) have ad: "admits (concat cs)" "admits c"
    by (auto dest: admits_appendD)
  then have "obs (feed (foldl feed s cs) c) = obs (feed (feed s (concat cs)) c)"
    using snoc by (intro feed_cong feed_chunks_inv feed_inv) auto
  with snoc.prems show ?case by (simp add: feed_append)
qed

lemma feed_chunking_irrelevant:
  "inv s \<Longrightarrow> admits (concat cs) \<Longrightarrow> concat cs = concat ds \<Longrightarrow>
    obs (foldl feed s cs) = obs (foldl feed s ds)"
  using feed_chunks [of s cs] feed_chunks [of s ds] by simp

end

end
