(* ===== verification/StringUtils.thy ===== *)
theory StringUtils
  imports Prelude
begin

text \<open>
  The string helpers of \<open>lib/src/utils.c\<close> and the conversions of \<open>lib/src/convert.c\<close>:
  substring search, bounded copies, hexadecimal text, dates and percent decoding. Every
  routine works on the bytes of a buffer with the source's indices; \<^typ>\<open>'a option\<close>
  results carry NULL pointers and the out-of-range writes of the caller's buffer.
\<close>

subsection \<open>Substring search (utils.c)\<close>

fun stringfind_loop :: "string \<Rightarrow> string \<Rightarrow> nat \<Rightarrow> nat \<Rightarrow> nat" where
  "stringfind_loop [] pattern i i2 = 0"
| "stringfind_loop (c # cs) pattern i i2 =
     (if c = cget pattern i2 then
        (if cget pattern (i2 + 1) = NUL then i
         else stringfind_loop cs pattern (i + 1) (i2 + 1))
      else stringfind_loop cs pattern (i + 1) 0)"

definition stringfind :: "string option \<Rightarrow> string \<Rightarrow> nat" where
  "stringfind buffer pattern =
     (case buffer of None \<Rightarrow> 0 | Some b \<Rightarrow> stringfind_loop (cstr b) pattern 0 0)"

fun stringfindCaseInsensitive_loop :: "string \<Rightarrow> string \<Rightarrow> nat \<Rightarrow> nat \<Rightarrow> nat" where
  "stringfindCaseInsensitive_loop [] pattern i i2 = 0"
| "stringfindCaseInsensitive_loop (c # cs) pattern i i2 =
     (if tolower c = tolower (cget pattern i2) then
        (if cget pattern (i2 + 1) = NUL then i
         else stringfindCaseInsensitive_loop cs pattern (i + 1) (i2 + 1))
      else stringfindCaseInsensitive_loop cs pattern (i + 1) 0)"

definition stringfindCaseInsensitive :: "string option \<Rightarrow> string \<Rightarrow> nat" where
  "stringfindCaseInsensitive buffer pattern =
     (case buffer of None \<Rightarrow> 0
      | Some b \<Rightarrow> stringfindCaseInsensitive_loop (cstr b) pattern 0 0)"

text \<open>The bounded search does not stop at a NUL byte and tells \<open>-1\<close> for no match.\<close>

fun stringnfind_loop :: "string \<Rightarrow> string \<Rightarrow> nat \<Rightarrow> nat \<Rightarrow> int" where
  "stringnfind_loop [] pattern i i2 = - 1"
| "stringnfind_loop (c # cs) pattern i i2 =
     (if c = cget pattern i2 then
        (if cget pattern (i2 + 1) = NUL then int i
         else stringnfind_loop cs pattern (i + 1) (i2 + 1))
      else stringnfind_loop cs pattern (i + 1) 0)"

definition stringnfind :: "string option \<Rightarrow> string option \<Rightarrow> nat \<Rightarrow> int" where
  "stringnfind buffer pattern buffer_length =
     (case (buffer, pattern) of
        (Some b, Some p) \<Rightarrow> stringnfind_loop (take buffer_length b) p 0 0
      | _ \<Rightarrow> - 1)"

fun stringfindAtPos_loop :: "nat \<Rightarrow> string \<Rightarrow> string \<Rightarrow> nat \<Rightarrow> nat \<Rightarrow> nat" where
  "stringfindAtPos_loop 0 buffer pattern i i2 = 0"
| "stringfindAtPos_loop (Suc k) buffer pattern i i2 =
     (if cget buffer i = cget pattern i2 then
        (if cget pattern (i2 + 1) = NUL then i
         else if i2 + 1 = strlen pattern then i
         else stringfindAtPos_loop k buffer pattern (i + 1) (i2 + 1))
      else 0)"

definition stringfindAtPos :: "string \<Rightarrow> string \<Rightarrow> nat" where
  "stringfindAtPos buffer pattern = stringfindAtPos_loop (strlen pattern) buffer pattern 0 0"

subsection \<open>Bounded copies (utils.c)\<close>

text \<open>The C library's \<open>strncpy\<close>: at most \<open>n\<close> bytes, padded with NUL up to \<open>n\<close>.\<close>

definition c_strncpy :: "string \<Rightarrow> string \<Rightarrow> nat \<Rightarrow> string" where
  "c_strncpy dest src n =
     take n (cstr src) @ replicate (n - strlen src) NUL @ drop n dest"

definition Webserver_strncpy :: "string option \<Rightarrow> nat \<Rightarrow> string option \<Rightarrow> nat \<Rightarrow> string option" where
  "Webserver_strncpy dest dest_size src count =
     (case (dest, src) of
        (Some d, Some s) \<Rightarrow>
          (let d' = (if dest_size \<ge> count then c_strncpy d s count else c_strncpy d s dest_size)
           in Some (if dest_size \<ge> 1 then d'[dest_size - 1 := NUL] else d'))
      | _ \<Rightarrow> dest)"

function strndup_len :: "string \<Rightarrow> nat \<Rightarrow> nat \<Rightarrow> nat" where
  "strndup_len src max_len len =
     (if len < max_len then
        (if cget src len = NUL then len else strndup_len src max_len (len + 1))
      else len)"
  by pat_completeness auto
termination
  by (relation "measure (\<lambda>(src, max_len, len). max_len - len)") auto

declare strndup_len.simps [simp del]

text \<open>\<open>malloc n\<close> tells whether an allocation of \<open>n\<close> bytes succeeds.\<close>

definition Webserver_strndup :: "(nat \<Rightarrow> bool) \<Rightarrow> string option \<Rightarrow> nat \<Rightarrow> string option" where
  "Webserver_strndup malloc src max_len =
     (case src of None \<Rightarrow> None
      | Some s \<Rightarrow>
          if max_len = 0 then None
          else let len = strndup_len s max_len 0 in
            if len = 2 ^ 32 - 1 then None
            else if \<not> malloc (len + 1) then None
            else Some (take len s))"

subsection \<open>Numbers and dates as text (utils.c)\<close>

fun dec_digits :: "nat \<Rightarrow> string" where
  "dec_digits n =
     (if n < 10 then [chr (48 + n)] else dec_digits (n div 10) @ [chr (48 + n mod 10)])"

declare dec_digits.simps [simp del]

text \<open>\<open>printf\<close> with \<open>%d\<close> and with a zero-padded width, \<open>%0wd\<close>.\<close>

definition fmt_d :: "int \<Rightarrow> string" where
  "fmt_d n = (if n < 0 then ''-'' @ dec_digits (nat (- n)) else dec_digits (nat n))"

definition fmt_0d :: "nat \<Rightarrow> int \<Rightarrow> string" where
  "fmt_0d w n =
     (if n < 0 then ''-'' @ replicate (w - 1 - length (dec_digits (nat (- n)))) (CHR ''0'') @
        dec_digits (nat (- n))
      else replicate (w - length (dec_digits (nat n))) (CHR ''0'') @ dec_digits (nat n))"

definition getHTMLMonth :: "u8 \<Rightarrow> string" where
  "getHTMLMonth month =
     (if month = 1 then ''Jan'' else if month = 2 then ''Feb'' else if month = 3 then ''Mar''
      else if month = 4 then ''Apr'' else if month = 5 then ''May'' else if month = 6 then ''Jun''
      else if month = 7 then ''Jul'' else if month = 8 then ''Aug'' else if month = 9 then ''Sep''
      else if month = 10 then ''Oct'' else if month = 11 then ''Nov''
      else if month = 12 then ''Dec''
      else ''Unknown Month '' @ fmt_d (uint month))"

text \<open>The text written to the buffer; the C function returns its length.\<close>

definition getHTMLDateFormat :: "int \<Rightarrow> int \<Rightarrow> int \<Rightarrow> int \<Rightarrow> int \<Rightarrow> string" where
  "getHTMLDateFormat day month year hour minute =
     fmt_0d 2 day @ '' '' @ getHTMLMonth (word_of_int month) @ '' '' @ fmt_0d 4 year @ '' '' @
     fmt_0d 2 hour @ '':'' @ fmt_0d 2 minute @ '' GMT''"

subsection \<open>Byte order and hexadecimal text (utils.c, convert.c)\<close>

definition bget :: "bytes \<Rightarrow> nat \<Rightarrow> u8" where
  "bget b i = (if i < length b then b ! i else 0)"

definition getInt :: "bytes \<Rightarrow> u32" where
  "getInt buffer =
     0 + ucast (bget buffer 0) + push_bit 8 (ucast (bget buffer 1)) +
     push_bit 16 (ucast (bget buffer 2)) + push_bit 24 (ucast (bget buffer 3))"

text \<open>\<open>readInt\<close> reads four bytes of the open file; \<open>ret\<close> and \<open>intbuffer\<close> are what the
  platform's read delivers.\<close>

definition readInt :: "int \<Rightarrow> bytes \<Rightarrow> u32" where
  "readInt ret intbuffer =
     (if ret \<noteq> 4 then 0
      else push_bit 0 (ucast (bget intbuffer 0)) + push_bit 8 (ucast (bget intbuffer 1)) +
        push_bit 16 (ucast (bget intbuffer 2)) + push_bit 24 (ucast (bget intbuffer 3)))"

definition hex_digit :: "u8 \<Rightarrow> u8" where
  "hex_digit d = (if d \<le> 9 then d + 48 else d + 55)"

definition cwrite :: "'a list \<Rightarrow> nat \<Rightarrow> 'a \<Rightarrow> 'a list option" where
  "cwrite b i x = (if i < length b then Some (b[i := x]) else None)"

fun convertBinToHexString_loop :: "bytes \<Rightarrow> bytes \<Rightarrow> nat \<Rightarrow> bytes option" where
  "convertBinToHexString_loop [] text l = Some text"
| "convertBinToHexString_loop (b # bs) text l =
     Option.bind (cwrite text (l * 2 + 0) (hex_digit (drop_bit 4 b))) (\<lambda>t1.
     Option.bind (cwrite t1 (l * 2 + 1) (hex_digit (b AND 15))) (\<lambda>t2.
       convertBinToHexString_loop bs t2 (l + 1)))"

text \<open>\<open>None\<close> is a write outside the caller's text buffer.\<close>

definition convertBinToHexString :: "bytes \<Rightarrow> bytes \<Rightarrow> nat \<Rightarrow> bytes option" where
  "convertBinToHexString bin text text_length =
     Option.bind (convertBinToHexString_loop bin text 0) (\<lambda>t. cwrite t text_length 0)"

definition toHex :: "u8 \<Rightarrow> u8" where
  "toHex c =
     (if c \<le> 57 \<and> c \<ge> 48 then c - 48
      else if c \<ge> 97 \<and> c \<le> 102 then c - 87
      else if c \<ge> 65 \<and> c \<le> 70 then c - 55
      else 0)"

subsection \<open>Percent decoding in place (convert.c)\<close>

function url_decode_loop :: "nat \<Rightarrow> string \<Rightarrow> nat \<Rightarrow> nat \<Rightarrow> string" where
  "url_decode_loop lenght line i_in i_out =
     (if i_in \<le> lenght then
        (if cget line i_in = CHR ''%'' \<and> lenght - i_in > 2 then
           (let hex = push_bit 4 (toHex (u8_of_char (cget line (i_in + 1))));
                hex = hex + toHex (u8_of_char (cget line (i_in + 2)))
            in url_decode_loop lenght (line[i_out := char_of_u8 hex]) (i_in + 2 + 1) (i_out + 1))
         else if cget line i_in = CHR ''+'' then
           url_decode_loop lenght (line[i_out := CHR '' '']) (i_in + 1) (i_out + 1)
         else url_decode_loop lenght (line[i_out := cget line i_in]) (i_in + 1) (i_out + 1))
      else line)"
  by pat_completeness auto
termination
  by (relation "measure (\<lambda>(lenght, line, i_in, i_out). Suc lenght - i_in)") auto

declare url_decode_loop.simps [simp del]

text \<open>\<open>line\<close> is the whole buffer, its terminator included.\<close>

definition url_decode :: "string \<Rightarrow> string" where
  "url_decode line = url_decode_loop (strlen line) line 0 0"

text \<open>What a caller sees: the C string in the buffer after decoding a C string.\<close>

definition url_decoded :: "string \<Rightarrow> string" where
  "url_decoded s = cstr (url_decode (cstr s @ [NUL]))"

subsection \<open>Search: soundness, and completeness for runs of one character\<close>

text \<open>
  The three search loops share one automaton: a counter \<open>i2\<close> of matched pattern bytes
  that a mismatch resets to zero without looking at the mismatching byte again.
\<close>

fun match_loop :: "(char \<Rightarrow> char \<Rightarrow> bool) \<Rightarrow> string \<Rightarrow> string \<Rightarrow> nat \<Rightarrow> nat \<Rightarrow> nat option" where
  "match_loop eq [] p i i2 = None"
| "match_loop eq (c # cs) p i i2 =
     (if eq c (cget p i2) then
        (if cget p (i2 + 1) = NUL then Some i else match_loop eq cs p (i + 1) (i2 + 1))
      else match_loop eq cs p (i + 1) 0)"

lemma stringfind_loop_match:
  "stringfind_loop cs p i i2 = (case match_loop (=) cs p i i2 of None \<Rightarrow> 0 | Some n \<Rightarrow> n)"
  by (induction cs arbitrary: i i2) auto

lemma stringnfind_loop_match:
  "stringnfind_loop cs p i i2 =
     (case match_loop (=) cs p i i2 of None \<Rightarrow> - 1 | Some n \<Rightarrow> int n)"
  by (induction cs arbitrary: i i2) auto

lemma stringfindCaseInsensitive_loop_match:
  "stringfindCaseInsensitive_loop cs p i i2 =
     (case match_loop (\<lambda>a b. tolower a = tolower b) cs p i i2 of None \<Rightarrow> 0 | Some n \<Rightarrow> n)"
  by (induction cs arbitrary: i i2) auto

lemma match_loop_sound:
  assumes "match_loop eq cs p (length u + length v) (length v) = Some n"
    and "nul_free p" "length v < length p" "list_all2 eq v (take (length v) p)"
  shows "\<exists>a m b. u @ v @ cs = a @ m @ b \<and> list_all2 eq m p \<and> n + 1 = length a + length p"
  using assms
proof (induction cs arbitrary: u v)
  case Nil
  then show ?case by simp
next
  case (Cons c cs)
  note nf = Cons.prems(2)
  show ?case
  proof (cases "eq c (cget p (length v))")
    case hit: True
    then have m: "list_all2 eq (v @ [c]) (take (Suc (length v)) p)"
      using Cons.prems(3,4) by (simp add: take_Suc_conv_app_nth list_all2_appendI)
    show ?thesis
    proof (cases "cget p (length v + 1) = NUL")
      case True
      with nf Cons.prems(3) have len: "length p = Suc (length v)"
        by (simp add: cget_NUL_iff)
      have "u @ v @ c # cs = u @ (v @ [c]) @ cs" "list_all2 eq (v @ [c]) p"
        using m len by simp_all
      moreover have "n + 1 = length u + length p"
        using Cons.prems(1) hit True len by simp
      ultimately show ?thesis by blast
    next
      case False
      with nf have len: "Suc (length v) < length p"
        by (simp add: cget_NUL_iff)
      have "match_loop eq cs p (length u + length (v @ [c])) (length (v @ [c])) = Some n"
        using Cons.prems(1) hit False by simp
      from Cons.IH [OF this nf] len m show ?thesis by simp
    qed
  next
    case False
    have "match_loop eq cs p (length (u @ v @ [c]) + length []) (length []) = Some n"
      using Cons.prems(1) False by simp
    from Cons.IH [OF this nf] Cons.prems(3) show ?thesis by force
  qed
qed

lemmas match_loop_sound0 = match_loop_sound [where u = "[]" and v = "[]", simplified]

lemma match_loop_skip:
  "\<forall>c \<in> set pre. \<not> eq c (cget p 0) \<Longrightarrow>
    match_loop eq (pre @ cs) p i 0 = match_loop eq cs p (i + length pre) 0"
  by (induction pre arbitrary: i) auto

lemma match_loop_hit:
  assumes "nul_free p" "i2 < length p" "\<And>c. eq c c"
  shows "match_loop eq (drop i2 p @ post) p i i2 = Some (i + length p - i2 - 1)"
  using assms
proof (induction "length p - i2" arbitrary: i i2)
  case 0
  then show ?case by simp
next
  case (Suc k)
  have d: "drop i2 p = p ! i2 # drop (Suc i2) p"
    using Suc.prems(2) by (simp add: Cons_nth_drop_Suc)
  show ?case
  proof (cases "Suc i2 < length p")
    case True
    then have "p ! Suc i2 \<noteq> NUL" using Suc.prems(1) by (simp add: nul_free_nth)
    with True Suc d show ?thesis by simp
  next
    case False
    with Suc d show ?thesis by (simp add: cget_beyond)
  qed
qed

lemma match_loop_first_occurrence:
  assumes "nul_free p" "p \<noteq> []" "hd p \<notin> set pre"
  shows "match_loop (=) (pre @ p @ post) p i 0 = Some (i + length pre + length p - 1)"
proof -
  have "\<forall>c \<in> set pre. c \<noteq> cget p 0"
    using assms(2,3) by (cases p) auto
  then show ?thesis
    using match_loop_hit [of p 0 "(=)" post "i + length pre"] assms(1,2)
    by (simp add: match_loop_skip)
qed

lemma sublist_run_over_break:
  assumes "sublist (replicate (Suc m) a) (replicate k a @ c # cs)" "c \<noteq> a" "k \<le> m"
  shows "sublist (replicate (Suc m) a) cs"
proof -
  have "\<not> sublist (replicate (Suc m) a) (replicate k a)"
    using assms(3) sublist_length_le by fastforce
  moreover have "\<not> prefix (a # r) (c # cs)" for r
    using assms(2) by simp
  ultimately have "sublist (replicate (Suc m) a) (c # cs)"
    using assms(1) unfolding sublist_append
  proof (elim disjE exE conjE)
    fix ys zs
    assume *: "replicate (Suc m) a = ys @ zs" "suffix ys (replicate k a)" "prefix zs (c # cs)"
    from *(2) assms(3) have "length ys < Suc m"
      using suffix_length_le by fastforce
    then have "zs \<noteq> []" using arg_cong [OF *(1), of length] by auto
    moreover have "set zs \<subseteq> {a}"
      using arg_cong [OF *(1), of set] by auto
    ultimately obtain r where "zs = a # r" by (cases zs) auto
    with *(3) assms(2) show ?thesis by simp
  qed auto
  with assms(2) show ?thesis
    by (auto simp: sublist_Cons_right)
qed

lemma match_loop_run_None:
  assumes "match_loop (=) cs (replicate (Suc m) a) i k = None" "k \<le> m" "a \<noteq> NUL"
  shows "\<not> sublist (replicate (Suc m) a) (replicate k a @ cs)"
  using assms
proof (induction cs arbitrary: i k)
  case Nil
  then show ?case using sublist_length_le by fastforce
next
  case (Cons c cs)
  show ?case
  proof (cases "c = a")
    case True
    then have "k \<noteq> m"
      using Cons.prems by (auto simp: cget_replicate simp del: replicate_Suc split: if_splits)
    moreover from True this Cons.prems have "match_loop (=) cs (replicate (Suc m) a) (i + 1) (k + 1) = None"
      by (auto simp: cget_replicate simp del: replicate_Suc split: if_splits)
    ultimately have "\<not> sublist (replicate (Suc m) a) (replicate (k + 1) a @ cs)"
      using Cons.IH [of "i + 1" "k + 1"] Cons.prems(2,3) by simp
    then show ?thesis using True by (simp add: replicate_app_Cons_same)
  next
    case False
    then have "match_loop (=) cs (replicate (Suc m) a) (i + 1) 0 = None"
      using Cons.prems by (simp add: cget_replicate del: replicate_Suc split: if_splits)
    with Cons.IH [of "i + 1" 0] Cons.prems(3) have "\<not> sublist (replicate (Suc m) a) cs"
      by simp
    then show ?thesis
      using sublist_run_over_break [of m a k c cs] False Cons.prems(2) by blast
  qed
qed

lemma stringfind_run:
  assumes "a \<noteq> NUL"
  shows "0 < stringfind (Some b) (replicate (Suc (Suc m)) a) \<longleftrightarrow>
         sublist (replicate (Suc (Suc m)) a) (cstr b)"
proof (cases "match_loop (=) (cstr b) (replicate (Suc (Suc m)) a) 0 0")
  case None
  with match_loop_run_None [OF None] assms show ?thesis
    by (simp add: stringfind_def stringfind_loop_match)
next
  case (Some n)
  have "nul_free (replicate (Suc (Suc m)) a)" using assms by (simp add: nul_free_def)
  from match_loop_sound0 [OF Some this]
  obtain x z where "cstr b = x @ replicate (Suc (Suc m)) a @ z" "n + 1 = length x + Suc (Suc m)"
    by (auto simp: list.rel_eq)
  then show ?thesis using Some
    by (auto simp: stringfind_def stringfind_loop_match sublist_def simp del: replicate_Suc)
qed

lemma stringfind_dots: "0 < stringfind (Some b) ''..'' \<longleftrightarrow> sublist ''..'' (cstr b)"
  using stringfind_run [of "CHR ''.''" b 0] by (simp add: numeral_2_eq_2)

subsection \<open>Percent decoding refines a recursive decoder\<close>

definition hexval :: "char \<Rightarrow> nat" where
  "hexval c =
     (if code c \<in> {48..57} then code c - 48
      else if code c \<in> {97..102} then code c - 87
      else if code c \<in> {65..70} then code c - 55
      else 0)"

fun urldec :: "string \<Rightarrow> string" where
  "urldec [] = []"
| "urldec (c # r) =
     (if c = CHR ''%'' \<and> 2 \<le> length r then
        chr (16 * hexval (r ! 0) + hexval (r ! 1)) # urldec (drop 2 r)
      else if c = CHR ''+'' then CHR '' '' # urldec r
      else c # urldec r)"

lemma unat_u8_of_char [simp]: "unat (u8_of_char c) = code c"
  using code_less [of c] by (simp add: u8_of_char_def unat_of_nat)

lemma unat_toHex: "unat (toHex (u8_of_char c)) = hexval c"
  using code_less [of c]
  by (simp add: toHex_def hexval_def word_le_nat_alt unat_sub)

lemma hexval_less [bound_simps]: "hexval c < 16"
  by (auto simp: hexval_def)

lemma hex_pair_char:
  "char_of_u8 (push_bit 4 (toHex (u8_of_char a)) + toHex (u8_of_char b)) =
     chr (16 * hexval a + hexval b)"
proof -
  let ?a = "toHex (u8_of_char a)" and ?b = "toHex (u8_of_char b)"
  have "unat (push_bit 4 ?a) = 16 * hexval a"
    using hexval_less [of a] by (simp add: push_bit_eq_mult unat_word_ariths unat_toHex)
  then have "unat (push_bit 4 ?a + ?b) = 16 * hexval a + hexval b"
    using hexval_less [of a] hexval_less [of b] by (simp add: unat_word_ariths unat_toHex)
  then show ?thesis by (simp add: char_of_u8_def)
qed

lemma length_urldec: "length (urldec s) \<le> length s"
  by (induction s rule: urldec.induct) auto

text \<open>
  The loop at any point: what is still to be written is the decoded rest and its
  terminator, and bytes from \<open>i_in\<close> on are those of the original buffer.
\<close>

lemma url_decode_loop_eq:
  assumes "i_in \<le> Suc (length s)" "i_out \<le> i_in"
    and "drop i_in line = drop i_in L" "length line = length L"
    and L: "take (Suc (length s)) L = s @ [NUL]"
  shows "url_decode_loop (length s) line i_in i_out =
     (let w = (if i_in \<le> length s then urldec (drop i_in s) @ [NUL] else [])
      in take i_out line @ w @ drop (i_out + length w) line)"
  using assms(1-4)
proof (induction "length s" line i_in i_out rule: url_decode_loop.induct)
  case (1 line i_in i_out)
  have rd: "cget line (i_in + k) = cget L (i_in + k)" for k
    using arg_cong [OF 1(6), of "\<lambda>b. cget b k"] by (simp add: cget_drop)
  have len: "Suc (length s) \<le> length L"
    using arg_cong [OF L, of length] by simp
  have Lc: "cget L j = (if j < length s then s ! j else NUL)" if "j \<le> length s" for j
    using arg_cong [OF L, of "\<lambda>b. b ! j"] that len by (simp add: nth_append split: if_splits)
  show ?case
  proof (cases "i_in \<le> length s")
    case False
    then show ?thesis by (subst url_decode_loop.simps) simp
  next
    case True
    then have io: "i_out < length line" using 1(5,7) len by simp
    then have wr: "take (Suc i_out) (line[i_out := x]) = take i_out line @ [x]" for x
      by (simp add: take_Suc_conv_app_nth)
    have dr: "drop (i_in + Suc k) (line[i_out := x]) = drop (i_in + Suc k) L" for x k
    proof -
      have "drop (i_in + Suc k) (line[i_out := x]) = drop (Suc k) (drop i_in line)"
        using 1(5) by (simp add: add.commute)
      then show ?thesis using 1(6) by (simp add: add.commute)
    qed
    have c: "cget line i_in = (if i_in < length s then s ! i_in else NUL)"
      using rd [of 0] Lc [of i_in] True by simp
    show ?thesis
    proof (cases "cget line i_in = CHR ''%'' \<and> length s - i_in > 2")
      case pct: True
      then have i2: "i_in + 2 < length s" by linarith
      then have "drop i_in s = s ! i_in # s ! (i_in + 1) # s ! (i_in + 2) # drop (i_in + 3) s"
        by (simp add: Cons_nth_drop_Suc eval_nat_numeral)
      with pct c have ds: "drop i_in s = CHR ''%'' # s ! (i_in + 1) # s ! (i_in + 2) # drop (i_in + 3) s"
        by (simp split: if_splits)
      have nx: "cget line (i_in + 1) = s ! (i_in + 1)" "cget line (i_in + 2) = s ! (i_in + 2)"
        using rd [of 1] rd [of 2] Lc [of "i_in + 1"] Lc [of "i_in + 2"] i2 by simp_all
      show ?thesis
        using 1(1) [OF True pct refl refl] 1(4-7) True pct i2 dr [of 2] nx
        by (subst url_decode_loop.simps) (simp add: ds hex_pair_char wr Let_def numeral_2_eq_2 numeral_3_eq_3)
    next
      case np: False
      show ?thesis
      proof (cases "i_in < length s")
        case lt: True
        then have ds: "drop i_in s = s ! i_in # drop (Suc i_in) s"
          by (simp add: Cons_nth_drop_Suc)
        show ?thesis
          using 1(2) [OF True np] 1(3) [OF True np] 1(4-7) True np c lt dr [of 0]
          by (subst url_decode_loop.simps) (auto simp: ds wr Let_def)
      next
        case False
        then show ?thesis
          using 1(3) [OF True np] 1(4-7) True np c dr [of 0]
          by (subst url_decode_loop.simps) (auto simp: wr Let_def)
      qed
    qed
  qed
qed

lemma url_decode_eq:
  assumes "nul_free s"
  shows "url_decode (s @ NUL # rest) =
     urldec s @ NUL # drop (Suc (length (urldec s))) (s @ NUL # rest)"
  using url_decode_loop_eq [of 0 s 0 "s @ NUL # rest" "s @ NUL # rest"] assms
  by (simp add: url_decode_def)

lemma length_url_decode: "length (url_decode line) = length line"
proof -
  have "length (url_decode_loop n l i j) = length l" for n l i j
    by (induction n l i j rule: url_decode_loop.induct)
      (subst url_decode_loop.simps, simp add: Let_def)
  then show ?thesis by (simp add: url_decode_def)
qed

lemma url_decoded_eq: "url_decoded s = cstr (urldec (cstr s))"
  using url_decode_eq [of "cstr s" "[]"] by (simp add: url_decoded_def cstr_append)

lemma strlen_url_decoded: "strlen (url_decoded s) \<le> strlen s"
  using length_urldec [of "cstr s"] length_cstr_le [of "urldec (cstr s)"]
  by (simp add: url_decoded_eq)

subsection \<open>Encoders the decoders invert\<close>

definition hexdig :: "nat \<Rightarrow> char" where
  "hexdig n = (if n < 10 then chr (48 + n) else chr (55 + n))"

definition unreserved :: "char \<Rightarrow> bool" where
  "unreserved c \<longleftrightarrow> code c \<in> {48..57} \<union> {65..90} \<union> {97..122}"

definition urlenc_char :: "char \<Rightarrow> string" where
  "urlenc_char c =
     (if unreserved c then [c] else [CHR ''%'', hexdig (code c div 16), hexdig (code c mod 16)])"

definition urlenc :: "string \<Rightarrow> string" where
  "urlenc s = concat (map urlenc_char s)"

lemma hexval_hexdig: "n < 16 \<Longrightarrow> hexval (hexdig n) = n"
  by (auto simp: hexval_def hexdig_def)

lemma code_hexdig: "n < 16 \<Longrightarrow> code (hexdig n) = (if n < 10 then 48 + n else 55 + n)"
  by (simp add: hexdig_def)

lemma code_eq_iff: "c = d \<longleftrightarrow> code c = code d"
  by simp

lemma urldec_urlenc_char: "urldec (urlenc_char c @ s) = c # urldec s"
proof (cases "unreserved c")
  case True
  then have "c \<noteq> CHR ''%''" "c \<noteq> CHR ''+''"
    by (auto simp: unreserved_def)
  then show ?thesis using True by (simp add: urlenc_char_def)
next
  case False
  have "code c div 16 < 16" using code_less [of c] by linarith
  then have "chr (16 * hexval (hexdig (code c div 16)) + hexval (hexdig (code c mod 16))) = c"
    by (simp add: hexval_hexdig)
  with False show ?thesis by (simp add: urlenc_char_def numeral_2_eq_2)
qed

lemma urldec_urlenc: "urldec (urlenc s) = s"
  by (induction s) (simp_all add: urlenc_def urldec_urlenc_char)

lemma nul_free_urlenc: "nul_free (urlenc s)"
proof (induction s)
  case Nil
  then show ?case by (simp add: urlenc_def)
next
  case (Cons c s)
  have "code c div 16 < 16" using code_less [of c] by linarith
  then have "hexdig (code c div 16) \<noteq> NUL" "hexdig (code c mod 16) \<noteq> NUL"
    by (auto simp: code_eq_iff [of _ NUL] code_hexdig)
  moreover have "unreserved c \<Longrightarrow> c \<noteq> NUL" by (auto simp: unreserved_def)
  ultimately show ?case using Cons by (simp add: urlenc_def urlenc_char_def)
qed

lemma toHex_hex_digit: "d < 16 \<Longrightarrow> toHex (hex_digit d) = d"
proof -
  assume d: "d < 16"
  then have "unat d < 16" by (simp add: word_less_nat_alt)
  then show ?thesis
    by (auto simp: toHex_def hex_digit_def word_le_nat_alt unat_word_ariths word_unat_eq_iff
        unat_sub_if' split: if_splits)
qed

lemma byte_split: "push_bit 4 (drop_bit 4 b) + (b AND 15) = (b :: u8)"
proof -
  have "b AND 15 = take_bit 4 b"
    by (simp add: take_bit_eq_mask mask_numeral)
  then show ?thesis by (simp add: bits_ident)
qed

lemma nibble_less: "drop_bit 4 b < (16 :: u8)" "b AND 15 < (16 :: u8)"
proof -
  have "unat (b AND 15) \<le> unat (15 :: u8)"
    by (rule word_and_le1 [THEN word_le_nat_alt [THEN iffD1]])
  then show "b AND 15 < 16" by (simp add: word_less_nat_alt)
  show "drop_bit 4 b < (16 :: u8)"
  proof -
    have "unat b div 16 < 16" using unat_u8_less [of b] by linarith
    then show ?thesis by (simp add: word_less_nat_alt unat_drop_bit_eq) (simp add: drop_bit_eq_div)
  qed
qed

definition unhex :: "bytes \<Rightarrow> u8" where
  "unhex p = push_bit 4 (toHex (p ! 0)) + toHex (p ! 1)"

lemma unhex_hex: "unhex [hex_digit (drop_bit 4 b), hex_digit (b AND 15)] = b"
  by (simp add: unhex_def toHex_hex_digit nibble_less byte_split)

lemma convertBinToHexString_loop_eq:
  assumes "length buf \<ge> 2 * (l + length bin)"
  shows "convertBinToHexString_loop bin buf l =
     Some (take (2 * l) buf @
       concat (map (\<lambda>b. [hex_digit (drop_bit 4 b), hex_digit (b AND 15)]) bin) @
       drop (2 * (l + length bin)) buf)"
  using assms
proof (induction bin arbitrary: buf l)
  case Nil
  then show ?case by simp
next
  case (Cons b bin)
  let ?h = "hex_digit (drop_bit 4 b)" and ?d = "hex_digit (b AND 15)"
  let ?t = "buf[2 * l := ?h, Suc (2 * l) := ?d]"
  have t: "take (2 * Suc l) ?t = take (2 * l) buf @ [?h, ?d]"
    using Cons.prems by (simp add: take_Suc_conv_app_nth list_update_append)
  have "convertBinToHexString_loop (b # bin) buf l = convertBinToHexString_loop bin ?t (Suc l)"
    using Cons.prems by (simp add: cwrite_def mult.commute)
  with Cons.IH [of "Suc l" ?t] Cons.prems t show ?case by simp
qed

lemma convertBinToHexString_eq:
  assumes "length buf = 2 * length bin + 1"
  shows "convertBinToHexString bin buf (2 * length bin) =
     Some (concat (map (\<lambda>b. [hex_digit (drop_bit 4 b), hex_digit (b AND 15)]) bin) @ [0])"
proof -
  let ?h = "concat (map (\<lambda>b. [hex_digit (drop_bit 4 b), hex_digit (b AND 15)]) bin)"
  have h: "length ?h = 2 * length bin" by (induction bin) simp_all
  have "length (drop (2 * length bin) buf) = 1" using assms by simp
  then obtain x where "drop (2 * length bin) buf = [x]"
    by (metis One_nat_def length_0_conv length_Suc_conv)
  with assms h show ?thesis
    by (simp add: convertBinToHexString_def convertBinToHexString_loop_eq cwrite_def
        list_update_append)
qed

lemma hex_concat_nth:
  "l < length bin \<Longrightarrow>
    concat (map (\<lambda>b. [hex_digit (drop_bit 4 b), hex_digit (b AND 15)]) bin) ! (2 * l) =
      hex_digit (drop_bit 4 (bin ! l)) \<and>
    concat (map (\<lambda>b. [hex_digit (drop_bit 4 b), hex_digit (b AND 15)]) bin) ! Suc (2 * l) =
      hex_digit (bin ! l AND 15)"
  by (induction bin arbitrary: l) (auto simp: nth_Cons split: nat.splits)

subsection \<open>Bounded copies\<close>

lemma length_c_strncpy: "n \<le> length dest \<Longrightarrow> length (c_strncpy dest src n) = length dest"
  by (simp add: c_strncpy_def)

lemma drop_c_strncpy:
  assumes "n \<le> k" "n \<le> length dest"
  shows "drop k (c_strncpy dest src n) = drop k dest"
proof -
  let ?a = "take n (cstr src) @ replicate (n - strlen src) NUL"
  have "drop k (c_strncpy dest src n) = drop (k - length ?a) (drop n dest)"
    using assms by (simp add: c_strncpy_def)
  also have "\<dots> = drop k dest"
    using assms by (simp add: min_def)
  finally show ?thesis .
qed

lemma c_strncpy_take: "take n (c_strncpy dest src n) = take n (cstr src) @ replicate (n - strlen src) NUL"
  by (simp add: c_strncpy_def)

lemma strndup_len_eq:
  "len \<le> max_len \<Longrightarrow> nul_free (take len s) \<Longrightarrow> len \<le> length s \<Longrightarrow>
    strndup_len s max_len len = strlen (take max_len s)"
proof (induction s max_len len rule: strndup_len.induct)
  case (1 s max_len len)
  show ?case
  proof (cases "len < max_len \<and> cget s len \<noteq> NUL")
    case True
    then have "len < length s" using cget_beyond [of s len] by linarith
    with True 1 show ?thesis
      by (subst strndup_len.simps) (simp add: take_Suc_conv_app_nth)
  next
    case stop: False
    show ?thesis
    proof (cases "len < max_len")
      case True
      have "strlen (take max_len s) = len"
      proof (cases "len < length s")
        case lt: True
        with True have "take max_len s = take len s @ s ! len # drop (Suc len) (take max_len s)"
          using id_take_nth_drop [of len "take max_len s"] by (simp add: min_def)
        moreover have "s ! len = NUL" using stop True lt by simp
        ultimately show ?thesis
          using 1(3) lt by (metis cstr_terminated length_take min.absorb4 min.commute)
      next
        case False
        with 1(2-4) True show ?thesis by simp
      qed
      with stop True show ?thesis by (subst strndup_len.simps) simp
    next
      case False
      with 1(2-4) show ?thesis by (subst strndup_len.simps) simp
    qed
  qed
qed

lemma take_strlen_take: "take (strlen (take n s)) s = cstr (take n s)"
proof -
  have "prefix (cstr (take n s)) s"
    using cstr_prefix [of "take n s"] take_is_prefix prefix_order.order_trans by blast
  then show ?thesis by (metis append_eq_conv_conj prefixE)
qed

lemma cstr_terminated_at: "i < length d \<Longrightarrow> d ! i = NUL \<Longrightarrow> strlen d \<le> i"
  by (induction d arbitrary: i) (auto simp: nth_Cons split: nat.splits)

lemma cstr_take_replicate: "cstr (take n (cstr s) @ replicate k NUL @ NUL # t) = take n (cstr s)"
proof -
  have "nul_free (take n (cstr s))"
    using nul_free_cstr [of s] set_take_subset [of n "cstr s"] by (auto simp: nul_free_def)
  then show ?thesis by (cases k) (simp_all add: cstr_append)
qed

subsection \<open>Properties\<close>

text \<open>C17: Decoding a buffer in place writes exactly the recursively decoded string, its
  terminator, and nothing else: every byte behind the terminator, and the buffer's size,
  are those of the input.\<close>

theorem url_decode_refines:
  assumes "nul_free s"
  shows "url_decode (s @ NUL # rest) =
           urldec s @ NUL # drop (Suc (length (urldec s))) (s @ NUL # rest) \<and>
         length (url_decode (s @ NUL # rest)) = length (s @ NUL # rest) \<and>
         length (urldec s) \<le> length s"
  using url_decode_eq [OF assms] length_url_decode length_urldec by blast

theorem url_decode_refines_witness:
  "nul_free ''a%2Fb+c%'' \<and> url_decode (''a%2Fb+c%'' @ NUL # ''xy'') =
     ''a/b c%'' @ NUL # CHR ''%'' # NUL # ''xy''"
proof -
  have h: "nul_free ''a%2Fb+c%''" by simp
  have d: "urldec ''a%2Fb+c%'' = ''a/b c%''" by code_simp
  show ?thesis
    using url_decode_refines [OF h, of "''xy''"] h by (simp only: d) simp
qed

text \<open>C37: Percent decoding inverts percent encoding on every byte string, embedded NUL
  bytes included.\<close>

theorem url_decode_roundtrip:
  "take (length s + 1) (url_decode (urlenc s @ NUL # rest)) = s @ [NUL]"
  by (simp add: url_decode_eq [OF nul_free_urlenc] urldec_urlenc)



text \<open>For any pattern a positive result is sound: it is the position of the last byte
  of an occurrence; and the first occurrence is found whenever the text before it does not
  contain the pattern's first character.\<close>

theorem stringfind_occurrence:
  assumes "nul_free p" "2 \<le> length p"
  shows "(0 < stringfind (Some b) p \<longrightarrow>
            occurs_at p (stringfind (Some b) p + 1 - length p) (cstr b)) \<and>
         (cstr b = pre @ p @ post \<longrightarrow> hd p \<notin> set pre \<longrightarrow>
            stringfind (Some b) p = length pre + length p - 1)"
proof (intro conjI impI)
  assume "0 < stringfind (Some b) p"
  then obtain n where n: "match_loop (=) (cstr b) p 0 0 = Some n" "stringfind (Some b) p = n"
    by (auto simp: stringfind_def stringfind_loop_match split: option.splits)
  have "p \<noteq> []" using assms(2) by auto
  with match_loop_sound0 [OF n(1) assms(1)]
  obtain x z where "cstr b = x @ p @ z" "n + 1 = length x + length p"
    by (auto simp: list.rel_eq)
  then show "occurs_at p (stringfind (Some b) p + 1 - length p) (cstr b)"
    using n(2) by (simp add: occurs_at_def)
next
  assume "cstr b = pre @ p @ post" "hd p \<notin> set pre"
  moreover have "p \<noteq> []" using assms(2) by auto
  ultimately show "stringfind (Some b) p = length pre + length p - 1"
    using match_loop_first_occurrence [of p pre post 0] assms(1)
    by (simp add: stringfind_def stringfind_loop_match)
qed

theorem stringfind_occurrence_witness:
  "nul_free ''<script>'' \<and> (2::nat) \<le> length ''<script>'' \<and>
   stringfind (Some ''x<script>y'') ''<script>'' = 8 \<and>
   occurs_at ''<script>'' 1 ''x<script>y''"
proof -
  have h: "nul_free ''<script>''" "(2::nat) \<le> length ''<script>''" by simp_all
  have "stringfind (Some ''x<script>y'') ''<script>'' = 8"
    using stringfind_occurrence [OF h, of "''x<script>y''" "''x''" "''y''"] by simp
  with stringfind_occurrence [OF h, of "''x<script>y''"] h show ?thesis by simp
qed

text \<open>The search misses an occurrence that follows a partial match ending in the
  pattern's own first character, so both script checks can be bypassed.\<close>

lemma stringfind_misses_script:
  "stringfind (Some ''<<script>'') ''<script>'' = 0 \<and> sublist ''<script>'' ''<<script>''"
  by (auto simp: stringfind_def sublist_Cons_right)

lemma stringfind_misses_nul_escape:
  "stringfind (Some ''a%%00'') ''%00'' = 0 \<and> sublist ''%00'' ''a%%00''"
  by (auto simp: stringfind_def sublist_Cons_right)

text \<open>C39: Copying with the code's idiom (a destination of \<open>count + 1\<close> bytes) yields the
  source's C string cut to \<open>count\<close> bytes; with any sizes the copy stays inside the first
  \<open>dest_size\<close> bytes and leaves a terminated string there.\<close>

theorem Webserver_strncpy_copies:
  assumes "1 \<le> dest_size" "dest_size \<le> length d"
  shows "\<exists>d'. Webserver_strncpy (Some d) dest_size (Some s) count = Some d' \<and>
           length d' = length d \<and> drop dest_size d' = drop dest_size d \<and>
           strlen d' < dest_size \<and>
           (count + 1 = dest_size \<longrightarrow> cstr d' = take count (cstr s))"
proof -
  define n where "n = (if dest_size \<ge> count then count else dest_size)"
  define d' where "d' = (c_strncpy d s n)[dest_size - 1 := NUL]"
  have n: "n \<le> length d" "n \<le> dest_size" using assms(2) by (auto simp: n_def)
  then have l: "length d' = length d" by (simp add: d'_def length_c_strncpy)
  have w: "Webserver_strncpy (Some d) dest_size (Some s) count = Some d'"
    using assms(1) by (simp add: Webserver_strncpy_def Let_def d'_def n_def)
  have dr: "drop dest_size d' = drop dest_size d"
    using assms(1) n by (simp add: d'_def drop_c_strncpy)
  have "d' ! (dest_size - 1) = NUL"
    using assms n by (simp add: d'_def length_c_strncpy)
  then have "strlen d' \<le> dest_size - 1"
    using cstr_terminated_at [of "dest_size - 1" d'] assms l by simp
  then have t: "strlen d' < dest_size" using assms(1) by linarith
  have "cstr d' = take count (cstr s)" if "count + 1 = dest_size"
  proof -
    have "n = count" using that by (simp add: n_def)
    moreover have "drop count d = d ! count # drop dest_size d"
      using that assms(2) by (simp add: Cons_nth_drop_Suc flip: that)
    ultimately have "d' = take count (cstr s) @ replicate (count - strlen s) NUL @ NUL # drop dest_size d"
      by (simp add: d'_def c_strncpy_def list_update_append min_def flip: that)
    then show ?thesis by (simp only: cstr_take_replicate)
  qed
  with w l dr t show ?thesis by auto
qed

theorem Webserver_strncpy_copies_witness:
  "\<exists>d'. Webserver_strncpy (Some ''zzzzzz'') 4 (Some ''hello'') 3 = Some d' \<and>
     length d' = 6 \<and> cstr d' = ''hel''"
  using Webserver_strncpy_copies [of 4 "''zzzzzz''" "''hello''" 3] by auto

end
