(* ===== verification/Base64.thy ===== *)
theory Base64
  imports StringUtils
begin

text \<open>
  The base64 encoder of \<open>lib/src/base64.c\<close>, which the websocket handshake uses for the
  accept key. The encoder writes through indices into the caller's buffer; a write outside
  it is \<open>None\<close>. The theory proves that no such write happens and that a reference decoder
  recovers the input from the buffer.
\<close>

definition encoder :: string where
  "encoder = ''ABCDEFGHIJKLMNOPQRSTUVWXYZabcdefghijklmnopqrstuvwxyz0123456789+/''"

definition base64_encsize :: "nat \<Rightarrow> nat" where
  "base64_encsize n = 4 * ((n + 2) div 3)"

definition sextet :: "nat \<Rightarrow> u32 \<Rightarrow> char" where
  "sextet k triple = encoder ! unat (drop_bit k triple AND 63)"

definition write4 :: "string \<Rightarrow> nat \<Rightarrow> u32 \<Rightarrow> string option" where
  "write4 dest j triple =
     Option.bind (cwrite dest j (sextet 18 triple)) (\<lambda>d.
     Option.bind (cwrite d (j + 1) (sextet 12 triple)) (\<lambda>d.
     Option.bind (cwrite d (j + 2) (sextet 6 triple)) (\<lambda>d.
       cwrite d (j + 3) (sextet 0 triple))))"

function base64_loop :: "bytes \<Rightarrow> nat \<Rightarrow> nat \<Rightarrow> string \<Rightarrow> nat \<Rightarrow> (string \<times> nat) option" where
  "base64_loop src slen i dest j =
     (if i < slen then
        (let a = ucast (bget src i) :: u32; i = i + 1;
             b = (if i < slen then ucast (bget src i) else 0) :: u32;
             i = (if i < slen then i + 1 else i);
             c = (if i < slen then ucast (bget src i) else 0) :: u32;
             i = (if i < slen then i + 1 else i);
             triple = push_bit 16 a + push_bit 8 b + c
         in Option.bind (write4 dest j triple) (\<lambda>d. base64_loop src slen i d (j + 4)))
      else Some (dest, j))"
  by pat_completeness auto
termination
  by (relation "measure (\<lambda>(src, slen, i, dest, j). slen - i)") (auto simp: Let_def)

declare base64_loop.simps [simp del]

text \<open>The padding writes of the switch on \<open>slen % 3\<close>, with its fall-through, and the terminator.\<close>

definition base64_pad :: "nat \<Rightarrow> string \<Rightarrow> nat \<Rightarrow> string option" where
  "base64_pad slen dest j =
     Option.bind (if slen mod 3 = 1 then cwrite dest (j - 2) (CHR ''='') else Some dest) (\<lambda>d.
     Option.bind (if slen mod 3 = 1 \<or> slen mod 3 = 2 then cwrite d (j - 1) (CHR ''='') else Some d)
       (\<lambda>d. cwrite d j NUL))"

text \<open>The result pairs the return value with the destination buffer.\<close>

definition base64_encode ::
  "string option \<Rightarrow> nat \<Rightarrow> bytes option \<Rightarrow> nat \<Rightarrow> (int \<times> string option) option" where
  "base64_encode dest dsize src slen =
     (let dlen = base64_encsize slen in
      case (src, dest) of
        (Some s, Some d) \<Rightarrow>
          if dlen + 1 > dsize then Some (- 1, dest)
          else if slen = 0 then
            (if dsize > 0 then Option.bind (cwrite d 0 NUL) (\<lambda>d. Some (0, Some d))
             else Some (- 1, dest))
          else Option.bind (base64_loop s slen 0 d 0) (\<lambda>(d, j).
               Option.bind (base64_pad slen d j) (\<lambda>d. Some (int dlen, Some d)))
      | _ \<Rightarrow> Some (- 1, dest))"

text \<open>The public entry clears the output and ignores the encoder's return value.\<close>

definition WebserverBase64Encode :: "bytes \<Rightarrow> nat \<Rightarrow> string \<Rightarrow> nat \<Rightarrow> string option" where
  "WebserverBase64Encode input len output out_length =
     Option.bind (base64_encode (Some (replicate out_length NUL @ drop out_length output))
                    out_length (Some input) len)
       (\<lambda>(_, d). d)"

subsection \<open>The bytes the loop writes\<close>

definition quad :: "u8 \<Rightarrow> u8 \<Rightarrow> u8 \<Rightarrow> string" where
  "quad a b c =
     (let n = unat a * 65536 + unat b * 256 + unat c in
      [encoder ! (n div 262144 mod 64), encoder ! (n div 4096 mod 64),
       encoder ! (n div 64 mod 64), encoder ! (n mod 64)])"

fun quads :: "bytes \<Rightarrow> string" where
  "quads [] = []"
| "quads (a # r) = quad a (bget r 0) (bget r 1) @ quads (drop 2 r)"

lemma length_quad [simp]: "length (quad a b c) = 4"
  by (simp add: quad_def Let_def)

lemma length_quads: "length (quads s) = base64_encsize (length s)"
proof (induction s rule: quads.induct)
  case (2 a r)
  show ?case
  proof (cases "length r \<ge> 2")
    case True
    then have "(3 + length r) div 3 = Suc ((length r - 2 + 2) div 3)" by simp
    with 2 True show ?thesis by (simp add: base64_encsize_def)
  next
    case False
    then have "length r = 0 \<or> length r = 1" by linarith
    with 2 show ?thesis by (auto simp: base64_encsize_def)
  qed
qed (simp add: base64_encsize_def)

lemma unat_sextet: "unat (drop_bit k t AND 63 :: u32) = unat t div 2 ^ k mod 64"
proof -
  have "drop_bit k t AND 63 = take_bit 6 (drop_bit k t)"
    by (simp add: take_bit_eq_mask mask_numeral)
  then show ?thesis
    by (simp only: unsigned_take_bit_eq unat_drop_bit_eq) (simp add: drop_bit_eq_div take_bit_eq_mod)
qed

lemma unat_triple:
  "unat (push_bit 16 (ucast a) + push_bit 8 (ucast b) + ucast c :: u32) =
     unat (a :: u8) * 65536 + unat (b :: u8) * 256 + unat (c :: u8)"
proof -
  have "unat a < 256" "unat b < 256" "unat c < 256" by (simp_all add: bound_simps)
  then show ?thesis
    by (simp add: push_bit_eq_mult unat_word_ariths)
qed

lemma write4_app:
  "length u = j \<Longrightarrow> write4 (u @ w # x # y # z # r) j t =
     Some (u @ [sextet 18 t, sextet 12 t, sextet 6 t, sextet 0 t] @ r)"
  by (auto simp: write4_def cwrite_def list_update_append eval_nat_numeral)

lemma write4_eq:
  assumes "j + 4 \<le> length dest"
  shows "write4 dest j (push_bit 16 (ucast a) + push_bit 8 (ucast b) + ucast c) =
     Some (take j dest @ quad a b c @ drop (j + 4) dest)"
proof -
  let ?t = "push_bit 16 (ucast a) + push_bit 8 (ucast b) + ucast c :: u32"
  have q: "quad a b c = [sextet 18 ?t, sextet 12 ?t, sextet 6 ?t, sextet 0 ?t]"
    by (simp only: quad_def sextet_def unat_sextet unat_triple Let_def) simp
  have "drop j dest = dest ! j # dest ! (j + 1) # dest ! (j + 2) # dest ! (j + 3) # drop (j + 4) dest"
    using assms by (simp add: Cons_nth_drop_Suc eval_nat_numeral)
  then obtain w x y z where "dest = take j dest @ w # x # y # z # drop (j + 4) dest"
    using append_take_drop_id [of j dest] by metis
  moreover have "length (take j dest) = j" using assms by simp
  ultimately show ?thesis
    unfolding q using write4_app [of "take j dest" j w x y z "drop (j + 4) dest" ?t] by simp
qed

text \<open>The loop writes the groups of the remaining input, whole groups at a time.\<close>

lemma bget_drop: "bget (drop i s) k = bget s (i + k)"
  by (simp add: bget_def less_diff_conv add.commute)

lemma bget_nth: "i < length s \<Longrightarrow> bget s i = s ! i"
  by (simp add: bget_def)

lemma bget_beyond: "length s \<le> i \<Longrightarrow> bget s i = 0"
  by (simp add: bget_def)

lemma base64_loop_step:
  assumes "i < length src"
  shows "base64_loop src (length src) i dest j =
     Option.bind (write4 dest j (push_bit 16 (ucast (bget src i)) +
         push_bit 8 (ucast (bget src (i + 1))) + ucast (bget src (i + 2))))
       (\<lambda>d. base64_loop src (length src) (min (i + 3) (length src)) d (j + 4))"
proof -
  consider "length src = i + 1" | "length src = i + 2" | "i + 3 \<le> length src"
    using assms by linarith
  then show ?thesis
  proof cases
    case 1
    then show ?thesis
      by (subst base64_loop.simps) (simp add: Let_def bget_beyond)
  next
    case 2
    then show ?thesis
      by (subst base64_loop.simps) (simp add: Let_def bget_beyond)
  next
    case 3
    then show ?thesis
      by (subst base64_loop.simps) (simp add: Let_def min_def numeral_3_eq_3)
  qed
qed

lemma base64_loop_eq:
  assumes "i \<le> length src" "j + length (quads (drop i src)) \<le> length dest"
  shows "base64_loop src (length src) i dest j =
     (let q = quads (drop i src) in Some (take j dest @ q @ drop (j + length q) dest, j + length q))"
  using assms
proof (induction "length src - i" arbitrary: i dest j rule: less_induct)
  case less
  show ?case
  proof (cases "i < length src")
    case False
    with less.prems(1) show ?thesis by (subst base64_loop.simps) simp
  next
    case True
    let ?i = "min (i + 3) (length src)"
    let ?q = "quad (bget src i) (bget src (i + 1)) (bget src (i + 2))"
    let ?d = "take j dest @ ?q @ drop (j + 4) dest"
    have "drop i src = src ! i # drop (Suc i) src"
      using True by (simp add: Cons_nth_drop_Suc)
    moreover have "drop 2 (drop (Suc i) src) = drop ?i src"
      by (simp add: min_def numeral_2_eq_2 numeral_3_eq_3)
    ultimately have q: "quads (drop i src) = ?q @ quads (drop ?i src)"
      using True by (simp add: bget_drop bget_nth)
    with less.prems(2) have l: "j + 4 + length (quads (drop ?i src)) \<le> length dest" by simp
    have "base64_loop src (length src) i dest j = base64_loop src (length src) ?i ?d (j + 4)"
      using l by (simp add: base64_loop_step [OF True] write4_eq)
    also have "\<dots> = (let q = quads (drop ?i src) in
        Some (take (j + 4) ?d @ q @ drop (j + 4 + length q) ?d, j + 4 + length q))"
      using less.hyps [of ?i "j + 4" ?d] True l by simp
    finally show ?thesis
      using l by (simp add: q Let_def ac_simps)
  qed
qed

subsection \<open>Reference text and decoder\<close>

fun b64text :: "bytes \<Rightarrow> string" where
  "b64text [] = []"
| "b64text [a] = take 2 (quad a 0 0) @ ''==''"
| "b64text [a, b] = take 3 (quad a b 0) @ ''=''"
| "b64text (a # b # c # r) = quad a b c @ b64text r"

definition dec6 :: "char \<Rightarrow> nat" where
  "dec6 c = (if c = CHR ''='' then 0 else length (takeWhile (\<lambda>x. x \<noteq> c) encoder))"

fun b64decode :: "string \<Rightarrow> bytes" where
  "b64decode (w # x # y # z # r) =
     (let n = dec6 w * 262144 + dec6 x * 4096 + dec6 y * 64 + dec6 z in
      (if y = CHR ''='' then [of_nat (n div 65536)]
       else if z = CHR ''='' then [of_nat (n div 65536), of_nat (n div 256 mod 256)]
       else [of_nat (n div 65536), of_nat (n div 256 mod 256), of_nat (n mod 256)]) @ b64decode r)"
| "b64decode _ = []"

lemma length_encoder: "length encoder = 64"
  by (simp add: encoder_def)

lemma distinct_encoder: "distinct encoder"
  by (simp add: encoder_def)

lemma encoder_nth_neq: "k < 64 \<Longrightarrow> encoder ! k \<noteq> CHR ''=''" "k < 64 \<Longrightarrow> encoder ! k \<noteq> NUL"
proof -
  have "CHR ''='' \<notin> set encoder" "NUL \<notin> set encoder" by (simp_all add: encoder_def)
  then show "k < 64 \<Longrightarrow> encoder ! k \<noteq> CHR ''=''" "k < 64 \<Longrightarrow> encoder ! k \<noteq> NUL"
    using length_encoder nth_mem by metis+
qed

lemma takeWhile_neq_nth:
  "distinct xs \<Longrightarrow> k < length xs \<Longrightarrow> length (takeWhile (\<lambda>x. x \<noteq> xs ! k) xs) = k"
proof (induction xs arbitrary: k)
  case (Cons a xs)
  then show ?case by (cases k) auto
qed simp

lemma dec6_encoder [simp]: "k < 64 \<Longrightarrow> dec6 (encoder ! k) = k"
  by (simp add: dec6_def encoder_nth_neq takeWhile_neq_nth distinct_encoder length_encoder)

lemma sextets_sum:
  assumes "n < 16777216"
  shows "n div 262144 mod 64 * 262144 + n div 4096 mod 64 * 4096 +
     n div 64 mod 64 * 64 + n mod 64 = (n :: nat)"
proof -
  have "n div 4096 = n div 64 div 64" "n div 262144 = n div 64 div 64 div 64"
    by (simp_all add: div_mult2_eq [symmetric])
  moreover have "n div 262144 mod 64 = n div 262144" using assms by simp
  ultimately show ?thesis
    using div_mult_mod_eq [of n 64] div_mult_mod_eq [of "n div 64" 64]
      div_mult_mod_eq [of "n div 64 div 64" 64] by (simp only:)
qed

lemma decode_quad:
  fixes a b c :: u8
  defines "n \<equiv> unat a * 65536 + unat b * 256 + unat c"
  shows "n < 16777216" "of_nat (n div 65536) = a" "of_nat (n div 256 mod 256) = b"
    "of_nat (n mod 256) = c"
proof -
  have ub: "unat a < 256" "unat b < 256" "unat c < 256" by (simp_all add: bound_simps)
  show "n < 16777216" unfolding n_def using ub by linarith
  have "n div 65536 = unat a" unfolding n_def using ub by linarith
  moreover have "n div 256 = unat a * 256 + unat b" unfolding n_def using ub by linarith
  moreover have "n mod 256 = unat c"
  proof -
    have "n = unat c + (unat a * 256 + unat b) * 256" by (simp add: n_def)
    then show ?thesis using ub by (simp only: mod_mult_self1) simp
  qed
  ultimately show "of_nat (n div 65536) = a" "of_nat (n div 256 mod 256) = b" "of_nat (n mod 256) = c"
    using ub by simp_all
qed

lemma b64decode_group:
  assumes "n < 16777216"
  shows "b64decode (encoder ! (n div 262144 mod 64) # encoder ! (n div 4096 mod 64) #
      encoder ! (n div 64 mod 64) # encoder ! (n mod 64) # r) =
    [of_nat (n div 65536), of_nat (n div 256 mod 256), of_nat (n mod 256)] @ b64decode r"
proof -
  have e: "dec6 (encoder ! (k mod 64)) = k mod 64" for k :: nat by simp
  have ne: "encoder ! (k mod 64) \<noteq> CHR ''=''" for k :: nat by (simp add: encoder_nth_neq)
  show ?thesis
    unfolding b64decode.simps Let_def e sextets_sum [OF assms] by (simp add: ne)
qed

lemma b64decode_pad1:
  assumes "n < 16777216" "n mod 64 = 0"
  shows "b64decode (encoder ! (n div 262144 mod 64) # encoder ! (n div 4096 mod 64) #
      encoder ! (n div 64 mod 64) # CHR ''='' # []) = [of_nat (n div 65536), of_nat (n div 256 mod 256)]"
proof -
  have e: "dec6 (encoder ! (k mod 64)) = k mod 64" for k :: nat by simp
  have ne: "encoder ! (k mod 64) \<noteq> CHR ''=''" for k :: nat by (simp add: encoder_nth_neq)
  have z: "dec6 (CHR ''='') = n mod 64" using assms(2) by (simp add: dec6_def)
  show ?thesis
    unfolding b64decode.simps Let_def e z sextets_sum [OF assms(1)] by (simp add: ne)
qed

lemma b64decode_pad2:
  assumes "n < 16777216" "n mod 64 = 0" "n div 64 mod 64 = 0"
  shows "b64decode (encoder ! (n div 262144 mod 64) # encoder ! (n div 4096 mod 64) #
      CHR ''='' # CHR ''='' # []) = [of_nat (n div 65536)]"
proof -
  have e: "dec6 (encoder ! (k mod 64)) = k mod 64" for k :: nat by simp
  have "dec6 (CHR ''='') = n mod 64" "dec6 (CHR ''='') = n div 64 mod 64"
    using assms(2,3) by (simp_all add: dec6_def)
  then have "b64decode (encoder ! (n div 262144 mod 64) # encoder ! (n div 4096 mod 64) #
      CHR ''='' # CHR ''='' # []) =
      [of_nat ((n div 262144 mod 64 * 262144 + n div 4096 mod 64 * 4096 +
        n div 64 mod 64 * 64 + n mod 64) div 65536)]"
    by (simp add: e)
  then show ?thesis by (simp only: sextets_sum [OF assms(1)])
qed

lemma b64decode_quad: "b64decode (quad a b c @ r) = [a, b, c] @ b64decode r"
  using b64decode_group [OF decode_quad(1) [of a b c], of r] decode_quad(2-4) [of a b c]
  by (simp only: quad_def Let_def append_Cons append_Nil)

lemma b64decode_b64text: "b64decode (b64text s) = s"
proof (induction s rule: b64text.induct)
  case (2 a)
  have "unat a * 65536 mod 64 = 0" "unat a * 65536 div 64 mod 64 = 0"
    by (simp_all add: mod_mult_left_eq)
  with b64decode_pad2 [of "unat a * 65536"] decode_quad [of a 0 0] show ?case
    by (simp add: quad_def Let_def)
next
  case (3 a b)
  have "(unat a * 65536 + unat b * 256) mod 64 = 0" by presburger
  with b64decode_pad1 [of "unat a * 65536 + unat b * 256"] decode_quad [of a b 0] show ?case
    by (simp add: quad_def Let_def)
qed (simp_all add: b64decode_quad)

subsection \<open>The encoder writes the reference text\<close>

lemma length_b64text: "length (b64text s) = base64_encsize (length s)"
proof (induction s rule: b64text.induct)
  case (4 a b c r)
  have "(5 + length r) div 3 = Suc (Suc (Suc (length r)) div 3)" by presburger
  with 4 show ?case by (simp add: base64_encsize_def)
qed (simp_all add: base64_encsize_def)

lemma nul_free_quad: "nul_free (quad a b c)"
  by (simp add: quad_def Let_def encoder_nth_neq)

lemma nul_free_b64text: "nul_free (b64text s)"
  by (induction s rule: b64text.induct) (simp_all add: nul_free_quad)

lemma quad_list: obtains w x y z where "quad a b c = [w, x, y, z]"
  by (simp add: quad_def Let_def)

lemma quads_Nil_iff: "quads r = [] \<longleftrightarrow> r = []"
  by (cases r) (auto simp: quad_def Let_def)

lemma quads_pad1:
  "length s mod 3 = 1 \<Longrightarrow>
    (quads s)[length (quads s) - 2 := CHR ''='', length (quads s) - 1 := CHR ''=''] = b64text s"
proof (induction s rule: b64text.induct)
  case (2 a)
  obtain w x y z where "quad a 0 0 = [w, x, y, z]" by (rule quad_list)
  then show ?case by (simp add: bget_def numeral_2_eq_2 numeral_3_eq_3)
next
  case (4 a b c r)
  then have "r \<noteq> []" by auto
  then have "quads r \<noteq> []" "length (quads r) \<ge> 4"
    using quads_Nil_iff [of r] by (auto simp: neq_Nil_conv)
  with 4 show ?case
    by (simp add: bget_def list_update_append numeral_2_eq_2)
qed simp_all

lemma quads_pad2:
  "length s mod 3 = 2 \<Longrightarrow> (quads s)[length (quads s) - 1 := CHR ''=''] = b64text s"
proof (induction s rule: b64text.induct)
  case (3 a b)
  obtain w x y z where "quad a b 0 = [w, x, y, z]" by (rule quad_list)
  then show ?case by (simp add: bget_def numeral_2_eq_2 numeral_3_eq_3)
next
  case (4 a b c r)
  then have "r \<noteq> []" by auto
  then have "quads r \<noteq> []" "length (quads r) \<ge> 4"
    using quads_Nil_iff [of r] by (auto simp: neq_Nil_conv)
  with 4 show ?case
    by (simp add: bget_def list_update_append numeral_2_eq_2)
qed simp_all

lemma quads_pad0: "length s mod 3 = 0 \<Longrightarrow> quads s = b64text s"
  by (induction s rule: b64text.induct) (simp_all add: bget_def numeral_2_eq_2)

lemma base64_pad_eq:
  assumes "s \<noteq> []"
  shows "base64_pad (length s) (quads s @ x # r) (length (quads s)) = Some (b64text s @ NUL # r)"
proof -
  have l: "length (quads s) \<ge> 4" using assms by (cases s) simp_all
  have n: "length (quads s) - Suc 0 < length (quads s)" "length (quads s) - 2 < length (quads s)"
    using l by linarith+
  have lb: "length (quads s) = length (b64text s)" by (simp add: length_quads length_b64text)
  consider "length s mod 3 = 0" | "length s mod 3 = 1" | "length s mod 3 = 2" by linarith
  then show ?thesis
  proof cases
    case 1
    then show ?thesis by (simp add: base64_pad_def cwrite_def quads_pad0)
  next
    case 2
    with quads_pad1 [OF 2] n lb show ?thesis
      by (simp add: base64_pad_def cwrite_def list_update_append)
  next
    case 3
    with quads_pad2 [OF 3] n lb show ?thesis
      by (simp add: base64_pad_def cwrite_def list_update_append)
  qed
qed

lemma base64_encode_eq:
  assumes "base64_encsize (length s) + 1 \<le> dsize" "dsize \<le> length d"
  shows "base64_encode (Some d) dsize (Some s) (length s) =
     Some (int (base64_encsize (length s)),
       Some (b64text s @ NUL # drop (base64_encsize (length s) + 1) d))"
proof (cases "s = []")
  case True
  with assms show ?thesis
    by (cases d) (simp_all add: base64_encode_def base64_encsize_def cwrite_def)
next
  case False
  let ?n = "base64_encsize (length s)"
  have q: "length (quads s) = ?n" by (rule length_quads)
  have "base64_loop s (length s) 0 d 0 = Some (quads s @ drop ?n d, ?n)"
    using base64_loop_eq [of 0 s 0 d] assms q by (simp add: Let_def)
  moreover have "drop ?n d = d ! ?n # drop (?n + 1) d"
    using assms by (simp add: Cons_nth_drop_Suc)
  ultimately show ?thesis
    using False assms base64_pad_eq [OF False, of "d ! ?n" "drop (?n + 1) d"] q
    by (simp add: base64_encode_def Let_def)
qed

text \<open>C18: The base64 encoder stays inside a sufficient destination, returns the encoded
  length, terminates the text, and the standard decoder recovers exactly the input.\<close>

theorem base64_encode_roundtrip:
  assumes "base64_encsize (length s) + 1 \<le> dsize" "dsize \<le> length d"
  shows "\<exists>d'. base64_encode (Some d) dsize (Some s) (length s) =
            Some (int (base64_encsize (length s)), Some d') \<and>
          length d' = length d \<and> strlen d' = base64_encsize (length s) \<and>
          drop (base64_encsize (length s) + 1) d' = drop (base64_encsize (length s) + 1) d \<and>
          b64decode (cstr d') = s"
  using assms
  by (simp add: base64_encode_eq length_b64text nul_free_b64text b64decode_b64text)

theorem base64_encode_roundtrip_witness:
  "\<exists>d'. base64_encode (Some (replicate 9 NUL)) 9 (Some [104, 101, 108, 108]) 4 = Some (8, Some d') \<and>
     b64decode (cstr d') = [104, 101, 108, 108]"
proof -
  have l: "length [104, 101, 108, 108 :: u8] = 4" by simp
  have e: "base64_encsize 4 = 8" by (simp add: base64_encsize_def)
  show ?thesis
    using base64_encode_roundtrip [of "[104, 101, 108, 108]" 9 "replicate 9 NUL"]
    unfolding l e by auto
qed

end
