(* ===== verification/HashMap.thy ===== *)
theory HashMap
  imports StringUtils "HOL-Library.Multiset"
begin

text \<open>
  The string-keyed hash map of \<open>lib/src/hashmap.c\<close>: both hash functions on 32-bit words, the
  bucket array with its chains, the load-factor test in 32-bit arithmetic, the rehash into a
  doubled array, and the operations on top of them. A value is a pointer (\<open>None\<close> is null),
  as is the key argument; \<open>malloc n\<close> tells whether an allocation of \<open>n\<close> bytes succeeds.

  Keys are compared and copied up to 4096 bytes: the abstraction is a partial map on keys
  cut to that length. The locale \<open>string_map\<close> states what clients of the map rely on.
\<close>

datatype hashmap_hash_type = HASHMAP_HASH_FNV1A | HASHMAP_HASH_JENKINS

type_synonym 'v hashmap_entry = "string \<times> 'v option"

record 'v hashmap =
  buckets :: "'v hashmap_entry list list"
  capacity :: u32
  hm_count :: u32
  hash_type :: hashmap_hash_type

abbreviation HASHMAP_INITIAL_CAPACITY :: u32 where "HASHMAP_INITIAL_CAPACITY \<equiv> 16"
definition HASHMAP_MAX_KEY_LEN :: nat where "HASHMAP_MAX_KEY_LEN = 4096"

fun hash_fnv1a_loop :: "string \<Rightarrow> nat \<Rightarrow> u32 \<Rightarrow> u32" where
  "hash_fnv1a_loop [] n hash = hash"
| "hash_fnv1a_loop (c # str) n hash =
     (if n = 0 \<or> c = NUL then hash
      else hash_fnv1a_loop str (n - 1) ((hash XOR ucast (u8_of_char c)) * 16777619))"

definition hash_fnv1a :: "string \<Rightarrow> nat \<Rightarrow> u32" where
  "hash_fnv1a str max_len = hash_fnv1a_loop str max_len 2166136261"

definition jenkins_mix :: "u32 \<Rightarrow> char \<Rightarrow> u32" where
  "jenkins_mix hash c =
     (let hash = hash + ucast (u8_of_char c);
          hash = hash + push_bit 10 hash
      in hash XOR drop_bit 6 hash)"

fun hash_jenkins_loop :: "string \<Rightarrow> nat \<Rightarrow> u32 \<Rightarrow> u32" where
  "hash_jenkins_loop [] n hash = hash"
| "hash_jenkins_loop (c # str) n hash =
     (if n = 0 \<or> c = NUL then hash else hash_jenkins_loop str (n - 1) (jenkins_mix hash c))"

definition hash_jenkins :: "string \<Rightarrow> nat \<Rightarrow> u32" where
  "hash_jenkins str max_len =
     (let hash = hash_jenkins_loop str max_len 0;
          hash = hash + push_bit 3 hash;
          hash = hash XOR drop_bit 11 hash
      in hash + push_bit 15 hash)"

definition hash_string :: "hashmap_hash_type \<Rightarrow> string \<Rightarrow> nat \<Rightarrow> u32" where
  "hash_string t str max_len =
     (case t of HASHMAP_HASH_JENKINS \<Rightarrow> hash_jenkins str max_len
      | HASHMAP_HASH_FNV1A \<Rightarrow> hash_fnv1a str max_len)"

definition bucket_index :: "u32 \<Rightarrow> u32 \<Rightarrow> nat" where
  "bucket_index cap hash = unat (hash AND (cap - 1))"

definition rehash_entry :: "hashmap_hash_type \<Rightarrow> u32 \<Rightarrow> 'v hashmap_entry \<Rightarrow>
    'v hashmap_entry list list \<Rightarrow> 'v hashmap_entry list list" where
  "rehash_entry t new_capacity e new_buckets =
     (let idx = bucket_index new_capacity (hash_string t (fst e) HASHMAP_MAX_KEY_LEN)
      in new_buckets[idx := e # new_buckets ! idx])"

definition hashmap_resize_if_needed :: "(nat \<Rightarrow> bool) \<Rightarrow> 'v hashmap \<Rightarrow> 'v hashmap \<times> int" where
  "hashmap_resize_if_needed malloc m =
     (if hm_count m * 4 \<le> capacity m * 3 then (m, 0)
      else let new_capacity = capacity m * 2 in
        if new_capacity < capacity m then (m, - 1)
        else if \<not> malloc (unat new_capacity * 8) then (m, - 1)
        else let new_buckets = fold (rehash_entry (hash_type m) new_capacity)
                 (concat (buckets m)) (replicate (unat new_capacity) [])
             in (m\<lparr>buckets := new_buckets, capacity := new_capacity\<rparr>, 0))"

definition hashmap_create_ex :: "(nat \<Rightarrow> bool) \<Rightarrow> hashmap_hash_type \<Rightarrow> 'v hashmap option" where
  "hashmap_create_ex malloc t =
     (if \<not> malloc 24 then None
      else if \<not> malloc (unat HASHMAP_INITIAL_CAPACITY * 8) then None
      else Some \<lparr>buckets = replicate (unat HASHMAP_INITIAL_CAPACITY) [],
                 capacity = HASHMAP_INITIAL_CAPACITY, hm_count = 0, hash_type = t\<rparr>)"

definition hashmap_create :: "(nat \<Rightarrow> bool) \<Rightarrow> 'v hashmap option" where
  "hashmap_create malloc = hashmap_create_ex malloc HASHMAP_HASH_FNV1A"

text \<open>The values that the destroy passes to \<open>free_value\<close>, in order.\<close>

definition hashmap_destroy :: "'v hashmap option \<Rightarrow> bool \<Rightarrow> 'v list" where
  "hashmap_destroy m free_value =
     (case m of None \<Rightarrow> []
      | Some hm \<Rightarrow> if free_value then List.map_filter snd (concat (buckets hm)) else [])"

fun chain_get :: "'v hashmap_entry list \<Rightarrow> string \<Rightarrow> 'v option" where
  "chain_get [] key = None"
| "chain_get (e # es) key =
     (if strncmp (fst e) key HASHMAP_MAX_KEY_LEN = 0 then snd e else chain_get es key)"

definition hashmap_get :: "'v hashmap option \<Rightarrow> string option \<Rightarrow> 'v option" where
  "hashmap_get m k =
     (case (m, k) of
        (Some hm, Some key) \<Rightarrow>
          let hash = hash_string (hash_type hm) key HASHMAP_MAX_KEY_LEN;
              idx = bucket_index (capacity hm) hash
          in chain_get (buckets hm ! idx) key
      | _ \<Rightarrow> None)"

text \<open>The search for an existing key: the chain with its value replaced, if it is there.\<close>

fun chain_update :: "'v hashmap_entry list \<Rightarrow> string \<Rightarrow> 'v option \<Rightarrow> 'v hashmap_entry list option" where
  "chain_update [] key v = None"
| "chain_update (e # es) key v =
     (if strncmp (fst e) key HASHMAP_MAX_KEY_LEN = 0 then Some ((fst e, v) # es)
      else map_option (Cons e) (chain_update es key v))"

definition hashmap_put :: "(nat \<Rightarrow> bool) \<Rightarrow> 'v hashmap option \<Rightarrow> string option \<Rightarrow> 'v option \<Rightarrow>
    'v hashmap option \<times> int" where
  "hashmap_put malloc m k v =
     (case (m, k) of
        (Some hm, Some key) \<Rightarrow>
          let hash = hash_string (hash_type hm) key HASHMAP_MAX_KEY_LEN;
              idx = bucket_index (capacity hm) hash
          in case chain_update (buckets hm ! idx) key v of
               Some es \<Rightarrow> (Some (hm\<lparr>buckets := (buckets hm)[idx := es]\<rparr>), 0)
             | None \<Rightarrow>
                 case Webserver_strndup malloc (Some key) HASHMAP_MAX_KEY_LEN of
                   None \<Rightarrow> (Some hm, - 1)
                 | Some key_copy \<Rightarrow>
                     if \<not> malloc 24 then (Some hm, - 1)
                     else let hm = hm\<lparr>buckets := (buckets hm)[idx := (key_copy, v) # buckets hm ! idx],
                                        hm_count := hm_count hm + 1\<rparr>
                          in (Some (fst (hashmap_resize_if_needed malloc hm)), 0)
      | _ \<Rightarrow> (m, - 1))"

fun chain_remove :: "'v hashmap_entry list \<Rightarrow> string \<Rightarrow> ('v hashmap_entry list \<times> 'v option) option" where
  "chain_remove [] key = None"
| "chain_remove (e # es) key =
     (if strncmp (fst e) key HASHMAP_MAX_KEY_LEN = 0 then Some (es, snd e)
      else map_option (\<lambda>(es, v). (e # es, v)) (chain_remove es key))"

definition hashmap_remove :: "'v hashmap option \<Rightarrow> string option \<Rightarrow> 'v hashmap option \<times> 'v option" where
  "hashmap_remove m k =
     (case (m, k) of
        (Some hm, Some key) \<Rightarrow>
          let hash = hash_string (hash_type hm) key HASHMAP_MAX_KEY_LEN;
              idx = bucket_index (capacity hm) hash
          in case chain_remove (buckets hm ! idx) key of
               None \<Rightarrow> (m, None)
             | Some (es, v) \<Rightarrow>
                 (Some (hm\<lparr>buckets := (buckets hm)[idx := es], hm_count := hm_count hm - 1\<rparr>), v)
      | _ \<Rightarrow> (m, None))"

definition hashmap_count :: "'v hashmap option \<Rightarrow> nat" where
  "hashmap_count m = (case m of None \<Rightarrow> 0 | Some hm \<Rightarrow> unat (hm_count hm))"

text \<open>The calls of the callback, in order.\<close>

definition hashmap_foreach :: "'v hashmap option \<Rightarrow> 'v hashmap_entry list" where
  "hashmap_foreach m = (case m of None \<Rightarrow> [] | Some hm \<Rightarrow> concat (buckets hm))"

definition compare_keys :: "string \<Rightarrow> string \<Rightarrow> int" where
  "compare_keys ka kb = strcmp ka kb"

text \<open>\<open>qsort\<close> of the C library: a sorted permutation, here by insertion.\<close>

fun qsort_insert :: "('a \<Rightarrow> 'a \<Rightarrow> int) \<Rightarrow> 'a \<Rightarrow> 'a list \<Rightarrow> 'a list" where
  "qsort_insert cmp x [] = [x]"
| "qsort_insert cmp x (y # ys) = (if cmp x y \<le> 0 then x # y # ys else y # qsort_insert cmp x ys)"

definition qsort :: "('a \<Rightarrow> 'a \<Rightarrow> int) \<Rightarrow> 'a list \<Rightarrow> 'a list" where
  "qsort cmp xs = foldr (qsort_insert cmp) xs []"

definition hashmap_foreach_sorted :: "(nat \<Rightarrow> bool) \<Rightarrow> 'v hashmap option \<Rightarrow> 'v hashmap_entry list" where
  "hashmap_foreach_sorted malloc m =
     (case m of None \<Rightarrow> []
      | Some hm \<Rightarrow>
          if hm_count hm = 0 then []
          else if \<not> malloc (unat (hm_count hm) * 8) then hashmap_foreach m
          else map (\<lambda>k. (k, hashmap_get m (Some k)))
                 (qsort compare_keys (map fst (concat (buckets hm)))))"

subsection \<open>Well-formed maps\<close>

definition norm_key :: "string \<Rightarrow> string" where
  "norm_key key = cstr (take HASHMAP_MAX_KEY_LEN key)"

definition slot :: "'v hashmap \<Rightarrow> string \<Rightarrow> nat" where
  "slot m key = bucket_index (capacity m) (hash_string (hash_type m) key HASHMAP_MAX_KEY_LEN)"

definition hm_entries :: "'v hashmap \<Rightarrow> 'v hashmap_entry list" where
  "hm_entries m = concat (buckets m)"

definition hm_wf :: "'v hashmap \<Rightarrow> bool" where
  "hm_wf m \<longleftrightarrow> length (buckets m) = unat (capacity m) \<and>
     (\<exists>k\<le>31. unat (capacity m) = 2 ^ k) \<and>
     (\<forall>i<length (buckets m). \<forall>e\<in>set (buckets m ! i). slot m (fst e) = i \<and> norm_key (fst e) = fst e) \<and>
     distinct (map fst (hm_entries m)) \<and> hm_count m = of_nat (length (hm_entries m))"

definition hm_map :: "'v hashmap \<Rightarrow> string \<rightharpoonup> 'v option" where
  "hm_map m = map_of (hm_entries m)"

lemma hash_fnv1a_loop_norm: "hash_fnv1a_loop (cstr (take n s)) n h = hash_fnv1a_loop s n h"
proof (induction s n h rule: hash_fnv1a_loop.induct)
  case (2 c s n h)
  then show ?case by (cases n) simp_all
qed simp

lemma hash_jenkins_loop_norm: "hash_jenkins_loop (cstr (take n s)) n h = hash_jenkins_loop s n h"
proof (induction s n h rule: hash_jenkins_loop.induct)
  case (2 c s n h)
  then show ?case by (cases n) simp_all
qed simp

lemma slot_norm: "slot m (norm_key k) = slot m k"
  by (simp add: slot_def norm_key_def hash_string_def hash_fnv1a_def hash_jenkins_def
      hash_fnv1a_loop_norm hash_jenkins_loop_norm split: hashmap_hash_type.splits)

lemma bucket_index_less: "0 < unat cap \<Longrightarrow> bucket_index cap h < unat cap"
proof -
  assume "0 < unat cap"
  then have "cap - 1 < cap" by (simp add: word_less_nat_alt unat_minus_one unat_gt_0)
  moreover have "h AND (cap - 1) \<le> cap - 1" by (rule word_and_le1)
  ultimately have "h AND (cap - 1) < cap" by (rule order_le_less_trans [rotated])
  then show ?thesis by (simp add: bucket_index_def word_less_nat_alt)
qed

lemma strncmp_key: "strncmp a b HASHMAP_MAX_KEY_LEN = 0 \<longleftrightarrow> norm_key a = norm_key b"
  by (simp add: strncmp_zero norm_key_def)

lemma norm_key_idem [simp]: "norm_key (norm_key k) = norm_key k"
proof -
  have "take HASHMAP_MAX_KEY_LEN (norm_key k) = norm_key k"
    using length_cstr_le [of "take HASHMAP_MAX_KEY_LEN k"] by (simp add: norm_key_def)
  then show ?thesis by (simp add: norm_key_def [of "norm_key k"]) (simp add: norm_key_def)
qed

lemma strndup_key: "Webserver_strndup malloc (Some key) HASHMAP_MAX_KEY_LEN = Some c \<Longrightarrow> c = norm_key key"
  by (auto simp: Webserver_strndup_def Let_def strndup_len_eq take_strlen_take norm_key_def split: if_splits)

lemma nth_upd_all:
  assumes "\<forall>i<length xs. \<forall>e\<in>set (xs ! i). P i e" "\<forall>e\<in>set b. P k e"
  shows "\<forall>i<length xs. \<forall>e\<in>set (xs[k := b] ! i). P i e"
proof (intro allI impI ballI)
  fix i e assume "i < length xs" "e \<in> set (xs[k := b] ! i)"
  then show "P i e" using assms by (cases "i = k") simp_all
qed

lemma concat_other_nth:
  assumes "e \<in> set (concat (take i xs) @ concat (drop (Suc i) xs))"
  shows "\<exists>j<length xs. j \<noteq> i \<and> e \<in> set (xs ! j)"
proof -
  from assms obtain b where b: "e \<in> set b" "b \<in> set (take i xs) \<or> b \<in> set (drop (Suc i) xs)" by auto
  from b(2) show ?thesis
  proof
    assume "b \<in> set (take i xs)"
    then obtain j where "j < length (take i xs)" "take i xs ! j = b" by (meson in_set_conv_nth)
    then show ?thesis using b(1) by (intro exI [of _ j]) auto
  next
    assume "b \<in> set (drop (Suc i) xs)"
    then obtain j where "j < length (drop (Suc i) xs)" "drop (Suc i) xs ! j = b" by (meson in_set_conv_nth)
    then show ?thesis using b(1) by (intro exI [of _ "Suc i + j"]) auto
  qed
qed

text \<open>The bucket of a key and the rest of the map.\<close>

lemma hm_split:
  fixes key :: string
  assumes "hm_wf m"
  defines "i \<equiv> slot m key"
  shows "i < length (buckets m)"
    "concat ((buckets m)[i := b]) = concat (take i (buckets m)) @ b @ concat (drop (Suc i) (buckets m))"
    "hm_entries m = concat (take i (buckets m)) @ buckets m ! i @ concat (drop (Suc i) (buckets m))"
    "\<forall>e\<in>set (concat (take i (buckets m)) @ concat (drop (Suc i) (buckets m))). fst e \<noteq> norm_key key"
proof -
  obtain k where "unat (capacity m) = 2 ^ k" and len: "length (buckets m) = unat (capacity m)"
    using assms by (auto simp: hm_wf_def)
  then show i: "i < length (buckets m)"
    using bucket_index_less [of "capacity m"] by (simp add: i_def slot_def)
  then show "concat ((buckets m)[i := b]) = concat (take i (buckets m)) @ b @ concat (drop (Suc i) (buckets m))"
    by (simp add: upd_conv_take_nth_drop)
  show "hm_entries m = concat (take i (buckets m)) @ buckets m ! i @ concat (drop (Suc i) (buckets m))"
    unfolding hm_entries_def by (subst id_take_nth_drop [OF i]) simp
  show "\<forall>e\<in>set (concat (take i (buckets m)) @ concat (drop (Suc i) (buckets m))). fst e \<noteq> norm_key key"
  proof
    fix e assume "e \<in> set (concat (take i (buckets m)) @ concat (drop (Suc i) (buckets m)))"
    from concat_other_nth [OF this]
    obtain j where j: "j < length (buckets m)" "j \<noteq> i" "e \<in> set (buckets m ! j)" by (elim exE conjE)
    then have "slot m (fst e) = j" using assms(1) by (simp add: hm_wf_def)
    then show "fst e \<noteq> norm_key key" using j(2) slot_norm [of m key] by (auto simp: i_def)
  qed
qed

lemma hm_other:
  assumes "hm_wf m"
  shows "norm_key key \<notin> fst ` set (concat (take (slot m key) (buckets m)))"
    "norm_key key \<notin> fst ` set (concat (drop (Suc (slot m key)) (buckets m)))"
proof -
  note c = hm_split(4) [OF assms, of key, unfolded set_append ball_Un]
  show "norm_key key \<notin> fst ` set (concat (take (slot m key) (buckets m)))"
    using c [THEN conjunct1] by (metis imageE)
  show "norm_key key \<notin> fst ` set (concat (drop (Suc (slot m key)) (buckets m)))"
    using c [THEN conjunct2] by (metis imageE)
qed

lemma bucket_slot:
  assumes "hm_wf m" "k \<in> fst ` set (buckets m ! slot m key)"
  shows "slot m k = slot m key \<and> norm_key k = k"
proof -
  from assms(2) obtain e where "e \<in> set (buckets m ! slot m key)" "k = fst e" by blast
  then show ?thesis using assms(1) hm_split(1) [OF assms(1), of key] by (simp add: hm_wf_def)
qed

lemma bucket_norm: "hm_wf m \<Longrightarrow> \<forall>e\<in>set (buckets m ! slot m key). norm_key (fst e) = fst e"
  using hm_split(1) [of m key] by (simp add: hm_wf_def)

lemma map_of_skip: "\<forall>e\<in>set xs. fst e \<noteq> k \<Longrightarrow> map_of xs k = None"
  by (simp add: map_of_eq_None_iff) blast

lemma chain_get_eq:
  "\<forall>e\<in>set es. norm_key (fst e) = fst e \<Longrightarrow> chain_get es key = Option.bind (map_of es (norm_key key)) id"
  by (induction es) (auto simp: strncmp_key)

lemma hm_map_slot: "hm_wf m \<Longrightarrow> hm_map m (norm_key key) = map_of (buckets m ! slot m key) (norm_key key)"
  using hm_split(4) [of m key]
  by (simp add: hm_map_def hm_split(3) [of m key] map_add_def map_of_skip ball_Un split: option.splits)

lemma get_eq: "hm_wf m \<Longrightarrow> hashmap_get (Some m) (Some key) = Option.bind (hm_map m (norm_key key)) id"
  using chain_get_eq [OF bucket_norm [of m key]]
  by (simp add: hashmap_get_def Let_def hm_map_slot slot_def [symmetric])

subsection \<open>Updates of a bucket\<close>

lemma set_concat_upd:
  "hm_wf m \<Longrightarrow> (\<forall>e\<in>set b. slot m (fst e) = slot m key \<and> norm_key (fst e) = fst e) \<Longrightarrow>
    \<forall>i<length (buckets m). \<forall>e\<in>set ((buckets m)[slot m key := b] ! i). slot m (fst e) = i \<and> norm_key (fst e) = fst e"
  unfolding hm_wf_def by (elim conjE, rule nth_upd_all) simp_all

text \<open>Replacing the bucket of a key by a chain over the same slot keeps the map well-formed,
  if the keys stay distinct and the count is adjusted.\<close>

lemma hm_wf_upd:
  assumes "hm_wf m" "\<forall>e\<in>set b. slot m (fst e) = slot m key \<and> norm_key (fst e) = fst e"
    "distinct (map fst (concat ((buckets m)[slot m key := b])))"
    "n = of_nat (length (concat ((buckets m)[slot m key := b])))"
  shows "hm_wf (m\<lparr>buckets := (buckets m)[slot m key := b], hm_count := n\<rparr>)"
proof -
  let ?m = "m\<lparr>buckets := (buckets m)[slot m key := b], hm_count := n\<rparr>"
  have "slot ?m = slot m" by (simp add: slot_def fun_eq_iff)
  with assms set_concat_upd [OF assms(1,2)] show ?thesis
    unfolding hm_wf_def hm_entries_def by simp
qed

lemma chain_update_None:
  "\<forall>e\<in>set es. norm_key (fst e) = fst e \<Longrightarrow> chain_update es key v = None \<longleftrightarrow> norm_key key \<notin> fst ` set es"
  by (induction es) (auto simp: strncmp_key)

lemma chain_update_Some:
  "\<forall>e\<in>set es. norm_key (fst e) = fst e \<Longrightarrow> chain_update es key v = Some es' \<Longrightarrow>
    map fst es' = map fst es \<and> map_of es' = (map_of es)(norm_key key \<mapsto> v)"
  by (induction es arbitrary: es') (auto simp: strncmp_key split: if_splits)

lemma chain_remove_None:
  "\<forall>e\<in>set es. norm_key (fst e) = fst e \<Longrightarrow> chain_remove es key = None \<longleftrightarrow> norm_key key \<notin> fst ` set es"
  by (induction es) (auto simp: strncmp_key)

lemma chain_remove_Some:
  "\<forall>e\<in>set es. norm_key (fst e) = fst e \<Longrightarrow> chain_remove es key = Some (es', v) \<Longrightarrow>
    \<exists>us vs. es = us @ (norm_key key, v) # vs \<and> es' = us @ vs"
proof (induction es arbitrary: es')
  case (Cons e es)
  show ?case
  proof (cases "norm_key key = fst e")
    case True
    then have "e # es = [] @ (norm_key key, v) # es'" using Cons.prems by (cases e) (auto simp: strncmp_key)
    then show ?thesis by fastforce
  next
    case False
    then obtain es'' where "chain_remove es key = Some (es'', v)" "es' = e # es''"
      using Cons.prems by (auto simp: strncmp_key)
    with Cons obtain us vs where "es = us @ (norm_key key, v) # vs" "es'' = us @ vs" by auto
    then have "e # es = (e # us) @ (norm_key key, v) # vs" "es' = (e # us) @ vs" using \<open>es' = e # es''\<close> by simp_all
    then show ?thesis by blast
  qed
qed simp

subsection \<open>The rehash\<close>

lemma mset_concat_upd:
  assumes "i < length nb"
  shows "mset (concat (nb[i := e # nb ! i])) = add_mset e (mset (concat nb))"
proof -
  have "mset (concat nb) = mset (concat (take i nb @ nb ! i # drop (Suc i) nb))"
    by (subst id_take_nth_drop [OF assms]) simp
  then show ?thesis using assms by (simp add: upd_conv_take_nth_drop)
qed

lemma rehash_fold:
  assumes "0 < unat cap" "length nb = unat cap"
    "\<forall>i<length nb. \<forall>e\<in>set (nb ! i). bucket_index cap (hash_string t (fst e) HASHMAP_MAX_KEY_LEN) = i"
  shows "mset (concat (fold (rehash_entry t cap) es nb)) = mset (concat nb) + mset es \<and>
     length (fold (rehash_entry t cap) es nb) = unat cap \<and>
     (\<forall>i<unat cap. \<forall>e\<in>set (fold (rehash_entry t cap) es nb ! i).
        bucket_index cap (hash_string t (fst e) HASHMAP_MAX_KEY_LEN) = i)"
  using assms(2,3)
proof (induction es arbitrary: nb)
  case (Cons e es)
  let ?i = "bucket_index cap (hash_string t (fst e) HASHMAP_MAX_KEY_LEN)"
  have i: "?i < length nb" using bucket_index_less [OF assms(1)] Cons.prems(1) by simp
  define N where "N = nb[?i := e # nb ! ?i]"
  have fold_N: "fold (rehash_entry t cap) (e # es) nb = fold (rehash_entry t cap) es N"
    by (simp add: rehash_entry_def Let_def N_def)
  have N: "length N = unat cap" using Cons.prems(1) by (simp add: N_def)
  have "\<forall>j<length N. \<forall>e'\<in>set (N ! j). bucket_index cap (hash_string t (fst e') HASHMAP_MAX_KEY_LEN) = j"
    unfolding N_def length_list_update
    by (rule nth_upd_all) (use Cons.prems(2) i in auto)
  note IH = Cons.IH [OF N this]
  have "mset (concat N) = add_mset e (mset (concat nb))"
    unfolding N_def by (rule mset_concat_upd [OF i])
  with IH show ?case unfolding fold_N by simp
qed simp

lemma hm_norm:
  assumes "hm_wf m" "e \<in> set (hm_entries m)"
  shows "norm_key (fst e) = fst e"
proof -
  from assms(2) obtain b where "b \<in> set (buckets m)" "e \<in> set b" by (auto simp: hm_entries_def)
  then obtain i where "i < length (buckets m)" "e \<in> set (buckets m ! i)" by (metis in_set_conv_nth)
  then show ?thesis using assms(1) by (simp add: hm_wf_def)
qed

lemma resize_wf:
  assumes "hm_wf m" "hashmap_resize_if_needed malloc m = (m', r)"
  shows "hm_wf m' \<and> mset (hm_entries m') = mset (hm_entries m) \<and> hash_type m' = hash_type m"
proof (cases "m' = m")
  case False
  define nc where "nc = capacity m * 2"
  from False assms(2) have nc: "\<not> nc < capacity m" and
    m': "m' = m\<lparr>buckets := fold (rehash_entry (hash_type m) nc) (concat (buckets m)) (replicate (unat nc) []),
                 capacity := nc\<rparr>"
    by (auto simp: hashmap_resize_if_needed_def Let_def nc_def split: if_splits)
  obtain k where k: "k \<le> 31" "unat (capacity m) = 2 ^ k" using assms(1) by (auto simp: hm_wf_def)
  have "unat nc = 2 ^ Suc k mod 2 ^ 32" by (simp add: nc_def unat_word_ariths k mult.commute)
  moreover have "k \<noteq> 31"
    using nc k calculation by (auto simp: word_less_nat_alt)
  ultimately have cap: "Suc k \<le> 31" "unat nc = 2 ^ Suc k"
    using k(1) power_strict_increasing [of "Suc k" 32 "2 :: nat"] by (auto simp: mod_less)
  then have pos: "0 < unat nc" by simp
  let ?nb = "fold (rehash_entry (hash_type m) nc) (concat (buckets m)) (replicate (unat nc) [])"
  have f: "mset (concat ?nb) = mset (concat (buckets m))" "length ?nb = unat nc"
    "\<forall>i<unat nc. \<forall>e\<in>set (?nb ! i). bucket_index nc (hash_string (hash_type m) (fst e) HASHMAP_MAX_KEY_LEN) = i"
    using rehash_fold [OF pos, of "replicate (unat nc) []" "hash_type m" "concat (buckets m)"] by simp_all
  have "norm_key (fst e) = fst e" if "i < unat nc" "e \<in> set (?nb ! i)" for i e
  proof -
    have "?nb ! i \<in> set ?nb" using that f(2) by simp
    then have "e \<in> set (concat ?nb)" using that(2) by auto
    then have "e \<in> set (concat (buckets m))" using f(1) by (metis set_mset_mset)
    then show ?thesis using hm_norm [OF assms(1)] by (simp add: hm_entries_def)
  qed
  moreover have "distinct (map fst (concat ?nb))"
    using assms(1) f(1) mset_eq_imp_distinct_iff [of "map fst (concat ?nb)" "map fst (concat (buckets m))"]
    by (simp add: hm_wf_def hm_entries_def)
  moreover have "length (concat ?nb) = length (concat (buckets m))" using f(1) by (rule mset_eq_length)
  ultimately show ?thesis
    using f cap assms(1) unfolding m' hm_wf_def hm_entries_def slot_def by (auto intro!: exI [of _ "Suc k"])
qed (use assms in simp)

lemma hm_map_mset: "hm_wf m \<Longrightarrow> hm_wf m' \<Longrightarrow> mset (hm_entries m') = mset (hm_entries m) \<Longrightarrow> hm_map m' = hm_map m"
  unfolding hm_map_def hm_wf_def by (subst map_of_inject_set) (auto dest: mset_eq_setD)

subsection \<open>Put and remove on the abstract map\<close>

lemma upd_map:
  assumes "hm_wf m" "map_of b = (map_of (buckets m ! slot m key))(norm_key key \<mapsto> v)"
  shows "map_of (concat ((buckets m)[slot m key := b])) = (hm_map m)(norm_key key \<mapsto> v)"
proof -
  let ?A = "concat (take (slot m key) (buckets m))"
  have "norm_key key \<notin> dom (map_of ?A)"
    using hm_other(1) [OF assms(1)] by (simp only: dom_map_of_conv_image_fst not_False_eq_True)
  then show ?thesis
    using assms(2)
    by (simp add: hm_split(2) [OF assms(1)] hm_map_def hm_split(3) [OF assms(1), of key] map_add_upd_left)
qed

lemma put_update:
  assumes wf: "hm_wf m" and es: "chain_update (buckets m ! slot m key) key v = Some es"
  shows "hm_wf (m\<lparr>buckets := (buckets m)[slot m key := es]\<rparr>)"
    "hm_map (m\<lparr>buckets := (buckets m)[slot m key := es]\<rparr>) = (hm_map m)(norm_key key \<mapsto> v)"
proof -
  let ?b = "buckets m ! slot m key"
  note c = chain_update_Some [OF bucket_norm [OF wf, of key] es]
  have k: "slot m (fst e) = slot m key \<and> norm_key (fst e) = fst e" if "e \<in> set es" for e
  proof -
    have "fst e \<in> fst ` set ?b" using c that by (metis list.set_map image_eqI)
    then show ?thesis by (rule bucket_slot [OF wf])
  qed
  have l: "map fst (concat ((buckets m)[slot m key := es])) = map fst (hm_entries m)"
    using c by (simp add: hm_split(2,3) [OF wf, of key])
  then have "length (concat ((buckets m)[slot m key := es])) = length (hm_entries m)"
    by (metis length_map)
  then have "distinct (map fst (concat ((buckets m)[slot m key := es])))"
    "hm_count m = of_nat (length (concat ((buckets m)[slot m key := es])))"
    using wf unfolding hm_wf_def l by (simp_all only: simp_thms)
  then have "hm_wf (m\<lparr>buckets := (buckets m)[slot m key := es], hm_count := hm_count m\<rparr>)"
    using hm_wf_upd [OF wf] k by blast
  then show "hm_wf (m\<lparr>buckets := (buckets m)[slot m key := es]\<rparr>)" by simp
  show "hm_map (m\<lparr>buckets := (buckets m)[slot m key := es]\<rparr>) = (hm_map m)(norm_key key \<mapsto> v)"
    using upd_map [OF wf] c by (simp add: hm_map_def hm_entries_def)
qed

lemma distinct_insert_mid: "distinct (xs @ x # ys) \<longleftrightarrow> x \<notin> set (xs @ ys) \<and> distinct (xs @ ys)"
  by auto

lemma put_insert:
  fixes key v m
  assumes wf: "hm_wf m" and new: "chain_update (buckets m ! slot m key) key v = None"
  defines "m' \<equiv> m\<lparr>buckets := (buckets m)[slot m key := (norm_key key, v) # buckets m ! slot m key],
                   hm_count := hm_count m + 1\<rparr>"
  shows "hm_wf m'" "hm_map m' = (hm_map m)(norm_key key \<mapsto> v)"
proof -
  let ?b = "buckets m ! slot m key"
  have nb: "norm_key key \<notin> fst ` set ?b"
    using chain_update_None [OF bucket_norm [OF wf]] new by blast
  have k: "\<forall>e\<in>set ((norm_key key, v) # ?b). slot m (fst e) = slot m key \<and> norm_key (fst e) = fst e"
  proof
    fix e assume "e \<in> set ((norm_key key, v) # ?b)"
    then have "e = (norm_key key, v) \<or> fst e \<in> fst ` set ?b" by auto
    then show "slot m (fst e) = slot m key \<and> norm_key (fst e) = fst e"
      using bucket_slot [OF wf, of "fst e" key] by (elim disjE) (simp add: slot_norm, blast)
  qed
  have "norm_key key \<notin> fst ` set (hm_entries m)"
    using nb hm_other [OF wf] by (simp only: hm_split(3) [OF wf, of key] set_append image_Un Un_iff) simp
  then have "distinct (map fst (concat ((buckets m)[slot m key := (norm_key key, v) # ?b])))"
    using wf distinct_insert_mid [of "map fst (concat (take (slot m key) (buckets m)))" "norm_key key"
        "map fst ?b @ map fst (concat (drop (Suc (slot m key)) (buckets m)))"]
    by (simp only: hm_split(2,3) [OF wf, of key] hm_wf_def map_append list.map fst_conv append_Cons
        set_append list.set_map image_Un simp_thms)
  moreover have "hm_count m + 1 = of_nat (length (concat ((buckets m)[slot m key := (norm_key key, v) # ?b])))"
  proof -
    have "length (concat ((buckets m)[slot m key := (norm_key key, v) # ?b])) = Suc (length (hm_entries m))"
      by (simp only: hm_split(2,3) [OF wf, of key] length_append list.size add_Suc_right add_Suc)
    then show ?thesis using wf by (simp add: hm_wf_def)
  qed
  ultimately show "hm_wf m'" unfolding m'_def using k by (intro hm_wf_upd [OF wf])
  show "hm_map m' = (hm_map m)(norm_key key \<mapsto> v)"
    using upd_map [OF wf, of "(norm_key key, v) # ?b"] by (simp add: m'_def hm_map_def hm_entries_def)
qed

lemma put_spec:
  assumes wf: "hm_wf m" and p: "hashmap_put malloc (Some m) (Some key) v = (m', r)"
  shows "(\<exists>h. m' = Some h \<and> r = 0 \<and> hm_wf h \<and> hm_map h = (hm_map m)(norm_key key \<mapsto> v)) \<or>
    (m' = Some m \<and> r = - 1 \<and> norm_key key \<notin> dom (hm_map m) \<and> \<not> (\<forall>n. malloc n))"
proof (cases "chain_update (buckets m ! slot m key) key v")
  case (Some es)
  then show ?thesis
    using p put_update [OF wf Some] by (simp add: hashmap_put_def Let_def slot_def [symmetric]) auto
next
  case None
  have nd: "norm_key key \<notin> dom (hm_map m)"
    using None chain_update_None [OF bucket_norm [OF wf, of key]] hm_map_slot [OF wf, of key]
    by (simp add: domIff map_of_eq_None_iff)
  show ?thesis
  proof (cases "Webserver_strndup malloc (Some key) HASHMAP_MAX_KEY_LEN = None \<or> \<not> malloc 24")
    case True
    have "r = - 1 \<and> m' = Some m"
      using True p None
      by (auto simp: hashmap_put_def Let_def slot_def [symmetric] split: option.splits if_splits)
    moreover have "\<not> (\<forall>n. malloc n)"
    proof
      assume m: "\<forall>n. malloc n"
      have "strndup_len key 4096 0 \<le> 4096"
        using length_cstr_le [of "take 4096 key"] by (simp add: strndup_len_eq)
      with True m show False by (auto simp: Webserver_strndup_def Let_def HASHMAP_MAX_KEY_LEN_def)
    qed
    ultimately show ?thesis using nd by blast
  next
    case False
    then obtain kc where kc: "Webserver_strndup malloc (Some key) HASHMAP_MAX_KEY_LEN = Some kc" by auto
    let ?m = "m\<lparr>buckets := (buckets m)[slot m key := (norm_key key, v) # buckets m ! slot m key],
                   hm_count := hm_count m + 1\<rparr>"
    have eq: "m' = Some (fst (hashmap_resize_if_needed malloc ?m))" "r = 0"
      using p None False kc strndup_key [OF kc] by (simp_all add: hashmap_put_def Let_def slot_def [symmetric])
    note i = put_insert [OF wf None]
    obtain h q where h: "hashmap_resize_if_needed malloc ?m = (h, q)" by fastforce
    from resize_wf [OF i(1) h] have "hm_wf h" "hm_map h = hm_map ?m"
      using hm_map_mset [OF i(1)] by blast+
    then show ?thesis using eq h i(2) by simp
  qed
qed

lemma map_of_remove:
  "distinct (map fst (us @ (k, v) # vs)) \<Longrightarrow> map_of (us @ vs) = (map_of (us @ (k, v) # vs))(k := None)"
  by (induction us) (auto simp: fun_eq_iff map_of_eq_None_iff)

lemma remove_spec:
  assumes wf: "hm_wf m" and p: "hashmap_remove (Some m) (Some key) = (m', r)"
  shows "\<exists>h. m' = Some h \<and> hm_wf h \<and> hm_map h = (hm_map m)(norm_key key := None) \<and>
    r = Option.bind (hm_map m (norm_key key)) id"
proof (cases "chain_remove (buckets m ! slot m key) key")
  case None
  then have "hm_map m (norm_key key) = None"
    using chain_remove_None [OF bucket_norm [OF wf, of key]] hm_map_slot [OF wf, of key]
    by (simp add: map_of_eq_None_iff)
  moreover have "(hm_map m)(norm_key key := None) = hm_map m" using calculation by auto
  ultimately show ?thesis
    using None p wf by (auto simp: hashmap_remove_def Let_def slot_def [symmetric])
next
  case (Some x)
  obtain es w where x: "x = (es, w)" by (cases x)
  obtain us vs where b: "buckets m ! slot m key = us @ (norm_key key, w) # vs" "es = us @ vs"
    using chain_remove_Some [OF bucket_norm [OF wf, of key]] Some x by blast
  let ?m = "m\<lparr>buckets := (buckets m)[slot m key := es], hm_count := hm_count m - 1\<rparr>"
  let ?A = "concat (take (slot m key) (buckets m))" and ?C = "concat (drop (Suc (slot m key)) (buckets m))"
  have e: "hm_entries m = (?A @ us) @ (norm_key key, w) # (vs @ ?C)"
    "concat ((buckets m)[slot m key := es]) = (?A @ us) @ (vs @ ?C)"
    using hm_split(2,3) [OF wf, of key] b by simp_all
  have d: "distinct (map fst (hm_entries m))" using wf by (simp add: hm_wf_def)
  have "\<forall>f\<in>set es. slot m (fst f) = slot m key \<and> norm_key (fst f) = fst f"
  proof
    fix f assume "f \<in> set es"
    then have "fst f \<in> fst ` set (buckets m ! slot m key)" unfolding b by auto
    then show "slot m (fst f) = slot m key \<and> norm_key (fst f) = fst f" by (rule bucket_slot [OF wf])
  qed
  then have "hm_wf ?m"
    using d wf by (intro hm_wf_upd [OF wf]) (simp_all add: e hm_wf_def)
  moreover have "hm_map ?m = (hm_map m)(norm_key key := None)"
    using map_of_remove [of "?A @ us" "norm_key key" w "vs @ ?C"] d
    by (simp add: hm_map_def hm_entries_def [of ?m] e)
  moreover have "hm_map m (norm_key key) = Some w"
    using d by (simp add: hm_map_def e del: append_assoc map_of_append)
  moreover have "m' = Some ?m" "r = w"
    using p Some x by (simp_all add: hashmap_remove_def Let_def slot_def [symmetric])
  ultimately show ?thesis by simp
qed

lemma create_wf:
  assumes "hashmap_create_ex malloc t = Some m"
  shows "hm_wf m \<and> hm_map m = Map.empty"
proof -
  have m: "m = \<lparr>buckets = replicate 16 [], capacity = 16, hm_count = 0, hash_type = t\<rparr>"
    using assms by (auto simp: hashmap_create_ex_def split: if_splits)
  have "(16 :: nat) = 2 ^ 4" by simp
  then have "\<exists>k\<le>31. (16 :: nat) = 2 ^ k" by (intro exI [of _ 4]) simp
  then show ?thesis unfolding m hm_wf_def hm_map_def hm_entries_def by simp
qed

definition hm_new :: "hashmap_hash_type \<Rightarrow> 'v hashmap" where
  "hm_new t = \<lparr>buckets = replicate 16 [], capacity = 16, hm_count = 0, hash_type = t\<rparr>"

lemma hm_new_create: "hashmap_create_ex (\<lambda>n. True) t = Some (hm_new t)"
  by (simp add: hashmap_create_ex_def hm_new_def)

lemma hm_new_wf: "hm_wf (hm_new t)"
  using create_wf [OF hm_new_create] by (rule conjunct1)

lemma hm_new_empty: "hm_map (hm_new t) = Map.empty"
  using create_wf [OF hm_new_create] by (rule conjunct2)

lemmas hm_new = hm_new_create hm_new_wf hm_new_empty

lemma count_card: "hm_wf m \<Longrightarrow> hashmap_count (Some m) = card (dom (hm_map m)) mod 2 ^ 32"
proof -
  assume wf: "hm_wf m"
  then have "length (hm_entries m) = card (fst ` set (hm_entries m))"
    unfolding hm_wf_def by (metis distinct_card length_map list.set_map)
  moreover have "hashmap_count (Some m) = length (hm_entries m) mod 2 ^ 32"
    using wf by (simp add: hashmap_count_def hm_wf_def unat_of_nat)
  ultimately show ?thesis by (simp add: hm_map_def dom_map_of_conv_image_fst)
qed

subsection \<open>The contract clients rely on\<close>

text \<open>A store of values under string keys, where keys count up to a normal form and both
  updates and lookups are total.\<close>

locale string_map =
  fixes inv :: "'m \<Rightarrow> bool"
    and norm :: "string \<Rightarrow> string"
    and lookup :: "'m \<Rightarrow> string \<Rightarrow> 'v option"
    and update :: "'m \<Rightarrow> string \<Rightarrow> 'v option \<Rightarrow> 'm"
    and delete :: "'m \<Rightarrow> string \<Rightarrow> 'm"
  assumes inv_update: "inv m \<Longrightarrow> inv (update m k v)"
    and inv_delete: "inv m \<Longrightarrow> inv (delete m k)"
    and lookup_update: "inv m \<Longrightarrow> lookup (update m k v) j = (if norm j = norm k then v else lookup m j)"
    and lookup_delete: "inv m \<Longrightarrow> lookup (delete m k) j = (if norm j = norm k then None else lookup m j)"
begin

lemma inv_updates: "inv m \<Longrightarrow> inv (foldl (\<lambda>m (k, v). update m k v) m kvs)"
  by (induction kvs arbitrary: m) (auto simp: inv_update split: prod.splits)

lemma lookup_updates:
  "inv m \<Longrightarrow> lookup (foldl (\<lambda>m (k, v). update m k v) m kvs) j =
     (case map_of (rev (map (\<lambda>(k, v). (norm k, v)) kvs)) (norm j) of None \<Rightarrow> lookup m j | Some v \<Rightarrow> v)"
proof (induction kvs rule: rev_induct)
  case (snoc kv kvs)
  obtain k v where "kv = (k, v)" by (cases kv)
  with snoc show ?case by (simp add: lookup_update inv_updates)
qed simp

lemma delete_update: "inv m \<Longrightarrow> lookup (delete (update m k v) k) j = lookup (delete m k) j"
  by (simp add: lookup_update lookup_delete inv_update)

end

definition hm_store :: "'v hashmap \<Rightarrow> string \<Rightarrow> 'v option \<Rightarrow> 'v hashmap" where
  "hm_store m k v = the (fst (hashmap_put (\<lambda>n. True) (Some m) (Some k) v))"

definition hm_erase :: "'v hashmap \<Rightarrow> string \<Rightarrow> 'v hashmap" where
  "hm_erase m k = the (fst (hashmap_remove (Some m) (Some k)))"

definition hm_lookup :: "'v hashmap \<Rightarrow> string \<Rightarrow> 'v option" where
  "hm_lookup m k = hashmap_get (Some m) (Some k)"

lemma hm_store_spec: "hm_wf m \<Longrightarrow> hm_wf (hm_store m k v) \<and> hm_map (hm_store m k v) = (hm_map m)(norm_key k \<mapsto> v)"
  using put_spec [of m "\<lambda>n. True" k v "fst (hashmap_put (\<lambda>n. True) (Some m) (Some k) v)"
      "snd (hashmap_put (\<lambda>n. True) (Some m) (Some k) v)"]
  by (auto simp: hm_store_def)

lemma hm_erase_spec: "hm_wf m \<Longrightarrow> hm_wf (hm_erase m k) \<and> hm_map (hm_erase m k) = (hm_map m)(norm_key k := None)"
  using remove_spec [of m k "fst (hashmap_remove (Some m) (Some k))" "snd (hashmap_remove (Some m) (Some k))"]
  by (auto simp: hm_erase_def)

interpretation hm: string_map hm_wf norm_key hm_lookup hm_store hm_erase
  by standard (simp_all add: hm_store_spec hm_erase_spec hm_lookup_def get_eq)

subsection \<open>Sorted iteration\<close>

lemma mset_qsort_insert: "mset (qsort_insert cmp x ys) = add_mset x (mset ys)"
  by (induction ys) auto

lemma mset_qsort: "mset (qsort cmp xs) = mset xs"
  by (induction xs) (simp_all add: qsort_def mset_qsort_insert)

lemma strcmp_antisym: "strcmp b a = - strcmp a b"
  by (induction a b rule: strcmp.induct) auto

lemma strcmp_trans: "strcmp a b \<le> 0 \<Longrightarrow> strcmp b c \<le> 0 \<Longrightarrow> strcmp a c \<le> 0"
proof (induction a b arbitrary: c rule: strcmp.induct)
  case (1 a as b bs)
  have ord: "code x = code y \<longleftrightarrow> x = y" for x y by simp
  show ?case
  proof (cases c)
    case Nil
    then show ?thesis using 1(2,3) by (cases "a = b") (auto simp: code_zero)
  next
    case (Cons d ds)
    show ?thesis
    proof (cases "a = b \<and> b = d")
      case True
      then show ?thesis using 1 Cons by (simp split: if_splits)
    next
      case False
      then have "code a \<le> code b" "code b \<le> code d" "a \<noteq> d"
        using 1(2,3) Cons ord [of a b] ord [of b d] by (cases "a = b"; cases "b = d"; force)+
      then show ?thesis using Cons by simp
    qed
  qed
next
  case (2 a as)
  then show ?case by (cases c) (auto simp: code_zero split: if_splits)
next
  case (3 b bs)
  then show ?case by (cases c) auto
next
  case 4
  then show ?case by simp
qed

lemma compare_keys_strcmp: "compare_keys = strcmp"
  by (simp add: fun_eq_iff compare_keys_def)

lemma sorted_qsort: "sorted_wrt (\<lambda>a b. compare_keys a b \<le> 0) (qsort compare_keys xs)"
  unfolding compare_keys_strcmp
proof (induction xs)
  case (Cons x xs)
  have "sorted_wrt (\<lambda>a b. strcmp a b \<le> 0) (qsort_insert strcmp x ys)"
    if "sorted_wrt (\<lambda>a b. strcmp a b \<le> 0) ys" for ys
    using that
  proof (induction ys)
    case (Cons y ys)
    have "set (qsort_insert strcmp x ys) = insert x (set ys)"
      using mset_qsort_insert [of strcmp x ys] by (metis set_mset_add_mset_insert set_mset_mset)
    then show ?case
      using Cons strcmp_trans [of x y] strcmp_antisym [of x y] by auto
  qed simp
  then show ?case using Cons by (simp add: qsort_def)
qed (simp add: qsort_def)

subsection \<open>Properties\<close>

text \<open>C16: a put on a well-formed map either stores the value and returns 0, leaving a
  well-formed map that is the old one with that key (cut to 4096 bytes) bound to the value,
  whatever the collisions and whether or not the bucket array was doubled; or it returns
  -1, only because an allocation failed and only for a key the map does not hold, and the
  map is unchanged.\<close>

theorem hashmap_put_refines:
  assumes "hm_wf m" "hashmap_put malloc (Some m) (Some key) v = (m', r)"
  shows "(\<exists>h. m' = Some h \<and> r = 0 \<and> hm_wf h \<and> hm_map h = (hm_map m)(norm_key key \<mapsto> v)) \<or>
    (m' = Some m \<and> r = - 1 \<and> norm_key key \<notin> dom (hm_map m) \<and> \<not> (\<forall>n. malloc n))"
  using assms by (rule put_spec)

theorem hashmap_put_refines_witness:
  "\<exists>h. hm_wf h \<and> hm_map h = [''a'' \<mapsto> Some (7 :: nat)] \<and>
     fst (hashmap_put (\<lambda>n. True) (hashmap_create (\<lambda>n. True)) (Some ''a'') (Some 7)) = Some h"
proof -
  obtain m' r where p: "hashmap_put (\<lambda>n. True) (Some (hm_new HASHMAP_HASH_FNV1A)) (Some ''a'') (Some (7 :: nat)) = (m', r)"
    by fastforce
  have nk: "norm_key ''a'' = ''a''" by (simp add: norm_key_def HASHMAP_MAX_KEY_LEN_def)
  from hashmap_put_refines [OF hm_new(2) p] p show ?thesis
    by (auto simp: hm_new hashmap_create_def nk)
qed

text \<open>C28: a remove on a well-formed map returns the value bound to the key (null if there is
  none) and leaves a well-formed map in which exactly that key is unbound.\<close>

theorem hashmap_remove_refines:
  assumes "hm_wf m" "hashmap_remove (Some m) (Some key) = (m', r)"
  shows "\<exists>h. m' = Some h \<and> hm_wf h \<and> hm_map h = (hm_map m)(norm_key key := None) \<and>
    r = hashmap_get (Some m) (Some key)"
  using remove_spec [OF assms] get_eq [OF assms(1), of key] by simp

theorem hashmap_remove_refines_witness:
  "\<exists>h. fst (hashmap_remove (hashmap_create (\<lambda>n. True)) (Some ''a'')) = Some h \<and> hm_wf h \<and>
     hm_map h = (Map.empty :: string \<rightharpoonup> nat option)"
proof -
  obtain m' and r :: "nat option" where
    p: "hashmap_remove (Some (hm_new HASHMAP_HASH_FNV1A)) (Some ''a'') = (m', r)" by fastforce
  from hashmap_remove_refines [OF hm_new(2) p] p show ?thesis
    by (auto simp: hm_new hashmap_create_def)
qed

text \<open>C29: after any sequence of puts (with allocations succeeding) on a well-formed map, a
  lookup returns the value of the last put with an equal key, and the old value if there was
  none; keys are equal when they agree on their first 4096 bytes.\<close>

theorem hashmap_last_put_wins:
  assumes "hm_wf m"
  shows "hashmap_get (Some (foldl (\<lambda>m (k, v). the (fst (hashmap_put (\<lambda>n. True) (Some m) (Some k) v))) m kvs)) (Some j) =
     (case map_of (rev (map (\<lambda>(k, v). (norm_key k, v)) kvs)) (norm_key j) of
        None \<Rightarrow> hashmap_get (Some m) (Some j) | Some v \<Rightarrow> v)"
  using hm.lookup_updates [OF assms, of kvs j] by (simp only: hm_store_def hm_lookup_def)

theorem hashmap_last_put_wins_witness:
  "hashmap_get (Some (foldl (\<lambda>m (k, v). the (fst (hashmap_put (\<lambda>n. True) (Some m) (Some k) v)))
       (hm_new HASHMAP_HASH_JENKINS) [(''k'', Some (1 :: nat)), (''l'', Some 2), (''k'', Some 3)])) (Some ''k'') = Some 3"
  using hashmap_last_put_wins [OF hm_new(2), of HASHMAP_HASH_JENKINS
      "[(''k'', Some (1 :: nat)), (''l'', Some 2), (''k'', Some 3)]" "''k''"]
  by (simp add: norm_key_def HASHMAP_MAX_KEY_LEN_def)



end
