(* ===== verification/LinkedList.thy ===== *)
theory LinkedList
  imports Prelude
begin

text \<open>
  The doubly linked list of \<open>lib/src/linked_list.c\<close> on an explicit heap of list entries.
  Pointers are natural numbers and 0 is the null pointer; a read or write through a pointer
  that is null or freed is \<open>None\<close>, and so is a traversal that does not end. The address
  that \<open>malloc\<close> returns is an argument of the append (0 when it fails). The freer function
  is observed through the list of its calls.

  The abstraction is the list of stored pointers: \<open>list_rep\<close> relates heap and header to the
  list of entries, and the lemmas show the operations to be the list operations on it.
\<close>

type_synonym addr = nat
type_synonym ptr = nat

record list_entry =
  e_next :: addr
  e_prev :: addr
  e_data :: ptr

type_synonym heap = "addr \<rightharpoonup> list_entry"

record list_t =
  element_count :: u32
  first_entry :: addr
  last_entry :: addr
  cur_iter :: addr
  seeker :: "(ptr \<Rightarrow> ptr \<Rightarrow> int) option"
  freer :: "ptr option"

definition ws_list_init :: "list_t \<Rightarrow> list_t" where
  "ws_list_init l = \<lparr>element_count = 0, first_entry = 0, last_entry = 0, cur_iter = 0,
     seeker = None, freer = None\<rparr>"

text \<open>Running the freer on one element, as a log of the calls.\<close>

definition run_freer :: "list_t \<Rightarrow> ptr \<Rightarrow> (ptr \<times> ptr) list" where
  "run_freer l d = (case freer l of None \<Rightarrow> [] | Some f \<Rightarrow> [(f, d)])"

definition hfree :: "addr \<Rightarrow> heap \<Rightarrow> heap" where
  "hfree a h = h(a := None)"

partial_function (option) ws_list_destroy_loop ::
  "heap \<Rightarrow> list_t \<Rightarrow> addr \<Rightarrow> (ptr \<times> ptr) list \<Rightarrow> (heap \<times> list_t \<times> addr \<times> (ptr \<times> ptr) list) option" where
  "ws_list_destroy_loop h l cur log =
     Option.bind (h cur) (\<lambda>e.
       if e_next e \<noteq> 0 then
         ws_list_destroy_loop (hfree cur h) (l\<lparr>element_count := element_count l - 1\<rparr>)
           (e_next e) (log @ run_freer l (e_data e))
       else Some (h, l, cur, log))"

definition ws_list_destroy :: "heap \<Rightarrow> list_t \<Rightarrow> (heap \<times> list_t \<times> (ptr \<times> ptr) list) option" where
  "ws_list_destroy h l =
     (if first_entry l = 0 then Some (h, l, [])
      else Option.bind (ws_list_destroy_loop h l (first_entry l) []) (\<lambda>(h, l, cur, log).
           Option.bind (h cur) (\<lambda>e.
             Some (hfree cur h, l\<lparr>element_count := element_count l - 1, first_entry := 0\<rparr>,
                   log @ run_freer l (e_data e)))))"

partial_function (option) ws_list_clear_loop ::
  "heap \<Rightarrow> list_t \<Rightarrow> addr \<Rightarrow> (heap \<times> list_t \<times> addr) option" where
  "ws_list_clear_loop h l cur =
     Option.bind (h cur) (\<lambda>e.
       if e_next e \<noteq> 0 then
         ws_list_clear_loop (hfree cur h) (l\<lparr>element_count := element_count l - 1\<rparr>) (e_next e)
       else Some (h, l, cur))"

definition ws_list_clear :: "heap \<Rightarrow> list_t \<Rightarrow> (heap \<times> list_t \<times> int) option" where
  "ws_list_clear h l =
     (if first_entry l = 0 then Some (h, l, 0)
      else Option.bind (ws_list_clear_loop h l (first_entry l)) (\<lambda>(h, l, cur).
           Option.bind (h cur) (\<lambda>e.
             Some (hfree cur h, l\<lparr>element_count := element_count l - 1, first_entry := 0\<rparr>, 1))))"

text \<open>The search of the delete: the entry that holds the pointer, or the last entry.\<close>

partial_function (option) ws_list_delete_find :: "heap \<Rightarrow> ptr \<Rightarrow> addr \<Rightarrow> (addr \<times> addr) option" where
  "ws_list_delete_find h d cur =
     Option.bind (h cur) (\<lambda>e.
       if e_next e \<noteq> 0 then
         (if e_data e = d then Some (cur, cur) else ws_list_delete_find h d (e_next e))
       else Some (0, cur))"

text \<open>The stores \<open>prev->next = next\<close> and \<open>next->prev = prev\<close>, guarded by the null tests.\<close>

definition set_next :: "addr \<Rightarrow> addr \<Rightarrow> heap \<Rightarrow> heap option" where
  "set_next p n h = (if p = 0 then Some h
     else Option.bind (h p) (\<lambda>e. Some (h(p \<mapsto> e\<lparr>e_next := n\<rparr>))))"

definition set_prev :: "addr \<Rightarrow> addr \<Rightarrow> heap \<Rightarrow> heap option" where
  "set_prev n p h = (if n = 0 then Some h
     else Option.bind (h n) (\<lambda>e. Some (h(n \<mapsto> e\<lparr>e_prev := p\<rparr>))))"

definition ws_list_delete :: "heap \<Rightarrow> list_t \<Rightarrow> ptr \<Rightarrow> (heap \<times> list_t \<times> int) option" where
  "ws_list_delete h l d =
     (if first_entry l = 0 then Some (h, l, 0)
      else Option.bind (ws_list_delete_find h d (first_entry l)) (\<lambda>(del, cur).
           Option.bind (h cur) (\<lambda>e.
           let del = (if del = 0 \<and> e_data e = d then cur else del) in
           if del = 0 then Some (h, l, 0)
           else
             let l = l\<lparr>element_count := element_count l - 1\<rparr> in
             Option.bind (h del) (\<lambda>e.
             Option.bind (set_next (e_prev e) (e_next e) h) (\<lambda>h.
             Option.bind (set_prev (e_next e) (e_prev e) h) (\<lambda>h.
             let l = (if del = first_entry l then l\<lparr>first_entry := e_next e\<rparr> else l);
                 l = (if del = last_entry l then l\<lparr>last_entry := e_prev e\<rparr> else l)
             in Some (hfree del h, l, 1)))))))"

definition ws_list_attributes_freer :: "list_t \<Rightarrow> ptr option \<Rightarrow> list_t" where
  "ws_list_attributes_freer l f = l\<lparr>freer := f\<rparr>"

definition ws_list_attributes_seeker :: "list_t \<Rightarrow> (ptr \<Rightarrow> ptr \<Rightarrow> int) option \<Rightarrow> list_t" where
  "ws_list_attributes_seeker l f = l\<lparr>seeker := f\<rparr>"

abbreviation (input) WS_LIST_APPEND_FIRST :: u32 where "WS_LIST_APPEND_FIRST \<equiv> 1"

definition ws_list_append :: "addr \<Rightarrow> heap \<Rightarrow> list_t \<Rightarrow> ptr \<Rightarrow> u32 \<Rightarrow> (heap \<times> list_t) option" where
  "ws_list_append new_ele h l d flags =
     (let l = l\<lparr>element_count := element_count l + 1\<rparr> in
      if new_ele = 0 then None
      else let h = h(new_ele \<mapsto> \<lparr>e_next = 0, e_prev = 0, e_data = d\<rparr>) in
      if first_entry l = 0 then Some (h, l\<lparr>first_entry := new_ele, last_entry := new_ele\<rparr>)
      else if flags AND WS_LIST_APPEND_FIRST \<noteq> 0 then
        Option.bind (h (first_entry l)) (\<lambda>c.
        let h = h(first_entry l \<mapsto> c\<lparr>e_prev := new_ele\<rparr>) in
        Option.bind (h new_ele) (\<lambda>n.
          Some (h(new_ele \<mapsto> n\<lparr>e_next := first_entry l\<rparr>), l\<lparr>first_entry := new_ele\<rparr>)))
      else
        Option.bind (h (last_entry l)) (\<lambda>c.
        let h = h(last_entry l \<mapsto> c\<lparr>e_next := new_ele\<rparr>) in
        Option.bind (h new_ele) (\<lambda>n.
          Some (h(new_ele \<mapsto> n\<lparr>e_prev := last_entry l\<rparr>), l\<lparr>last_entry := new_ele\<rparr>))))"

definition ws_list_iterator_start :: "list_t \<Rightarrow> list_t" where
  "ws_list_iterator_start l = l\<lparr>cur_iter := first_entry l\<rparr>"

definition ws_list_iterator_hasnext :: "list_t \<Rightarrow> int" where
  "ws_list_iterator_hasnext l = (if cur_iter l = 0 then 0 else 1)"

definition ws_list_iterator_next :: "heap \<Rightarrow> list_t \<Rightarrow> (list_t \<times> ptr) option" where
  "ws_list_iterator_next h l =
     (if cur_iter l = 0 then Some (l, 0)
      else Option.bind (h (cur_iter l)) (\<lambda>e. Some (l\<lparr>cur_iter := e_next e\<rparr>, e_data e)))"

definition ws_list_iterator_stop :: "list_t \<Rightarrow> list_t" where
  "ws_list_iterator_stop l = l\<lparr>cur_iter := 0\<rparr>"

partial_function (option) ws_list_get_entry_loop :: "heap \<Rightarrow> u32 \<Rightarrow> u32 \<Rightarrow> addr \<Rightarrow> addr option" where
  "ws_list_get_entry_loop h cur_pos pos cur =
     Option.bind (h cur) (\<lambda>e.
       if e_next e \<noteq> 0 then
         (if cur_pos = pos then Some cur else ws_list_get_entry_loop h (cur_pos + 1) pos (e_next e))
       else if cur_pos = pos then Some cur else Some 0)"

definition ws_list_get_entry_at :: "heap \<Rightarrow> list_t \<Rightarrow> u32 \<Rightarrow> addr option" where
  "ws_list_get_entry_at h l pos =
     (if first_entry l = 0 then Some 0 else ws_list_get_entry_loop h 0 pos (first_entry l))"

definition ws_list_extract_at :: "heap \<Rightarrow> list_t \<Rightarrow> u32 \<Rightarrow> (heap \<times> list_t \<times> ptr) option" where
  "ws_list_extract_at h l pos =
     Option.bind (ws_list_get_entry_at h l pos) (\<lambda>cur.
     if cur = 0 then Some (h, l, 0)
     else
       let l = l\<lparr>element_count := element_count l - 1\<rparr> in
       Option.bind (h cur) (\<lambda>e.
       let l = (if e_prev e = 0 \<and> cur = first_entry l then l\<lparr>first_entry := e_next e\<rparr> else l) in
       Option.bind (set_next (e_prev e) (e_next e) h) (\<lambda>h.
       Option.bind (set_prev (e_next e) (e_prev e) h) (\<lambda>h.
         Some (hfree cur h, l, e_data e)))))"

definition ws_list_get_at :: "heap \<Rightarrow> list_t \<Rightarrow> u32 \<Rightarrow> ptr option" where
  "ws_list_get_at h l pos =
     Option.bind (ws_list_get_entry_at h l pos) (\<lambda>cur.
     if cur = 0 then Some 0 else Option.bind (h cur) (\<lambda>e. Some (e_data e)))"

partial_function (option) ws_list_seek_loop ::
  "heap \<Rightarrow> (ptr \<Rightarrow> ptr \<Rightarrow> int) \<Rightarrow> ptr \<Rightarrow> addr \<Rightarrow> ptr option" where
  "ws_list_seek_loop h f indicator cur =
     Option.bind (h cur) (\<lambda>e.
       if e_next e \<noteq> 0 then
         (if f (e_data e) indicator = 1 then Some (e_data e)
          else ws_list_seek_loop h f indicator (e_next e))
       else if f (e_data e) indicator = 1 then Some (e_data e) else Some 0)"

definition ws_list_seek :: "heap \<Rightarrow> list_t \<Rightarrow> ptr \<Rightarrow> ptr option" where
  "ws_list_seek h l indicator =
     (if first_entry l = 0 then Some 0
      else Option.bind (seeker l) (\<lambda>f. ws_list_seek_loop h f indicator (first_entry l)))"

definition ws_list_size :: "list_t \<Rightarrow> u32" where
  "ws_list_size l = element_count l"

definition ws_list_empty :: "list_t \<Rightarrow> int" where
  "ws_list_empty l = (if element_count l = 0 then 1 else 0)"

subsection \<open>Linked segments\<close>

type_synonym cells = "(addr \<times> ptr) list"

definition hd_addr :: "cells \<Rightarrow> addr \<Rightarrow> addr" where
  "hd_addr xs q = (case xs of [] \<Rightarrow> q | x # _ \<Rightarrow> fst x)"

definition last_addr :: "cells \<Rightarrow> addr \<Rightarrow> addr" where
  "last_addr xs p = (if xs = [] then p else fst (last xs))"

lemma hd_addr_simps [simp]:
  "hd_addr [] q = q" "hd_addr (x # xs) q = fst x"
  "hd_addr (xs @ ys) q = hd_addr xs (hd_addr ys q)"
  by (simp_all add: hd_addr_def split: list.splits)

lemma last_addr_simps [simp]:
  "last_addr [] p = p" "last_addr (x # xs) p = last_addr xs (fst x)" "last_addr (xs @ [x]) p = fst x"
  by (simp_all add: last_addr_def)

text \<open>The cells \<open>xs\<close> form a chain: the first points back to \<open>p\<close>, the last on to \<open>q\<close>.\<close>

fun dll :: "heap \<Rightarrow> addr \<Rightarrow> cells \<Rightarrow> addr \<Rightarrow> bool" where
  "dll h p [] q = True"
| "dll h p ((a, d) # xs) q =
     (a \<noteq> 0 \<and> h a = Some \<lparr>e_next = hd_addr xs q, e_prev = p, e_data = d\<rparr> \<and> dll h a xs q)"

definition list_rep :: "heap \<Rightarrow> list_t \<Rightarrow> cells \<Rightarrow> bool" where
  "list_rep h l xs \<longleftrightarrow> dll h 0 xs 0 \<and> distinct (map fst xs) \<and> first_entry l = hd_addr xs 0 \<and>
     (xs \<noteq> [] \<longrightarrow> last_entry l = last_addr xs 0) \<and> element_count l = of_nat (length xs)"

lemma dll_append: "dll h p (xs @ ys) q \<longleftrightarrow> dll h p xs (hd_addr ys q) \<and> dll h (last_addr xs p) ys q"
  by (induction h p xs q rule: dll.induct) auto

lemma dll_frame: "a \<notin> fst ` set xs \<Longrightarrow> dll (h(a := v)) p xs q = dll h p xs q"
  by (induction h p xs q rule: dll.induct) auto

lemma dll_frame_hfree: "a \<notin> fst ` set xs \<Longrightarrow> dll (hfree a h) p xs q = dll h p xs q"
  by (simp add: hfree_def dll_frame)

lemma dll_nonzero: "dll h p xs q \<Longrightarrow> x \<in> set xs \<Longrightarrow> fst x \<noteq> 0"
  by (induction h p xs q rule: dll.induct) auto

lemma dll_dom: "dll h p xs q \<Longrightarrow> x \<in> set xs \<Longrightarrow> fst x \<in> dom h"
  by (induction h p xs q rule: dll.induct) auto

lemma hd_addr_zero: "dll h p xs q \<Longrightarrow> hd_addr xs 0 = 0 \<longleftrightarrow> xs = []"
  by (cases xs) auto

lemma last_addr_zero: "dll h p xs q \<Longrightarrow> last_addr xs 0 = 0 \<longleftrightarrow> xs = []"
  by (cases xs rule: rev_cases) (auto simp: dll_append)

text \<open>Relinking the right end and the left end of a chain.\<close>

lemma dll_set_next:
  assumes "dll h 0 xs q" "distinct (map fst xs)"
  shows "\<exists>h'. set_next (last_addr xs 0) r h = Some h' \<and> dll h' 0 xs r \<and>
     (\<forall>a. a \<notin> fst ` set xs \<longrightarrow> h' a = h a)"
proof (cases xs rule: rev_cases)
  case Nil
  then show ?thesis by (simp add: set_next_def)
next
  case (snoc ys x)
  obtain a d where x: "x = (a, d)" by (cases x)
  with assms snoc have "dll h 0 ys a" "a \<noteq> 0" "a \<notin> fst ` set ys"
      "h a = Some \<lparr>e_next = q, e_prev = last_addr ys 0, e_data = d\<rparr>"
    by (auto simp: dll_append)
  then have "set_next (last_addr xs 0) r h =
        Some (h(a \<mapsto> \<lparr>e_next = r, e_prev = last_addr ys 0, e_data = d\<rparr>))"
      "dll (h(a \<mapsto> \<lparr>e_next = r, e_prev = last_addr ys 0, e_data = d\<rparr>)) 0 xs r"
    by (simp_all add: snoc x set_next_def dll_append dll_frame)
  then show ?thesis by (auto simp: snoc x)
qed

lemma dll_set_prev:
  assumes "dll h p xs 0" "distinct (map fst xs)"
  shows "\<exists>h'. set_prev (hd_addr xs 0) r h = Some h' \<and> dll h' r xs 0 \<and>
     (\<forall>a. a \<notin> fst ` set xs \<longrightarrow> h' a = h a)"
  using assms by (cases xs) (auto simp: set_prev_def dll_frame)

lemma dll_cong: "dll h p xs q \<Longrightarrow> (\<And>a. a \<in> fst ` set xs \<Longrightarrow> h' a = h a) \<Longrightarrow> dll h' p xs q"
  by (induction h p xs q rule: dll.induct) auto

text \<open>The two stores of an unlink close the gap left by an entry.\<close>

lemma unlink:
  assumes "dll h 0 (xs @ (a, d) # ys) 0" "distinct (map fst (xs @ (a, d) # ys))"
  shows "\<exists>h1 h2. set_next (last_addr xs 0) (hd_addr ys 0) h = Some h1 \<and>
     set_prev (hd_addr ys 0) (last_addr xs 0) h1 = Some h2 \<and> dll (hfree a h2) 0 (xs @ ys) 0 \<and>
     (\<forall>b. b \<notin> fst ` set (xs @ ys) \<longrightarrow> h2 b = h b)"
proof -
  have dx: "dll h 0 xs a" and dy: "dll h a ys 0" using assms(1) by (simp_all add: dll_append)
  have dj: "fst ` set xs \<inter> fst ` set ys = {}" "a \<notin> fst ` set (xs @ ys)" using assms(2) by auto
  obtain h1 where h1: "set_next (last_addr xs 0) (hd_addr ys 0) h = Some h1"
      "dll h1 0 xs (hd_addr ys 0)" "\<And>b. b \<notin> fst ` set xs \<Longrightarrow> h1 b = h b"
    using dll_set_next [OF dx, of "hd_addr ys 0"] assms(2) by auto
  have "dll h1 a ys 0" by (rule dll_cong [OF dy], rule h1(3)) (use dj(1) in blast)
  then obtain h2 where h2: "set_prev (hd_addr ys 0) (last_addr xs 0) h1 = Some h2"
      "dll h2 (last_addr xs 0) ys 0" "\<And>b. b \<notin> fst ` set ys \<Longrightarrow> h2 b = h1 b"
    using dll_set_prev [of h1 a ys "last_addr xs 0"] assms(2) by auto
  have "dll h2 0 xs (hd_addr ys 0)" by (rule dll_cong [OF h1(2)], rule h2(3)) (use dj(1) in blast)
  then have "dll (hfree a h2) 0 (xs @ ys) 0"
    using h2(2) dj(2) by (simp add: dll_append dll_frame_hfree image_Un)
  then show ?thesis using h1 h2 by (auto simp: image_Un)
qed

subsection \<open>The operations on the represented list\<close>

lemma list_rep_init: "list_rep h (ws_list_init l) []"
  by (simp add: list_rep_def ws_list_init_def)

lemma list_rep_count: "list_rep h l xs \<Longrightarrow> element_count l = of_nat (length xs)"
  by (simp add: list_rep_def)

lemma list_rep_first: "list_rep h l xs \<Longrightarrow> first_entry l = 0 \<longleftrightarrow> xs = []"
  by (auto simp: list_rep_def hd_addr_zero)

lemma get_entry_loop_eq:
  assumes "dll h p (x # xs) 0" "unat c \<le> unat pos" "unat c + length xs < 2 ^ 32"
  shows "ws_list_get_entry_loop h c pos (fst x) =
     Some (if unat pos < unat c + length (x # xs) then fst ((x # xs) ! (unat pos - unat c)) else 0)"
  using assms
proof (induction xs arbitrary: p x c)
  case Nil
  obtain a d where "x = (a, d)" by (cases x)
  with Nil show ?case
    by (subst ws_list_get_entry_loop.simps) (auto simp: word_unat_eq_iff)
next
  case (Cons y xs)
  obtain a d b e where xy: "x = (a, d)" "y = (b, e)" by (cases x, cases y)
  show ?case
  proof (cases "c = pos")
    case True
    with Cons.prems(1) show ?thesis
      by (subst ws_list_get_entry_loop.simps) (auto simp: xy)
  next
    case False
    then have lt: "unat c < unat pos" using Cons.prems(2) by (simp add: word_unat_eq_iff)
    have u: "unat (c + 1) = unat c + 1"
      using Cons.prems(3) by (simp add: unat_word_ariths)
    have "ws_list_get_entry_loop h (c + 1) pos (fst y) =
        Some (if unat pos < unat (c + 1) + length (y # xs) then fst ((y # xs) ! (unat pos - unat (c + 1))) else 0)"
      using Cons.prems lt u by (intro Cons.IH [of a]) (auto simp: xy)
    with Cons.prems(1) False lt show ?thesis
      by (subst ws_list_get_entry_loop.simps) (auto simp: xy u nth_Cons')
  qed
qed

lemma get_entry_at_eq:
  assumes "list_rep h l xs" "length xs \<le> 2 ^ 32"
  shows "ws_list_get_entry_at h l pos = Some (if unat pos < length xs then fst (xs ! unat pos) else 0)"
proof (cases xs)
  case Nil
  then show ?thesis using assms by (simp add: ws_list_get_entry_at_def list_rep_def)
next
  case (Cons x ys)
  then have "ws_list_get_entry_at h l pos = ws_list_get_entry_loop h 0 pos (fst x)"
    using assms list_rep_first [OF assms(1)] by (simp add: ws_list_get_entry_at_def list_rep_def)
  then show ?thesis
    using get_entry_loop_eq [of h 0 x ys 0 pos] assms Cons by (simp add: list_rep_def)
qed

lemma dll_lookup: "dll h p (xs @ (a, d) # ys) q \<Longrightarrow>
    h a = Some \<lparr>e_next = hd_addr ys q, e_prev = last_addr xs p, e_data = d\<rparr>"
  by (simp add: dll_append)

lemma last_addr_append: "ys \<noteq> [] \<Longrightarrow> last_addr (xs @ ys) p = last_addr ys q"
  by (simp add: last_addr_def)

text \<open>The header after an entry is unlinked, in the shape the delete leaves it.\<close>

lemma list_rep_unlink:
  assumes "list_rep h l (xs @ (a, d) # ys)"
  shows "\<exists>h1 h2. set_next (last_addr xs 0) (hd_addr ys 0) h = Some h1 \<and>
     set_prev (hd_addr ys 0) (last_addr xs 0) h1 = Some h2 \<and>
     (\<forall>l'. first_entry l' = (if xs = [] then hd_addr ys 0 else first_entry l) \<longrightarrow>
        (ys \<noteq> [] \<longrightarrow> last_entry l' = last_entry l) \<longrightarrow>
        (xs \<noteq> [] \<longrightarrow> ys = [] \<longrightarrow> last_entry l' = last_addr xs 0) \<longrightarrow>
        element_count l' = element_count l - 1 \<longrightarrow> list_rep (hfree a h2) l' (xs @ ys)) \<and>
     (\<forall>b. b \<notin> fst ` set (xs @ ys) \<longrightarrow> h2 b = h b)"
proof -
  from assms have d: "dll h 0 (xs @ (a, d) # ys) 0" "distinct (map fst (xs @ (a, d) # ys))"
    by (simp_all add: list_rep_def)
  obtain h1 h2 where h: "set_next (last_addr xs 0) (hd_addr ys 0) h = Some h1"
     "set_prev (hd_addr ys 0) (last_addr xs 0) h1 = Some h2" "dll (hfree a h2) 0 (xs @ ys) 0"
     "\<forall>b. b \<notin> fst ` set (xs @ ys) \<longrightarrow> h2 b = h b"
    using unlink [OF d] by blast
  have "list_rep (hfree a h2) l' (xs @ ys)"
    if "first_entry l' = (if xs = [] then hd_addr ys 0 else first_entry l)"
      "ys \<noteq> [] \<longrightarrow> last_entry l' = last_entry l"
      "xs \<noteq> [] \<longrightarrow> ys = [] \<longrightarrow> last_entry l' = last_addr xs 0"
      "element_count l' = element_count l - 1" for l'
  proof -
    have "first_entry l' = hd_addr (xs @ ys) 0"
      using that(1) assms by (cases xs) (auto simp: list_rep_def)
    moreover have "last_entry l' = last_addr (xs @ ys) 0" if "xs @ ys \<noteq> []"
    proof (cases "ys = []")
      case True
      then show ?thesis using that \<open>xs \<noteq> [] \<longrightarrow> ys = [] \<longrightarrow> last_entry l' = last_addr xs 0\<close> by simp
    next
      case False
      then show ?thesis
        using assms \<open>ys \<noteq> [] \<longrightarrow> last_entry l' = last_entry l\<close>
        by (simp add: list_rep_def last_addr_def)
    qed
    moreover have "element_count l' = of_nat (length (xs @ ys))"
      using that(4) assms by (simp add: list_rep_def)
    ultimately show ?thesis using h(3) d(2) by (auto simp: list_rep_def)
  qed
  then show ?thesis using h by blast
qed

lemma unlink_tests:
  assumes "list_rep h l (xs @ (a, d) # ys)"
  shows "last_addr xs 0 = 0 \<longleftrightarrow> xs = []" "a = first_entry l \<longleftrightarrow> xs = []" "a = last_entry l \<longleftrightarrow> ys = []"
proof -
  from assms have d: "dll h 0 (xs @ (a, d) # ys) 0" "distinct (map fst (xs @ (a, d) # ys))"
    by (simp_all add: list_rep_def)
  have "dll h 0 xs a" using d(1) by (simp add: dll_append)
  then show "last_addr xs 0 = 0 \<longleftrightarrow> xs = []" by (rule last_addr_zero)
  have "first_entry l = hd_addr xs a" using assms by (simp add: list_rep_def)
  then show "a = first_entry l \<longleftrightarrow> xs = []" using d(2) by (cases xs) auto
  have "last_entry l = last_addr ys a"
    using assms by (cases ys rule: rev_cases) (simp_all add: list_rep_def last_addr_def)
  then show "a = last_entry l \<longleftrightarrow> ys = []" using d(2) by (cases ys rule: rev_cases) auto
qed

lemma extract_at_unlinks:
  assumes "list_rep h l (xs @ (a, d) # ys)" "unat pos = length xs" "ys \<noteq> [] \<or> xs = []"
    "length (xs @ (a, d) # ys) \<le> 2 ^ 32"
  shows "\<exists>h' l'. ws_list_extract_at h l pos = Some (h', l', d) \<and> list_rep h' l' (xs @ ys) \<and>
     (\<forall>b. b \<notin> fst ` set (xs @ (a, d) # ys) \<longrightarrow> h' b = h b)"
proof -
  have a: "ws_list_get_entry_at h l pos = Some a"
    using get_entry_at_eq [OF assms(1,4), of pos] assms(2) by (simp add: nth_append)
  have "a \<noteq> 0" and e: "h a = Some \<lparr>e_next = hd_addr ys 0, e_prev = last_addr xs 0, e_data = d\<rparr>"
    using assms(1) by (auto simp: list_rep_def dll_append)
  obtain h1 h2 where h: "set_next (last_addr xs 0) (hd_addr ys 0) h = Some h1"
     "set_prev (hd_addr ys 0) (last_addr xs 0) h1 = Some h2"
     "\<And>l'. first_entry l' = (if xs = [] then hd_addr ys 0 else first_entry l) \<Longrightarrow>
        (ys \<noteq> [] \<longrightarrow> last_entry l' = last_entry l) \<Longrightarrow>
        (xs \<noteq> [] \<longrightarrow> ys = [] \<longrightarrow> last_entry l' = last_addr xs 0) \<Longrightarrow>
        element_count l' = element_count l - 1 \<Longrightarrow> list_rep (hfree a h2) l' (xs @ ys)"
     "\<And>b. b \<notin> fst ` set (xs @ ys) \<Longrightarrow> h2 b = h b"
    using list_rep_unlink [OF assms(1)] by blast
  let ?l = "let l = l\<lparr>element_count := element_count l - 1\<rparr> in
    if xs = [] then l\<lparr>first_entry := hd_addr ys 0\<rparr> else l"
  have "ws_list_extract_at h l pos = Some (hfree a h2, ?l, d)"
    using \<open>a \<noteq> 0\<close> e h(1,2) unlink_tests(1,2) [OF assms(1)]
    by (simp add: ws_list_extract_at_def a Let_def)
  moreover have "list_rep (hfree a h2) ?l (xs @ ys)"
    by (rule h(3)) (use assms(3) in \<open>auto simp: Let_def\<close>)
  moreover have "hfree a h2 b = h b" if "b \<notin> fst ` set (xs @ (a, d) # ys)" for b
    using that h(4) [of b] by (auto simp: hfree_def)
  ultimately show ?thesis by blast
qed

lemma delete_find_eq:
  assumes "dll h p (x # xs) 0"
  shows "ws_list_delete_find h d (fst x) =
     Some (case find (\<lambda>y. snd y = d) (butlast (x # xs)) of None \<Rightarrow> (0, fst (last (x # xs)))
           | Some y \<Rightarrow> (fst y, fst y))"
  using assms
proof (induction xs arbitrary: p x)
  case Nil
  then show ?case by (cases x, subst ws_list_delete_find.simps) simp
next
  case (Cons y xs)
  obtain a e where x: "x = (a, e)" by (cases x)
  have IH: "ws_list_delete_find h d (fst y) =
     Some (case find (\<lambda>y. snd y = d) (butlast (y # xs)) of None \<Rightarrow> (0, fst (last (y # xs)))
           | Some y \<Rightarrow> (fst y, fst y))"
    using Cons.prems by (intro Cons.IH [of a]) (simp add: x)
  show ?case
    using Cons.prems IH by (cases y) (subst ws_list_delete_find.simps, auto simp: x split: option.splits)
qed

lemma find_append: "find P (xs @ ys) = (case find P xs of None \<Rightarrow> find P ys | Some x \<Rightarrow> Some x)"
  by (induction xs) auto

lemma delete_unlinks:
  assumes "list_rep h l (xs @ (a, d) # ys)" "d \<notin> snd ` set xs"
  shows "\<exists>h' l'. ws_list_delete h l d = Some (h', l', 1) \<and> list_rep h' l' (xs @ ys) \<and>
     (\<forall>b. b \<notin> fst ` set (xs @ (a, d) # ys) \<longrightarrow> h' b = h b) \<and> h' a = None \<and>
     cur_iter l' = cur_iter l"
proof -
  let ?zs = "xs @ (a, d) # ys"
  have a0: "a \<noteq> 0" and e: "h a = Some \<lparr>e_next = hd_addr ys 0, e_prev = last_addr xs 0, e_data = d\<rparr>"
    using assms(1) by (auto simp: list_rep_def dll_append)
  obtain h1 h2 where h: "set_next (last_addr xs 0) (hd_addr ys 0) h = Some h1"
     "set_prev (hd_addr ys 0) (last_addr xs 0) h1 = Some h2"
     "\<And>l'. first_entry l' = (if xs = [] then hd_addr ys 0 else first_entry l) \<Longrightarrow>
        (ys \<noteq> [] \<longrightarrow> last_entry l' = last_entry l) \<Longrightarrow>
        (xs \<noteq> [] \<longrightarrow> ys = [] \<longrightarrow> last_entry l' = last_addr xs 0) \<Longrightarrow>
        element_count l' = element_count l - 1 \<Longrightarrow> list_rep (hfree a h2) l' (xs @ ys)"
     "\<And>b. b \<notin> fst ` set (xs @ ys) \<Longrightarrow> h2 b = h b"
    using list_rep_unlink [OF assms(1)] by blast
  obtain z zs where z: "?zs = z # zs" by (cases ?zs) auto
  then have "first_entry l = fst z" "dll h 0 (z # zs) 0" using assms(1) by (auto simp: list_rep_def)
  then have f: "ws_list_delete_find h d (first_entry l) =
      Some (case find (\<lambda>y. snd y = d) (butlast ?zs) of None \<Rightarrow> (0, fst (last ?zs)) | Some y \<Rightarrow> (fst y, fst y))"
    using delete_find_eq [of h 0 z zs d] by (simp only: z)
  have nf: "find (\<lambda>y. snd y = d) xs = None" using assms(2) by (force simp: find_None_iff)
  have "find (\<lambda>y. snd y = d) (butlast ?zs) = (if ys = [] then None else Some (a, d))"
    using nf by (simp add: butlast_append find_append)
  then have f': "ws_list_delete_find h d (first_entry l) = Some (if ys = [] then (0, a) else (a, a))"
    using f by simp
  let ?l = "let l = l\<lparr>element_count := element_count l - 1\<rparr>;
      l = (if xs = [] then l\<lparr>first_entry := hd_addr ys 0\<rparr> else l)
    in if ys = [] then l\<lparr>last_entry := last_addr xs 0\<rparr> else l"
  have "ws_list_delete h l d = Some (hfree a h2, ?l, 1)"
    using a0 e h(1,2) unlink_tests(2,3) [OF assms(1)] list_rep_first [OF assms(1)]
    by (cases "ys = []") (simp_all add: ws_list_delete_def f' Let_def)
  moreover have "list_rep (hfree a h2) ?l (xs @ ys)" by (rule h(3)) (auto simp: Let_def)
  moreover have "hfree a h2 b = h b" if "b \<notin> fst ` set (xs @ (a, d) # ys)" for b
    using that h(4) [of b] by (auto simp: hfree_def)
  moreover have "hfree a h2 a = None" by (simp add: hfree_def)
  moreover have "cur_iter ?l = cur_iter l" by (simp add: Let_def)
  ultimately show ?thesis by blast
qed

lemma delete_absent:
  assumes "list_rep h l xs" "d \<notin> snd ` set xs"
  shows "ws_list_delete h l d = Some (h, l, 0)"
proof (cases xs)
  case Nil
  then show ?thesis using list_rep_first [OF assms(1)] by (simp add: ws_list_delete_def)
next
  case (Cons z zs)
  have d: "dll h 0 (z # zs) 0" "first_entry l = fst z" "first_entry l \<noteq> 0"
    using assms(1) Cons list_rep_first [OF assms(1)] by (auto simp: list_rep_def)
  have "find (\<lambda>y. snd y = d) (butlast (z # zs)) = None"
    using assms(2) Cons by (force simp: find_None_iff dest: in_set_butlastD)
  then have f: "ws_list_delete_find h d (first_entry l) = Some (0, fst (last (z # zs)))"
    using delete_find_eq [OF d(1), of d] d(2) by simp
  obtain us a e where s: "z # zs = us @ [(a, e)]"
    by (metis rev_exhaust list.discI prod.exhaust)
  then have "h a = Some \<lparr>e_next = 0, e_prev = last_addr us 0, e_data = e\<rparr>" "e \<noteq> d"
    using d(1) assms(2) Cons by (auto simp: dll_append)
  then show ?thesis using d f s by (simp add: ws_list_delete_def)
qed


lemma append_links:
  assumes "list_rep h l xs" "a \<noteq> 0" "a \<notin> dom h"
  shows "\<exists>h' l'. ws_list_append a h l d flags = Some (h', l') \<and>
     list_rep h' l' (if flags AND 1 \<noteq> 0 then (a, d) # xs else xs @ [(a, d)]) \<and>
     (\<forall>b. b \<notin> insert a (fst ` set xs) \<longrightarrow> h' b = h b)"
proof -
  let ?l = "l\<lparr>element_count := element_count l + 1\<rparr>"
  let ?n = "\<lparr>e_next = 0, e_prev = 0, e_data = d\<rparr>"
  from assms(1) have r: "dll h 0 xs 0" "distinct (map fst xs)" "first_entry l = hd_addr xs 0"
      "xs \<noteq> [] \<Longrightarrow> last_entry l = last_addr xs 0" "element_count l = of_nat (length xs)"
    by (simp_all add: list_rep_def)
  have af: "a \<notin> fst ` set xs" using dll_dom [OF r(1)] assms(3) by auto
  consider "xs = []" | "xs \<noteq> []" "flags AND 1 \<noteq> 0" | "xs \<noteq> []" "flags AND 1 = 0" by blast
  then show ?thesis
  proof cases
    case 1
    then show ?thesis
      using assms(2) r by (auto simp: ws_list_append_def Let_def list_rep_def)
  next
    case 2
    then obtain b e ys where xs: "xs = (b, e) # ys" by (metis list.exhaust prod.exhaust)
    let ?h = "h(a \<mapsto> \<lparr>e_next = b, e_prev = 0, e_data = d\<rparr>, b \<mapsto> \<lparr>e_next = hd_addr ys 0, e_prev = a, e_data = e\<rparr>)"
    have ab: "a \<noteq> b" "b \<noteq> 0" "a \<notin> fst ` set ys" "b \<notin> fst ` set ys" using af r(1,2) by (auto simp: xs)
    have "ws_list_append a h l d flags = Some (?h, ?l\<lparr>first_entry := a\<rparr>)"
      using assms(2) r(1,3) ab 2 by (simp add: ws_list_append_def Let_def xs fun_upd_twist)
    moreover have "list_rep ?h (?l\<lparr>first_entry := a\<rparr>) ((a, d) # xs)"
      using r ab assms(2) by (simp add: list_rep_def xs dll_frame)
    moreover have "?h c = h c" if "c \<notin> insert a (fst ` set xs)" for c using that by (simp add: xs)
    ultimately show ?thesis using 2(2) by (intro exI conjI) auto
  next
    case 3
    then obtain b e ys where xs: "xs = ys @ [(b, e)]" by (metis rev_exhaust prod.exhaust)
    let ?h = "h(b \<mapsto> \<lparr>e_next = a, e_prev = last_addr ys 0, e_data = e\<rparr>, a \<mapsto> \<lparr>e_next = 0, e_prev = b, e_data = d\<rparr>)"
    have ab: "a \<noteq> b" "b \<noteq> 0" "a \<notin> fst ` set ys" "b \<notin> fst ` set ys" using af r(1,2) by (auto simp: xs dll_append)
    have f0: "first_entry l \<noteq> 0" using list_rep_first [OF assms(1)] 3 by simp
    have "ws_list_append a h l d flags = Some (?h, ?l\<lparr>last_entry := a\<rparr>)"
      using assms(2) r(1,4) ab 3 f0 by (simp add: ws_list_append_def Let_def xs fun_upd_twist dll_append)
    moreover have "list_rep ?h (?l\<lparr>last_entry := a\<rparr>) (xs @ [(a, d)])"
      using r ab assms(2) by (simp add: list_rep_def xs dll_append dll_frame last_addr_def)
    moreover have "?h c = h c" if "c \<notin> insert a (fst ` set xs)" for c using that by (simp add: xs)
    ultimately show ?thesis using 3(2) by (intro exI conjI) auto
  qed
qed

text \<open>Destroying a list: the loop frees all cells but the last.\<close>

lemma destroy_loop_eq:
  assumes "dll h p (x # xs) 0" "distinct (map fst (x # xs))"
  shows "ws_list_destroy_loop h l (fst x) log =
     Some (\<lambda>b. if b \<in> fst ` set (butlast (x # xs)) then None else h b,
           l\<lparr>element_count := element_count l - of_nat (length xs)\<rparr>, fst (last (x # xs)),
           log @ concat (map (\<lambda>y. run_freer l (snd y)) (butlast (x # xs))))"
  using assms
proof (induction xs arbitrary: p x h l log)
  case Nil
  then show ?case by (cases x, subst ws_list_destroy_loop.simps) simp
next
  case (Cons y xs)
  obtain a d where x: "x = (a, d)" by (cases x)
  let ?l = "l\<lparr>element_count := element_count l - 1\<rparr>"
  have d: "dll (hfree a h) a (y # xs) 0" "distinct (map fst (y # xs))" "fst y \<noteq> 0"
      "h a = Some \<lparr>e_next = fst y, e_prev = p, e_data = d\<rparr>" "a \<notin> fst ` set (y # xs)"
    using Cons.prems by (auto simp: x dll_frame_hfree) (cases y, simp add: hfree_def dll_frame image_iff)+
  have rf: "run_freer ?l = run_freer l" by (simp add: run_freer_def fun_eq_iff)
  have "ws_list_destroy_loop h l (fst x) log = ws_list_destroy_loop (hfree a h) ?l (fst y) (log @ run_freer l d)"
    using d by (subst ws_list_destroy_loop.simps) (simp add: x)
  also have "\<dots> = Some (\<lambda>b. if b \<in> fst ` set (butlast (y # xs)) then None else hfree a h b,
           ?l\<lparr>element_count := element_count ?l - of_nat (length xs)\<rparr>, fst (last (y # xs)),
           (log @ run_freer l d) @ concat (map (\<lambda>y. run_freer l (snd y)) (butlast (y # xs))))"
    using Cons.IH [OF d(1,2), of ?l "log @ run_freer l d"] by (simp only: rf)
  finally show ?case
    by (simp add: x hfree_def fun_eq_iff)
qed

lemma destroy_eq:
  assumes "list_rep h l xs"
  shows "\<exists>h' l'. ws_list_destroy h l = Some (h', l', concat (map (\<lambda>x. run_freer l (snd x)) xs)) \<and>
     list_rep h' l' [] \<and> (\<forall>b. h' b = (if b \<in> fst ` set xs then None else h b)) \<and>
     cur_iter l' = cur_iter l"
proof (cases xs)
  case Nil
  then show ?thesis using assms list_rep_first [OF assms] by (simp add: ws_list_destroy_def)
next
  case (Cons x ys)
  obtain us a d where s: "xs = us @ [(a, d)]" using Cons by (metis rev_exhaust list.discI prod.exhaust)
  let ?h = "\<lambda>b. if b \<in> fst ` set (butlast xs) then None else h b"
  let ?l = "l\<lparr>element_count := element_count l - of_nat (length ys)\<rparr>"
  have r: "dll h 0 (x # ys) 0" "distinct (map fst (x # ys))" "first_entry l = fst x" "first_entry l \<noteq> 0"
    using assms list_rep_first [OF assms] Cons by (auto simp: list_rep_def)
  have loop: "ws_list_destroy_loop h l (first_entry l) [] =
      Some (?h, ?l, a, concat (map (\<lambda>y. run_freer l (snd y)) us))"
    using destroy_loop_eq [OF r(1,2), of l "[]"] r(3) s Cons [symmetric] by (simp only:) simp
  have "a \<notin> fst ` set us" "h a = Some \<lparr>e_next = 0, e_prev = last_addr us 0, e_data = d\<rparr>"
    using r(1) assms s Cons [symmetric] by (auto simp: dll_append list_rep_def)
  then have "ws_list_destroy h l = Some (hfree a ?h, ?l\<lparr>element_count := element_count ?l - 1, first_entry := 0\<rparr>,
      concat (map (\<lambda>y. run_freer l (snd y)) us) @ run_freer ?l d)"
    using r(4) loop by (simp add: ws_list_destroy_def s)
  moreover have "run_freer ?l d = run_freer l d" by (simp add: run_freer_def)
  moreover have "list_rep (hfree a ?h) (?l\<lparr>element_count := element_count ?l - 1, first_entry := 0\<rparr>) []"
    using list_rep_count [OF assms] Cons by (simp add: list_rep_def)
  ultimately show ?thesis by (auto simp: s hfree_def)
qed

text \<open>\<open>ws_list_clear\<close> is the same loop without the freer.\<close>

lemma clear_loop_eq:
  "ws_list_destroy_loop h l cur log = Some (h', l', c, log') \<Longrightarrow> ws_list_clear_loop h l cur = Some (h', l', c)"
proof -
  assume "ws_list_destroy_loop h l cur log = Some (h', l', c, log')"
  then have "(case (h', l', c, log') of (h', l', c, log') \<Rightarrow> ws_list_clear_loop h l cur = Some (h', l', c))"
  proof (rule ws_list_destroy_loop.raw_induct [rotated], goal_cases)
    case (1 f h l cur log r)
    from 1(2) show ?case
      by (subst ws_list_clear_loop.simps) (auto split: if_splits simp: Option.bind_eq_Some_conv dest!: 1(1))
  qed
  then show ?thesis by simp
qed

lemma clear_eq:
  assumes "list_rep h l xs" "ws_list_destroy h l = Some (h', l', log)"
  shows "ws_list_clear h l = Some (h', l', if xs = [] then 0 else 1)"
proof (cases "xs = []")
  case True
  then show ?thesis
    using assms(2) list_rep_first [OF assms(1)] by (simp add: ws_list_clear_def ws_list_destroy_def)
next
  case False
  then show ?thesis
    using assms(2) list_rep_first [OF assms(1)]
    by (auto simp: ws_list_clear_def ws_list_destroy_def Option.bind_eq_Some_conv dest!: clear_loop_eq)
qed

text \<open>A complete iteration: start, then ask and advance until there is no next element.\<close>

partial_function (option) iterate :: "heap \<Rightarrow> list_t \<Rightarrow> ptr list \<Rightarrow> (list_t \<times> ptr list) option" where
  "iterate h l acc =
     (if ws_list_iterator_hasnext l = 0 then Some (ws_list_iterator_stop l, acc)
      else Option.bind (ws_list_iterator_next h l) (\<lambda>(l, d). iterate h l (acc @ [d])))"

lemma iterate_eq:
  "dll h p xs 0 \<Longrightarrow> cur_iter l = hd_addr xs 0 \<Longrightarrow>
    iterate h l acc = Some (l\<lparr>cur_iter := 0\<rparr>, acc @ map snd xs)"
proof (induction xs arbitrary: p l acc)
  case Nil
  then show ?case
    by (subst iterate.simps) (simp add: ws_list_iterator_hasnext_def ws_list_iterator_stop_def)
next
  case (Cons x xs)
  obtain a d where x: "x = (a, d)" by (cases x)
  from Cons.prems have "iterate h (l\<lparr>cur_iter := hd_addr xs 0\<rparr>) (acc @ [d]) =
      Some (l\<lparr>cur_iter := 0\<rparr>, acc @ map snd (x # xs))"
    using Cons.IH [of a "l\<lparr>cur_iter := hd_addr xs 0\<rparr>" "acc @ [d]"] by (simp add: x)
  with Cons.prems show ?case
    by (subst iterate.simps) (simp add: x ws_list_iterator_hasnext_def ws_list_iterator_next_def)
qed

lemma seek_loop_eq:
  "dll h p (x # xs) 0 \<Longrightarrow> ws_list_seek_loop h f i (fst x) =
     Some (case find (\<lambda>d. f d i = 1) (map snd (x # xs)) of None \<Rightarrow> 0 | Some d \<Rightarrow> d)"
proof (induction xs arbitrary: p x)
  case Nil
  then show ?case by (cases x, subst ws_list_seek_loop.simps) simp
next
  case (Cons y xs)
  obtain a d where x: "x = (a, d)" by (cases x)
  have "ws_list_seek_loop h f i (fst y) =
     Some (case find (\<lambda>d. f d i = 1) (map snd (y # xs)) of None \<Rightarrow> 0 | Some d \<Rightarrow> d)"
    using Cons.prems by (intro Cons.IH [of a]) (simp add: x)
  with Cons.prems show ?case by (cases y) (subst ws_list_seek_loop.simps, auto simp: x)
qed

lemma seek_eq:
  assumes "list_rep h l xs" "seeker l = Some f"
  shows "ws_list_seek h l i = Some (case find (\<lambda>d. f d i = 1) (map snd xs) of None \<Rightarrow> 0 | Some d \<Rightarrow> d)"
proof (cases xs)
  case Nil
  then show ?thesis using list_rep_first [OF assms(1)] by (simp add: ws_list_seek_def)
next
  case (Cons x ys)
  then show ?thesis
    using seek_loop_eq [of h 0 x ys f i] list_rep_first [OF assms(1)] assms
    by (auto simp: ws_list_seek_def list_rep_def)
qed

lemma get_at_eq:
  assumes "list_rep h l xs" "length xs \<le> 2 ^ 32"
  shows "ws_list_get_at h l pos = Some (if unat pos < length xs then snd (xs ! unat pos) else 0)"
proof (cases "unat pos < length xs")
  case True
  obtain us x vs where s: "xs = us @ x # vs" "length us = unat pos"
    using id_take_nth_drop [OF True] True by (metis length_take min.absorb4)
  obtain a d where x: "x = (a, d)" by (cases x)
  have "h a = Some \<lparr>e_next = hd_addr vs 0, e_prev = last_addr us 0, e_data = d\<rparr>" "a \<noteq> 0"
    using assms(1) by (auto simp: list_rep_def dll_append s x)
  then show ?thesis
    using get_entry_at_eq [OF assms, of pos] s x by (simp add: ws_list_get_at_def nth_append)
next
  case False
  then show ?thesis using assms by (simp add: ws_list_get_at_def get_entry_at_eq)
qed

subsection \<open>Properties\<close>

text \<open>Appending to a well-formed list never goes through a null or freed pointer: with a
  fresh non-null entry it links the pointer in front of the represented list (flag
  WS\_LIST\_APPEND\_FIRST) or behind it, keeps the list well-formed with its count, and
  touches no cell outside the list.\<close>

theorem ws_list_append_links:
  assumes "list_rep h l xs" "a \<noteq> 0" "a \<notin> dom h"
  shows "\<exists>h' l'. ws_list_append a h l d flags = Some (h', l') \<and>
     list_rep h' l' (if flags AND 1 \<noteq> 0 then (a, d) # xs else xs @ [(a, d)]) \<and>
     (\<forall>b. b \<noteq> a \<and> b \<notin> fst ` set xs \<longrightarrow> h' b = h b)"
  using append_links [OF assms, of d flags] by simp

theorem ws_list_append_links_witness:
  "\<exists>h' l'. ws_list_append 8 Map.empty (ws_list_init undefined) 100 0 = Some (h', l') \<and>
     list_rep h' l' [(8, 100)]"
  using ws_list_append_links [of Map.empty "ws_list_init undefined" "[]" 8 100 0]
  by (auto simp: list_rep_init)

text \<open>Deleting a pointer unlinks and frees exactly the first entry that holds it, also
  when that entry is the first or the last one, and the list stays well-formed (its count,
  both ends and both directions of links); a pointer the list does not hold leaves heap and
  list unchanged and returns 0.\<close>

theorem ws_list_delete_unlinks:
  assumes "list_rep h l xs"
  shows "if d \<in> snd ` set xs
    then \<exists>us a vs h' l'. xs = us @ (a, d) # vs \<and> d \<notin> snd ` set us \<and>
      ws_list_delete h l d = Some (h', l', 1) \<and> list_rep h' l' (us @ vs)
    else ws_list_delete h l d = Some (h, l, 0)"
proof (cases "d \<in> snd ` set xs")
  case True
  then obtain us y ws where s: "map snd xs = us @ d # ws" "d \<notin> set us"
    by (metis list.set_map split_list_first)
  then obtain us' a vs where "xs = us' @ (a, d) # vs" "us = map snd us'"
    by (auto simp: map_eq_append_conv)
  moreover from this obtain h' l' where "ws_list_delete h l d = Some (h', l', 1)" "list_rep h' l' (us' @ vs)"
    using delete_unlinks [of h l us' a d vs] assms s by auto
  ultimately show ?thesis using True s by auto
next
  case False
  then show ?thesis using delete_absent assms by simp
qed

theorem ws_list_delete_unlinks_witness:
  "\<exists>us a vs h' l'. [(8, 100), (16, 200)] = us @ (a, 200) # vs \<and> 200 \<notin> snd ` set us \<and>
     ws_list_delete [8 \<mapsto> \<lparr>e_next = 16, e_prev = 0, e_data = 100\<rparr>, 16 \<mapsto> \<lparr>e_next = 0, e_prev = 8, e_data = 200\<rparr>]
       \<lparr>element_count = 2, first_entry = 8, last_entry = 16, cur_iter = 0, seeker = None, freer = None\<rparr> 200 =
       Some (h', l', 1) \<and> list_rep h' l' (us @ vs)"
  using ws_list_delete_unlinks
    [of "[8 \<mapsto> \<lparr>e_next = 16, e_prev = 0, e_data = 100\<rparr>, 16 \<mapsto> \<lparr>e_next = 0, e_prev = 8, e_data = 200\<rparr>]"
        "\<lparr>element_count = 2, first_entry = 8, last_entry = 16, cur_iter = 0, seeker = None, freer = None\<rparr>"
        "[(8, 100), (16, 200)]" 200]
  by (simp add: list_rep_def)

text \<open>C31: destroying a well-formed list ends, calls the freer once for every stored pointer
  in list order (if one is set), frees every entry exactly once and nothing else, and leaves
  an empty well-formed list.\<close>

theorem ws_list_destroy_frees:
  assumes "list_rep h l xs"
  shows "\<exists>h' l'. ws_list_destroy h l =
       Some (h', l', case freer l of None \<Rightarrow> [] | Some f \<Rightarrow> map (\<lambda>d. (f, d)) (map snd xs)) \<and>
     list_rep h' l' [] \<and> (\<forall>b. h' b = (if b \<in> fst ` set xs then None else h b))"
proof -
  have "concat (map (\<lambda>x. run_freer l (snd x)) xs) =
      (case freer l of None \<Rightarrow> [] | Some f \<Rightarrow> map (\<lambda>d. (f, d)) (map snd xs))"
    by (induction xs) (auto simp: run_freer_def split: option.splits)
  then show ?thesis using destroy_eq [OF assms] by auto
qed

theorem ws_list_destroy_frees_witness:
  "\<exists>h' l'. ws_list_destroy [8 \<mapsto> \<lparr>e_next = 16, e_prev = 0, e_data = 100\<rparr>, 16 \<mapsto> \<lparr>e_next = 0, e_prev = 8, e_data = 200\<rparr>]
       \<lparr>element_count = 2, first_entry = 8, last_entry = 16, cur_iter = 0, seeker = None, freer = Some 7\<rparr> =
       Some (h', l', [(7, 100), (7, 200)]) \<and> list_rep h' l' []"
  using ws_list_destroy_frees
    [of "[8 \<mapsto> \<lparr>e_next = 16, e_prev = 0, e_data = 100\<rparr>, 16 \<mapsto> \<lparr>e_next = 0, e_prev = 8, e_data = 200\<rparr>]"
        "\<lparr>element_count = 2, first_entry = 8, last_entry = 16, cur_iter = 0, seeker = None, freer = Some 7\<rparr>"
        "[(8, 100), (16, 200)]"]
  by (auto simp: list_rep_def)

text \<open>An iteration over a well-formed list ends and yields the stored pointers in order,
  each once.\<close>

theorem ws_list_iterate_all:
  assumes "list_rep h l xs"
  shows "iterate h (ws_list_iterator_start l) [] = Some (l\<lparr>cur_iter := 0\<rparr>, map snd xs)"
  using iterate_eq [of h 0 xs "ws_list_iterator_start l" "[]"] assms
  by (simp add: list_rep_def ws_list_iterator_start_def)

theorem ws_list_iterate_all_witness:
  "iterate [8 \<mapsto> \<lparr>e_next = 16, e_prev = 0, e_data = 100\<rparr>, 16 \<mapsto> \<lparr>e_next = 0, e_prev = 8, e_data = 200\<rparr>]
     (ws_list_iterator_start
       \<lparr>element_count = 2, first_entry = 8, last_entry = 16, cur_iter = 0, seeker = None, freer = None\<rparr>) [] =
   Some (\<lparr>element_count = 2, first_entry = 8, last_entry = 16, cur_iter = 0, seeker = None, freer = None\<rparr>, [100, 200])"
  using ws_list_iterate_all
    [of "[8 \<mapsto> \<lparr>e_next = 16, e_prev = 0, e_data = 100\<rparr>, 16 \<mapsto> \<lparr>e_next = 0, e_prev = 8, e_data = 200\<rparr>]"
        "\<lparr>element_count = 2, first_entry = 8, last_entry = 16, cur_iter = 0, seeker = None, freer = None\<rparr>"
        "[(8, 100), (16, 200)]"]
  by (simp add: list_rep_def)

text \<open>Extracting the last of several entries leaves \<open>last\<close> pointing at the freed entry, and
  the next append writes through it. (Extraction at position 0 is not affected.)\<close>

lemma extract_tail_dangles:
  "\<exists>h l h' l'. list_rep h l [(8, 100), (16, 200)] \<and> ws_list_extract_at h l 1 = Some (h', l', 200) \<and>
     ws_list_append 24 h' l' 300 0 = None"
proof (intro exI conjI)
  let ?h = "[8 \<mapsto> \<lparr>e_next = 16, e_prev = 0, e_data = 100\<rparr>, 16 \<mapsto> \<lparr>e_next = 0, e_prev = 8, e_data = 200\<rparr>] :: heap"
  let ?l = "\<lparr>element_count = 2, first_entry = 8, last_entry = 16, cur_iter = 0, seeker = None, freer = None\<rparr>"
  show "list_rep ?h ?l [(8, 100), (16, 200)]" by (simp add: list_rep_def)
  from get_entry_at_eq [OF this, of 1] have "ws_list_get_entry_at ?h ?l 1 = Some 16" by simp
  then show "ws_list_extract_at ?h ?l 1 =
      Some ([8 \<mapsto> \<lparr>e_next = 0, e_prev = 0, e_data = 100\<rparr>], ?l\<lparr>element_count := 1\<rparr>, 200)"
    by (simp add: ws_list_extract_at_def set_next_def set_prev_def hfree_def Let_def)
  show "ws_list_append 24 [8 \<mapsto> \<lparr>e_next = 0, e_prev = 0, e_data = 100\<rparr>] (?l\<lparr>element_count := 1\<rparr>) 300 0 = None"
    by (simp add: ws_list_append_def)
qed

end
