(* ===== verification/MessageQueue.thy ===== *)
theory MessageQueue
  imports LinkedList
begin

text \<open>
  The message queue of \<open>lib/src/message_queue.c\<close>: a linked list behind a mutex, with a
  semaphore that counts the queued messages. The queue is modelled twice over the same list
  operations: as whole calls (a pop on an empty semaphore blocks, which is \<open>None\<close>), and as
  the interleaving of any number of pushing and popping threads, in which the critical
  section under the mutex is one step and the semaphore operations outside it are steps of
  their own.
\<close>

record ws_MessageQueue =
  entry_list :: list_t
  semid :: nat

definition ws_createMessageQueue :: "ws_MessageQueue \<Rightarrow> ws_MessageQueue" where
  "ws_createMessageQueue mq = \<lparr>entry_list = ws_list_init (entry_list mq), semid = 0\<rparr>"

definition ws_destroyMessageQueue :: "heap \<Rightarrow> ws_MessageQueue option \<Rightarrow> heap option" where
  "ws_destroyMessageQueue h mq =
     (case mq of None \<Rightarrow> Some h
      | Some mq \<Rightarrow> map_option fst (ws_list_destroy h (entry_list mq)))"

definition ws_popQueue :: "heap \<times> ws_MessageQueue \<Rightarrow> ((heap \<times> ws_MessageQueue) \<times> ptr) option" where
  "ws_popQueue = (\<lambda>(h, mq).
     if semid mq = 0 then None
     else let mq = mq\<lparr>semid := semid mq - 1\<rparr> in
       Option.bind (ws_list_extract_at h (entry_list mq) 0) (\<lambda>(h, l, ret).
         Some ((h, mq\<lparr>entry_list := l\<rparr>), ret)))"

definition ws_pushQueue :: "addr \<Rightarrow> heap \<times> ws_MessageQueue \<Rightarrow> ptr \<Rightarrow> (heap \<times> ws_MessageQueue) option" where
  "ws_pushQueue a = (\<lambda>(h, mq) element.
     Option.bind (ws_list_append a h (entry_list mq) element 0) (\<lambda>(h, l).
       Some (h, mq\<lparr>entry_list := l, semid := semid mq + 1\<rparr>)))"

subsection \<open>The contract of a queue\<close>

fun pushes :: "('r \<Rightarrow> 's \<Rightarrow> 'a \<Rightarrow> 's option) \<Rightarrow> ('r \<times> 'a) list \<Rightarrow> 's \<Rightarrow> 's option" where
  "pushes push [] s = Some s"
| "pushes push ((r, x) # xs) s = Option.bind (push r s x) (pushes push xs)"

fun pops :: "('s \<Rightarrow> ('s \<times> 'a) option) \<Rightarrow> nat \<Rightarrow> 's \<Rightarrow> ('s \<times> 'a list) option" where
  "pops pop 0 s = Some (s, [])"
| "pops pop (Suc n) s = Option.bind (pop s) (\<lambda>(s, x). Option.bind (pops pop n s) (\<lambda>(s, xs). Some (s, x # xs)))"

locale fifo =
  fixes rep :: "'s \<Rightarrow> 'a list \<Rightarrow> bool"
    and push :: "'r \<Rightarrow> 's \<Rightarrow> 'a \<Rightarrow> 's option"
    and pop :: "'s \<Rightarrow> ('s \<times> 'a) option"
    and avail :: "'r \<Rightarrow> 's \<Rightarrow> bool"
    and cap :: nat
  assumes push_rep: "rep s xs \<Longrightarrow> avail r s \<Longrightarrow> length xs < cap \<Longrightarrow> \<exists>s'. push r s x = Some s' \<and> rep s' (xs @ [x])"
    and pop_rep: "rep s (x # xs) \<Longrightarrow> \<exists>s'. pop s = Some (s', x) \<and> rep s' xs"
    and avail_push: "rep s xs \<Longrightarrow> push r s x = Some s' \<Longrightarrow> avail q s \<Longrightarrow> q \<noteq> r \<Longrightarrow> avail q s'"
begin

lemma pops_rep: "rep s (xs @ ys) \<Longrightarrow> \<exists>s'. pops pop (length xs) s = Some (s', xs) \<and> rep s' ys"
proof (induction xs arbitrary: s)
  case (Cons x xs)
  then obtain s1 where s1: "pop s = Some (s1, x)" "rep s1 (xs @ ys)" using pop_rep [of s x "xs @ ys"] by auto
  with Cons.IH obtain s2 where "pops pop (length xs) s1 = Some (s2, xs)" "rep s2 ys" by blast
  with s1 show ?case by simp
qed simp

lemma pushes_rep:
  "rep s ys \<Longrightarrow> distinct (map fst xs) \<Longrightarrow> (\<forall>r\<in>fst ` set xs. avail r s) \<Longrightarrow> length ys + length xs \<le> cap \<Longrightarrow>
    \<exists>s'. pushes push xs s = Some s' \<and> rep s' (ys @ map snd xs)"
proof (induction xs arbitrary: s ys)
  case (Cons rx xs)
  obtain r x where rx: "rx = (r, x)" by (cases rx)
  obtain s1 where s1: "push r s x = Some s1" "rep s1 (ys @ [x])"
    using push_rep [OF Cons.prems(1), of r x] Cons.prems(3,4) by (auto simp: rx)
  have "avail q s1" if "q \<in> fst ` set xs" for q
    using avail_push [OF Cons.prems(1) s1(1), of q] Cons.prems(2,3) that by (auto simp: rx)
  with Cons.IH [OF s1(2)] Cons.prems(2,4) obtain s2 where
      "pushes push xs s1 = Some s2" "rep s2 ((ys @ [x]) @ map snd xs)"
    by (auto simp: rx)
  with s1(1) show ?case by (simp add: rx)
qed simp

lemma fifo_order:
  assumes "rep s ys" "distinct (map fst xs)" "\<forall>r\<in>fst ` set xs. avail r s" "length ys + length xs \<le> cap"
  shows "\<exists>s1 s2. pushes push xs s = Some s1 \<and>
     pops pop (length ys + length xs) s1 = Some (s2, ys @ map snd xs) \<and> rep s2 []"
proof -
  obtain s1 where s1: "pushes push xs s = Some s1" "rep s1 (ys @ map snd xs)"
    using pushes_rep [OF assms] by blast
  then show ?thesis using pops_rep [of s1 "ys @ map snd xs" "[]"] by auto
qed

end

definition mq_rep :: "heap \<times> ws_MessageQueue \<Rightarrow> ptr list \<Rightarrow> bool" where
  "mq_rep = (\<lambda>(h, mq) ds. \<exists>xs. list_rep h (entry_list mq) xs \<and> map snd xs = ds \<and>
     semid mq = length ds \<and> length ds \<le> 2 ^ 32)"

definition mq_avail :: "addr \<Rightarrow> heap \<times> ws_MessageQueue \<Rightarrow> bool" where
  "mq_avail a = (\<lambda>(h, mq). a \<noteq> 0 \<and> a \<notin> dom h)"

lemma extract_first:
  assumes "list_rep h l ((a, d) # xs)" "length xs < 2 ^ 32"
  shows "\<exists>h' l'. ws_list_extract_at h l 0 = Some (h', l', d) \<and> list_rep h' l' xs"
  using extract_at_unlinks [of h l "[]" a d xs 0] assms by auto

interpretation mq: fifo mq_rep ws_pushQueue ws_popQueue mq_avail "2 ^ 32"
proof (standard, goal_cases)
  case (1 s ds a d)
  obtain h mq where s: "s = (h, mq)" by (cases s)
  from 1 obtain xs where xs: "list_rep h (entry_list mq) xs" "map snd xs = ds" "semid mq = length ds"
      "a \<noteq> 0" "a \<notin> dom h"
    by (auto simp: s mq_rep_def mq_avail_def)
  with append_links [OF xs(1,4,5), of d 0] 1(3) show ?case
    by (force simp: s ws_pushQueue_def mq_rep_def)
next
  case (2 s d ds)
  obtain h mq where s: "s = (h, mq)" by (cases s)
  from 2 obtain a xs where xs: "list_rep h (entry_list mq) ((a, d) # xs)" "map snd xs = ds"
      "semid mq = Suc (length ds)" "length ds < 2 ^ 32"
    by (auto simp: s mq_rep_def)
  with extract_first [OF xs(1)] show ?case
    by (force simp: s ws_popQueue_def mq_rep_def)
next
  case (3 s ds a d s' b)
  obtain h mq where s: "s = (h, mq)" by (cases s)
  from 3(3) have b: "b \<noteq> 0" "h b = None" by (auto simp: s mq_avail_def)
  from 3(2) obtain h' l' where h: "ws_list_append a h (entry_list mq) d 0 = Some (h', l')" "fst s' = h'"
    by (auto simp: s ws_pushQueue_def Option.bind_eq_Some_conv)
  have "h' b = None"
    using h(1) b 3(4) by (auto simp: ws_list_append_def Let_def Option.bind_eq_Some_conv split: if_splits)
  then show ?case using b h(2) by (cases s') (auto simp: mq_avail_def)
qed

text \<open>The queue is first-in first-out: messages pushed to a queue come out by pops in the
  order they went in, behind what was queued before, no pop blocks while messages are
  queued, and the queue is empty afterwards.\<close>

theorem message_queue_fifo:
  assumes "mq_rep s ds" "distinct (map fst xs)" "\<forall>a\<in>fst ` set xs. mq_avail a s"
    "length ds + length xs \<le> 2 ^ 32"
  shows "\<exists>s1 s2. pushes ws_pushQueue xs s = Some s1 \<and>
     pops ws_popQueue (length ds + length xs) s1 = Some (s2, ds @ map snd xs) \<and> mq_rep s2 []"
  using assms by (rule mq.fifo_order)

theorem message_queue_fifo_witness:
  "\<exists>s1 s2. pushes ws_pushQueue [(8, 100), (16, 200), (24, 300)]
       (Map.empty, ws_createMessageQueue undefined) = Some s1 \<and>
     pops ws_popQueue (length [8, 16, 24 :: nat]) s1 = Some (s2, [100, 200, 300])"
  using message_queue_fifo [of "(Map.empty, ws_createMessageQueue undefined)" "[]" "[(8, 100), (16, 200), (24, 300)]"]
  by (force simp: mq_rep_def mq_avail_def ws_createMessageQueue_def list_rep_init)

subsection \<open>Concurrent use\<close>

text \<open>The steps of pushing and popping threads. \<open>pushing\<close> counts the threads between the
  critical section and the post of the semaphore, \<open>popping\<close> those between the wait and the
  critical section; \<open>pushed\<close> and \<open>popped\<close> record what went in and came out.\<close>

record mq_state =
  mq_heap :: heap
  mqueue :: ws_MessageQueue
  pushing :: nat
  popping :: nat
  pushed :: "ptr list"
  popped :: "ptr list"

inductive mq_step :: "mq_state \<Rightarrow> mq_state \<Rightarrow> bool" where
  append_locked: "ws_list_append a (mq_heap s) (entry_list (mqueue s)) d 0 = Some (h, l) \<Longrightarrow>
    a \<noteq> 0 \<Longrightarrow> a \<notin> dom (mq_heap s) \<Longrightarrow> length (pushed s) < 2 ^ 32 \<Longrightarrow>
    mq_step s (s\<lparr>mq_heap := h, mqueue := (mqueue s)\<lparr>entry_list := l\<rparr>,
                 pushing := Suc (pushing s), pushed := pushed s @ [d]\<rparr>)"
| post_sem: "pushing s = Suc n \<Longrightarrow>
    mq_step s (s\<lparr>pushing := n, mqueue := (mqueue s)\<lparr>semid := Suc (semid (mqueue s))\<rparr>\<rparr>)"
| wait_sem: "semid (mqueue s) = Suc n \<Longrightarrow>
    mq_step s (s\<lparr>mqueue := (mqueue s)\<lparr>semid := n\<rparr>, popping := Suc (popping s)\<rparr>)"
| extract_locked: "popping s = Suc n \<Longrightarrow>
    ws_list_extract_at (mq_heap s) (entry_list (mqueue s)) 0 = Some (h, l, d) \<Longrightarrow>
    mq_step s (s\<lparr>mq_heap := h, mqueue := (mqueue s)\<lparr>entry_list := l\<rparr>, popping := n,
                 popped := popped s @ [d]\<rparr>)"

definition mq_start :: "mq_state" where
  "mq_start = \<lparr>mq_heap = Map.empty, mqueue = ws_createMessageQueue undefined, pushing = 0,
     popping = 0, pushed = [], popped = []\<rparr>"

definition mq_inv :: "mq_state \<Rightarrow> bool" where
  "mq_inv s \<longleftrightarrow> (\<exists>xs. list_rep (mq_heap s) (entry_list (mqueue s)) xs \<and>
     length xs = pushing s + semid (mqueue s) + popping s \<and>
     pushed s = popped s @ map snd xs \<and> length (pushed s) \<le> 2 ^ 32)"

lemma mq_inv_start: "mq_inv mq_start"
  by (simp add: mq_inv_def mq_start_def ws_createMessageQueue_def list_rep_init)

lemma mq_step_inv:
  assumes "mq_step s t" "mq_inv s"
  shows "mq_inv t"
  using assms
proof (induction rule: mq_step.induct)
  case (append_locked a s d h l)
  from append_locked(5) obtain xs where xs: "list_rep (mq_heap s) (entry_list (mqueue s)) xs"
     "length xs = pushing s + semid (mqueue s) + popping s" "pushed s = popped s @ map snd xs"
    by (auto simp: mq_inv_def)
  from append_links [OF xs(1) append_locked(2,3), of d 0] append_locked(1)
  have "list_rep h l (xs @ [(a, d)])" by auto
  with xs append_locked(4) show ?case by (auto simp: mq_inv_def intro!: exI [of _ "xs @ [(a, d)]"])
next
  case (extract_locked s n h l d)
  from extract_locked(3) obtain xs where xs: "list_rep (mq_heap s) (entry_list (mqueue s)) xs"
     "length xs = pushing s + semid (mqueue s) + popping s" "pushed s = popped s @ map snd xs"
     "length (pushed s) \<le> 2 ^ 32"
    by (auto simp: mq_inv_def)
  from xs(2) extract_locked(1) obtain a e ys where ys: "xs = (a, e) # ys" by (cases xs) auto
  from extract_first [OF xs(1) [unfolded ys]] xs(3,4) extract_locked(2)
  have "list_rep h l ys" "e = d" by (auto simp: ys)
  with xs extract_locked(1) show ?case by (auto simp: mq_inv_def ys)
qed (auto simp: mq_inv_def)

lemma mq_reachable_inv: "mq_step\<^sup>*\<^sup>* mq_start s \<Longrightarrow> mq_inv s"
  by (induction rule: rtranclp_induct) (auto intro: mq_inv_start mq_step_inv)



end
