(* ===== verification/Sha1.thy ===== *)
theory Sha1
  imports StringUtils
begin

text \<open>
  The SHA-1 implementation of \<open>lib/src/sha1.c\<close>: the context, the compression function
  with its sixteen-word circular message schedule and unrolled rounds, the buffering
  update and the padding of the final step, on a little-endian target. Reads and writes
  outside the data or the context's 64-byte buffer are \<open>None\<close>.

  The reference is the hash of FIPS 180: eighty schedule words, the functions Ch, Parity
  and Maj, and one padded message. The code computes it, for every way of cutting the
  message into updates.
\<close>

record SHA1_CTX =
  state :: "u32 list"
  count0 :: u32
  count1 :: u32
  buffer :: bytes

definition rol :: "u32 \<Rightarrow> nat \<Rightarrow> u32" where
  "rol v bits = push_bit bits v OR drop_bit (32 - bits) v"

text \<open>One 32-bit load of the union's \<open>l\<close> view of the block.\<close>

definition le32 :: "bytes \<Rightarrow> nat \<Rightarrow> u32" where
  "le32 b i = getInt (drop (4 * i) b)"

definition blk0 :: "u32 list \<Rightarrow> nat \<Rightarrow> u32 list" where
  "blk0 l i = l[i := (rol (l ! i) 24 AND 0xFF00FF00) OR (rol (l ! i) 8 AND 0x00FF00FF)]"

definition blk :: "u32 list \<Rightarrow> nat \<Rightarrow> u32 list" where
  "blk l i = l[i mod 16 := rol (l ! ((i + 13) mod 16) XOR l ! ((i + 8) mod 16)
     XOR l ! ((i + 2) mod 16) XOR l ! (i mod 16)) 1]"

type_synonym regs = "u32 \<times> u32 \<times> u32 \<times> u32 \<times> u32"

text \<open>
  A round macro applied to the registers in the roles \<open>v, w, x, y, z\<close>: it changes \<open>z\<close> and
  \<open>w\<close>. Each line of the unrolled code is the next macro with the roles rotated by one
  place, which is the order of the result; after eighty lines every register is back in
  its own role.
\<close>

definition R0 :: "nat \<Rightarrow> regs \<times> u32 list \<Rightarrow> regs \<times> u32 list" where
  "R0 i = (\<lambda>((v, w, x, y, z), l). let l = blk0 l i in
     ((z + (((w AND (x XOR y)) XOR y) + l ! i + 0x5A827999 + rol v 5), v, rol w 30, x, y), l))"

definition R1 :: "nat \<Rightarrow> regs \<times> u32 list \<Rightarrow> regs \<times> u32 list" where
  "R1 i = (\<lambda>((v, w, x, y, z), l). let l = blk l i in
     ((z + (((w AND (x XOR y)) XOR y) + l ! (i mod 16) + 0x5A827999 + rol v 5), v, rol w 30, x, y), l))"

definition R2 :: "nat \<Rightarrow> regs \<times> u32 list \<Rightarrow> regs \<times> u32 list" where
  "R2 i = (\<lambda>((v, w, x, y, z), l). let l = blk l i in
     ((z + ((w XOR x XOR y) + l ! (i mod 16) + 0x6ED9EBA1 + rol v 5), v, rol w 30, x, y), l))"

definition R3 :: "nat \<Rightarrow> regs \<times> u32 list \<Rightarrow> regs \<times> u32 list" where
  "R3 i = (\<lambda>((v, w, x, y, z), l). let l = blk l i in
     ((z + ((((w OR x) AND y) OR (w AND x)) + l ! (i mod 16) + 0x8F1BBCDC + rol v 5), v, rol w 30, x, y), l))"

definition R4 :: "nat \<Rightarrow> regs \<times> u32 list \<Rightarrow> regs \<times> u32 list" where
  "R4 i = (\<lambda>((v, w, x, y, z), l). let l = blk l i in
     ((z + ((w XOR x XOR y) + l ! (i mod 16) + 0xCA62C1D6 + rol v 5), v, rol w 30, x, y), l))"

definition sha1_round :: "nat \<Rightarrow> regs \<times> u32 list \<Rightarrow> regs \<times> u32 list" where
  "sha1_round i =
     (if i < 16 then R0 i else if i < 20 then R1 i else if i < 40 then R2 i
      else if i < 60 then R3 i else R4 i)"

definition SHA1Transform :: "u32 list \<Rightarrow> bytes \<Rightarrow> u32 list" where
  "SHA1Transform st buf =
     (let block = map (le32 buf) [0..<16];
          ((a, b, c, d, e), _) =
            fold sha1_round [0..<80] ((st ! 0, st ! 1, st ! 2, st ! 3, st ! 4), block)
      in [st ! 0 + a, st ! 1 + b, st ! 2 + c, st ! 3 + d, st ! 4 + e])"

definition SHA1Init :: "SHA1_CTX \<Rightarrow> SHA1_CTX" where
  "SHA1Init context = context\<lparr>
     state := [0x67452301, 0xEFCDAB89, 0x98BADCFE, 0x10325476, 0xC3D2E1F0],
     count0 := 0, count1 := 0\<rparr>"

text \<open>The loop over whole blocks that are hashed straight from the data.\<close>

function SHA1Update_blocks :: "u32 list \<Rightarrow> bytes \<Rightarrow> nat \<Rightarrow> (u32 list \<times> nat) option" where
  "SHA1Update_blocks st data i =
     (if (i + 63) mod 2 ^ 32 < length data then
        (if i + 64 \<le> length data then
           SHA1Update_blocks (SHA1Transform st (take 64 (drop i data))) data (i + 64)
         else None)
      else Some (st, i))"
  by pat_completeness auto
termination
  by (relation "measure (\<lambda>(st, data, i). length data - i)") auto

declare SHA1Update_blocks.simps [simp del]

definition memcpy_at :: "'a list \<Rightarrow> nat \<Rightarrow> 'a list \<Rightarrow> 'a list option" where
  "memcpy_at dst j src =
     (if j + length src \<le> length dst then Some (take j dst @ src @ drop (j + length src) dst) else None)"

text \<open>\<open>len\<close> is the length of the data as the 32-bit argument carries it, so that only that
  many bytes are read.\<close>

definition SHA1Update :: "SHA1_CTX \<Rightarrow> bytes \<Rightarrow> SHA1_CTX option" where
  "SHA1Update context data =
     (let len = of_nat (length data) :: u32;
          data = take (unat len) data;
          j = count0 context;
          c0 = count0 context + push_bit 3 len;
          c1 = (if c0 < j then count1 context + 1 else count1 context) + drop_bit 29 len;
          context = context\<lparr>count0 := c0, count1 := c1\<rparr>;
          j = drop_bit 3 j AND 63
      in if j + len > 63 then
           Option.bind (memcpy_at (buffer context) (unat j) (take (64 - unat j) data)) (\<lambda>buf.
           let st = SHA1Transform (state context) buf; i = 64 - unat j in
           Option.bind (if unat len \<ge> 64 then SHA1Update_blocks st data i else Some (st, i))
             (\<lambda>(st, i).
           Option.bind (memcpy_at buf 0 (drop i data)) (\<lambda>buf.
             Some (context\<lparr>state := st, buffer := buf\<rparr>))))
         else
           Option.bind (memcpy_at (buffer context) (unat j) data) (\<lambda>buf.
             Some (context\<lparr>buffer := buf\<rparr>)))"

text \<open>The padding loop of the final step; the fuel bounds its iterations.\<close>

fun SHA1Final_pad :: "nat \<Rightarrow> SHA1_CTX \<Rightarrow> SHA1_CTX option" where
  "SHA1Final_pad fuel context =
     (if count0 context AND 504 \<noteq> 448 then
        (case fuel of 0 \<Rightarrow> None
         | Suc fuel \<Rightarrow> Option.bind (SHA1Update context [0]) (SHA1Final_pad fuel))
      else Some context)"

declare SHA1Final_pad.simps [simp del]

definition be_byte :: "u32 \<Rightarrow> nat \<Rightarrow> u8" where
  "be_byte w i = ucast (drop_bit ((3 - i mod 4) * 8) w AND 255)"

definition SHA1Final :: "SHA1_CTX \<Rightarrow> bytes option" where
  "SHA1Final context =
     (let finalcount = map (\<lambda>i. be_byte (if i \<ge> 4 then count0 context else count1 context) i) [0..<8]
      in Option.bind (SHA1Update context [0x80]) (\<lambda>context.
         Option.bind (SHA1Final_pad 64 context) (\<lambda>context.
         Option.bind (SHA1Update context finalcount) (\<lambda>context.
           Some (map (\<lambda>i. be_byte (state context ! (i div 4)) i) [0..<20])))))"

definition WebserverSHA1 :: "SHA1_CTX \<Rightarrow> bytes \<Rightarrow> bytes option" where
  "WebserverSHA1 ctx data =
     Option.bind (SHA1Update (SHA1Init ctx) data) SHA1Final"

subsection \<open>Whole blocks and the rest\<close>

fun hash_blocks :: "(u32 list \<Rightarrow> bytes \<Rightarrow> u32 list) \<Rightarrow> u32 list \<Rightarrow> bytes \<Rightarrow> u32 list" where
  "hash_blocks f st m = (if length m \<ge> 64 then hash_blocks f (f st (take 64 m)) (drop 64 m) else st)"

declare hash_blocks.simps [simp del]

definition rest64 :: "'a list \<Rightarrow> 'a list" where
  "rest64 m = drop (64 * (length m div 64)) m"

lemma length_rest64: "length (rest64 m) = length m mod 64"
  by (simp add: rest64_def minus_mult_div_eq_mod)

lemma rest64_short: "length m < 64 \<Longrightarrow> rest64 m = m"
  by (simp add: rest64_def)

lemma rest64_drop: "length m \<ge> 64 \<Longrightarrow> rest64 m = rest64 (drop 64 m)"
proof -
  assume "length m \<ge> 64"
  then have "length m div 64 = Suc ((length m - 64) div 64)" by (simp add: le_div_geq)
  then show ?thesis by (simp add: rest64_def add.commute)
qed

lemma hash_blocks_short: "length m < 64 \<Longrightarrow> hash_blocks f st m = st"
  by (subst hash_blocks.simps) simp

lemma hash_blocks_append:
  "hash_blocks f st (x @ y) = hash_blocks f (hash_blocks f st x) (rest64 x @ y) \<and>
   rest64 (x @ y) = rest64 (rest64 x @ y)"
proof (induction f st x rule: hash_blocks.induct)
  case (1 f st x)
  show ?case
  proof (cases "length x \<ge> 64")
    case True
    then have "hash_blocks f st (x @ y) = hash_blocks f (f st (take 64 x)) (drop 64 x @ y)"
      "hash_blocks f st x = hash_blocks f (f st (take 64 x)) (drop 64 x)"
      by (simp_all add: hash_blocks.simps [of f st])
    moreover have "rest64 (x @ y) = rest64 (drop 64 x @ y)"
      using True rest64_drop [of "x @ y"] by simp
    ultimately show ?thesis using 1 [OF True] rest64_drop [OF True] by simp
  next
    case False
    then show ?thesis by (simp add: rest64_short hash_blocks_short)
  qed
qed

lemmas hash_blocks_app = hash_blocks_append [THEN conjunct1]

lemma rest64_app: "rest64 (x @ y :: bytes) = rest64 (rest64 x @ y)"
  using hash_blocks_append [of "\<lambda>st b. st" "[]" x y] by blast

lemma hash_blocks_step:
  "length m \<ge> 64 \<Longrightarrow> hash_blocks f st m = hash_blocks f (f st (take 64 m)) (drop 64 m)"
  by (subst hash_blocks.simps) simp

subsection \<open>The update\<close>

definition bits :: "SHA1_CTX \<Rightarrow> nat" where
  "bits c = unat (count1 c) * 2 ^ 32 + unat (count0 c)"

definition fill :: "SHA1_CTX \<Rightarrow> nat" where
  "fill c = unat (drop_bit 3 (count0 c) AND 63)"

definition pending :: "SHA1_CTX \<Rightarrow> bytes" where
  "pending c = take (fill c) (buffer c)"

definition ctx_wf :: "SHA1_CTX \<Rightarrow> bool" where
  "ctx_wf c \<longleftrightarrow> length (buffer c) = 64"

lemma unat_and63: "unat (w AND 63 :: u32) = unat w mod 64"
proof -
  have "w AND 63 = take_bit 6 w" by (simp add: take_bit_eq_mask mask_numeral)
  then show ?thesis by (simp only: unsigned_take_bit_eq) (simp add: take_bit_eq_mod)
qed

lemma fill_eq: "fill c = unat (count0 c) div 8 mod 64"
  by (simp only: fill_def unat_and63 unat_drop_bit_eq) (simp add: drop_bit_eq_div)

lemma fill_bits: "fill c = bits c div 8 mod 64"
proof -
  have "bits c = unat (count0 c) + (unat (count1 c) * 2 ^ 23) * 512" by (simp add: bits_def)
  then have "bits c mod 512 = unat (count0 c) mod 512" by (simp only: mod_mult_self1)
  moreover have "n div 8 mod 64 = n mod 512 div 8" for n :: nat
    using mod_mult2_eq [of n 8 64] by simp
  ultimately show ?thesis by (simp add: fill_eq)
qed

lemma fill_less: "fill c < 64"
  by (simp add: fill_eq)

lemma length_pending: "ctx_wf c \<Longrightarrow> length (pending c) = fill c"
  using fill_less [of c] by (simp add: pending_def ctx_wf_def)

lemma mod_square_split: "b < M \<Longrightarrow> (a * M + b) mod (M * M) = a mod M * M + b" for a b M :: nat
  by (simp add: mod_mult2_eq [of _ M M])

text \<open>The pair of 32-bit counters is one 64-bit counter of message bits.\<close>

lemma add64:
  fixes c0 c1 len :: u32
  defines "n0 \<equiv> c0 + push_bit 3 len"
  defines "n1 \<equiv> (if n0 < c0 then c1 + 1 else c1) + drop_bit 29 len"
  shows "unat n1 * 2 ^ 32 + unat n0 = (unat c1 * 2 ^ 32 + unat c0 + 8 * unat len) mod 2 ^ 64"
proof -
  let ?M = "4294967296 :: nat"
  define p where "p = 8 * unat len mod ?M"
  define h where "h = unat len div 536870912"
  have u: "unat c0 < ?M" "p < ?M"
    using unsigned_less [of c0] by (simp_all add: p_def)
  have up: "unat (push_bit 3 len) = p"
    by (simp add: push_bit_eq_mult unat_word_ariths mult.commute p_def)
  have n0: "unat n0 = (unat c0 + p) mod ?M"
    by (simp add: n0_def unat_word_ariths up)
  have len: "8 * unat len = h * ?M + p"
    using div_mult_mod_eq [of "8 * unat len" ?M] by (simp add: p_def h_def)
  have n0': "unat n0 = (if unat c0 + p < ?M then unat c0 + p else unat c0 + p - ?M)"
    using u by (simp add: n0 mod_if)
  then have carry: "n0 < c0 \<longleftrightarrow> \<not> unat c0 + p < ?M"
    using u by (auto simp: word_less_nat_alt)
  define k where "k = (if n0 < c0 then 1 else 0 :: nat)"
  have n1: "unat n1 = (unat c1 + k + h) mod ?M"
  proof -
    have "unat (drop_bit 29 len) = h"
      by (simp only: unat_drop_bit_eq) (simp add: drop_bit_eq_div h_def)
    then show ?thesis by (simp add: n1_def k_def unat_word_ariths mod_simps)
  qed
  have exact: "(unat c1 + k + h) * ?M + unat n0 = unat c1 * ?M + unat c0 + 8 * unat len"
    using carry n0' len by (simp add: k_def algebra_simps)
  have "unat n0 < ?M" using unsigned_less [of n0] by simp
  then have "((unat c1 + k + h) mod ?M) * ?M + unat n0 =
      ((unat c1 + k + h) * ?M + unat n0) mod (?M * ?M)"
    by (simp only: mod_square_split)
  then show ?thesis unfolding exact n1 by simp
qed

lemma SHA1Update_blocks_eq:
  assumes "length data + 63 < 2 ^ 32" "i \<le> length data"
  shows "SHA1Update_blocks st data i =
     Some (hash_blocks SHA1Transform st (drop i data), length data - (length data - i) mod 64)"
  using assms
proof (induction st data i rule: SHA1Update_blocks.induct)
  case (1 st data i)
  have wrap: "(i + 63) mod 2 ^ 32 = i + 63" using 1(2,3) by simp
  show ?case
  proof (cases "i + 63 < length data")
    case True
    then have "(length data - i) mod 64 = (length data - (i + 64)) mod 64"
      by (simp add: le_mod_geq)
    with True 1 wrap show ?thesis
      by (subst SHA1Update_blocks.simps) (simp add: hash_blocks_step add.commute)
  next
    case False
    with 1(3) wrap show ?thesis
      by (subst SHA1Update_blocks.simps) (simp add: hash_blocks_short)
  qed
qed

lemma memcpy_at_eq:
  "j + length src \<le> length dst \<Longrightarrow> memcpy_at dst j src = Some (take j dst @ src @ drop (j + length src) dst)"
  by (simp add: memcpy_at_def)

lemma take_length_append: "take (length xs) (xs @ ys) = xs"
  by simp

lemma ctx_upd:
  "buffer (c\<lparr>state := s, buffer := b\<rparr>) = b" "state (c\<lparr>state := s, buffer := b\<rparr>) = s"
  by simp_all

lemma SHA1Update_spec:
  assumes wf: "ctx_wf c" and len: "length data + 64 \<le> 2 ^ 32"
  shows "\<exists>c'. SHA1Update c data = Some c' \<and> ctx_wf c' \<and>
     state c' = hash_blocks SHA1Transform (state c) (pending c @ data) \<and>
     pending c' = rest64 (pending c @ data) \<and>
     bits c' = (bits c + 8 * length data) mod 2 ^ 64"
proof -
  define L where "L = (of_nat (length data) :: u32)"
  define n0 where "n0 = count0 c + push_bit 3 L"
  define n1 where "n1 = (if n0 < count0 c then count1 c + 1 else count1 c) + drop_bit 29 L"
  define c1 where "c1 = c\<lparr>count0 := n0, count1 := n1\<rparr>"
  define j where "j = (drop_bit 3 (count0 c) AND 63 :: u32)"
  have uL: "unat L = length data" using len by (simp add: L_def unat_of_nat)
  have uj: "unat j = fill c" by (simp add: j_def fill_def)
  have jl: "j + L > 63 \<longleftrightarrow> fill c + length data > 63"
    using len fill_less [of c] by (simp add: word_less_nat_alt unat_word_ariths uj uL)
  have b: "bits (c1\<lparr>state := s, buffer := b\<rparr>) = (bits c + 8 * length data) mod 2 ^ 64" for s b
    using add64 [of "count0 c" L "count1 c"] by (simp add: bits_def c1_def n0_def n1_def uL)
  have f: "fill (c1\<lparr>state := s, buffer := b\<rparr>) = (fill c + length data) mod 64" for s b
  proof -
    have "(bits c + 8 * length data) mod 2 ^ 64 div 8 mod 64 = (bits c + 8 * length data) div 8 mod 64"
      using mod_mult2_eq [of "bits c + 8 * length data" 8 "2 ^ 61"]
      by (simp add: mod_mod_cancel)
    then show ?thesis by (simp add: fill_bits b mod_simps) (simp add: add.commute)
  qed
  have lb: "length (buffer c) = 64" using wf by (simp add: ctx_wf_def)
  have lp: "length (pending c) = fill c" using wf by (rule length_pending)
  have s1: "state c1 = state c" "buffer c1 = buffer c" by (simp_all add: c1_def)
  have U: "SHA1Update c data =
      (if fill c + length data > 63 then
         Option.bind (memcpy_at (buffer c) (fill c) (take (64 - fill c) data)) (\<lambda>buf.
         Option.bind (if length data \<ge> 64
             then SHA1Update_blocks (SHA1Transform (state c) buf) data (64 - fill c)
             else Some (SHA1Transform (state c) buf, 64 - fill c)) (\<lambda>(st, i).
         Option.bind (memcpy_at buf 0 (drop i data)) (\<lambda>buf. Some (c1\<lparr>state := st, buffer := buf\<rparr>))))
       else Option.bind (memcpy_at (buffer c) (fill c) data) (\<lambda>buf. Some (c1\<lparr>buffer := buf\<rparr>)))"
    unfolding SHA1Update_def Let_def L_def [symmetric] j_def [symmetric]
      n0_def [symmetric] n1_def [symmetric] c1_def [symmetric] jl uj uL
      take_all [OF order_refl] s1 ..
  show ?thesis
  proof (cases "fill c + length data > 63")
    case False
    let ?buf = "take (fill c) (buffer c) @ data @ drop (fill c + length data) (buffer c)"
    have "SHA1Update c data = Some (c1\<lparr>buffer := ?buf\<rparr>)"
      using U False lb by (simp add: memcpy_at_eq)
    moreover have "c1\<lparr>buffer := ?buf\<rparr> = c1\<lparr>state := state c1, buffer := ?buf\<rparr>" by simp
    moreover have "state c1 = state c" by (simp add: c1_def)
    ultimately show ?thesis
      using False lb lp b [of ?buf "state c1"] f [of ?buf "state c1"]
      by (simp add: ctx_wf_def pending_def hash_blocks_short rest64_short)
  next
    case True
    let ?k = "64 - fill c" and ?buf = "pending c @ take (64 - fill c) data"
    have k: "?k \<le> length data" using True by simp
    have m: "memcpy_at (buffer c) (fill c) (take ?k data) = Some ?buf"
      using lb k fill_less [of c] by (simp add: memcpy_at_eq pending_def)
    have h: "hash_blocks SHA1Transform (state c) (pending c @ data) =
        hash_blocks SHA1Transform (SHA1Transform (state c) ?buf) (drop ?k data)"
      using True lp k fill_less [of c] by (subst hash_blocks_step) simp_all
    let ?i = "length data - (length data - ?k) mod 64"
    let ?st = "hash_blocks SHA1Transform (SHA1Transform (state c) ?buf) (drop ?k data)"
    have blocks: "(if length data \<ge> 64
             then SHA1Update_blocks (SHA1Transform (state c) ?buf) data ?k
             else Some (SHA1Transform (state c) ?buf, ?k)) = Some (?st, ?i)"
    proof (cases "length data \<ge> 64")
      case True
      then show ?thesis using len k by (simp add: SHA1Update_blocks_eq)
    next
      case False
      then show ?thesis using k by (simp add: hash_blocks_short)
    qed
    have r: "rest64 (pending c @ data) = drop ?i data"
    proof -
      let ?n = "fill c + length data" and ?r = "(length data - ?k) mod 64"
      have sub: "q - f = d - r" "f \<le> q" if "q = f + d - r" "r \<le> d" for q f d r :: nat
        using that by simp_all
      have "?n mod 64 = ?r"
        using True fill_less [of c] by (simp add: le_mod_geq add.commute)
      then have "64 * (?n div 64) = ?n - ?r"
        using minus_mod_eq_mult_div [of ?n 64] by simp
      moreover have "?r \<le> length data"
        using mod_less_eq_dividend [of "length data - ?k" 64] diff_le_self [of "length data" ?k] by (rule order_trans)
      ultimately have "64 * (?n div 64) - fill c = ?i" "fill c \<le> 64 * (?n div 64)"
        by (rule sub)+
      then show ?thesis by (simp add: rest64_def lp)
    qed
    let ?buf' = "drop ?i data @ drop (length data - ?i) ?buf"
    have d64: "length (drop ?i data) \<le> 64" by simp
    then have m': "memcpy_at ?buf 0 (drop ?i data) = Some ?buf'"
      using lp k fill_less [of c] by (simp add: memcpy_at_eq)
    let ?c = "c1\<lparr>state := ?st, buffer := ?buf'\<rparr>"
    have "SHA1Update c data = Some ?c"
      using U True m blocks m' by simp
    moreover have "pending ?c = rest64 (pending c @ data)"
    proof -
      have "fill ?c = length (drop ?i data)"
        unfolding f using arg_cong [OF r, of length] lp by (simp only: length_rest64 length_append)
      moreover have "buffer ?c = ?buf'" by (rule ctx_upd)
      ultimately have "pending ?c = drop ?i data"
        unfolding pending_def [of ?c] by (simp only: take_length_append)
      then show ?thesis using r by (simp only:)
    qed
    moreover have "ctx_wf ?c"
    proof -
      have "length ?buf = 64" using lp k fill_less [of c] by simp
      moreover have "length data - ?i \<le> 64" using d64 by (simp only: length_drop)
      ultimately have "length ?buf' = 64"
        by (simp only: length_append [of "drop ?i data"] length_drop le_add_diff_inverse)
      then show ?thesis by (simp only: ctx_wf_def ctx_upd)
    qed
    moreover have "state ?c = hash_blocks SHA1Transform (state c) (pending c @ data)"
      unfolding h by (rule ctx_upd)
    ultimately show ?thesis using b by blast
  qed
qed

subsection \<open>Updates form an incremental consumer\<close>

definition sha1_feed :: "SHA1_CTX \<Rightarrow> bytes \<Rightarrow> SHA1_CTX" where
  "sha1_feed c data = the (SHA1Update c data)"

definition sha1_obs :: "SHA1_CTX \<Rightarrow> u32 list \<times> bytes \<times> nat" where
  "sha1_obs c = (state c, pending c, bits c)"

definition sha1_admits :: "bytes \<Rightarrow> bool" where
  "sha1_admits data \<longleftrightarrow> length data + 64 \<le> 2 ^ 32"

lemma sha1_feed_spec:
  assumes "ctx_wf c" "sha1_admits data"
  shows "SHA1Update c data = Some (sha1_feed c data)" "ctx_wf (sha1_feed c data)"
    "sha1_obs (sha1_feed c data) =
       (hash_blocks SHA1Transform (state c) (pending c @ data), rest64 (pending c @ data),
        (bits c + 8 * length data) mod 2 ^ 64)"
  using SHA1Update_spec [of c data] assms by (auto simp: sha1_feed_def sha1_obs_def sha1_admits_def)

lemma bits_less: "bits c < 2 ^ 64"
proof -
  have "unat (count1 c) < 2 ^ 32" "unat (count0 c) < 2 ^ 32"
    using unsigned_less [of "count1 c"] unsigned_less [of "count0 c"] by simp_all
  then show ?thesis by (simp add: bits_def)
qed

lemma pending_rest64: "ctx_wf c \<Longrightarrow> rest64 (pending c) = pending c"
  using fill_less [of c] by (simp add: rest64_short length_pending)

interpretation sha1: chunked sha1_feed ctx_wf sha1_admits sha1_obs
proof (standard, goal_cases)
  case (1 c)
  then have "sha1_admits []" by (simp add: sha1_admits_def)
  with 1 show ?case
    using bits_less [of c] fill_less [of c]
    by (simp add: sha1_feed_spec(3)) (simp add: sha1_obs_def pending_rest64 hash_blocks_short length_pending)
next
  case (2 c a b)
  then have ad: "sha1_admits a" "sha1_admits b" by (simp_all add: sha1_admits_def)
  note fa = sha1_feed_spec [OF 2(1) ad(1)]
  have "(state (sha1_feed c a), pending (sha1_feed c a), bits (sha1_feed c a)) =
      (hash_blocks SHA1Transform (state c) (pending c @ a), rest64 (pending c @ a),
       (bits c + 8 * length a) mod 2 ^ 64)"
    using fa(3) by (simp add: sha1_obs_def)
  moreover have "((bits c + 8 * length a) mod 2 ^ 64 + 8 * length b) mod 2 ^ 64 =
      (bits c + 8 * length (a @ b)) mod 2 ^ 64"
    by (simp add: mod_simps algebra_simps)
  ultimately show ?case
    using sha1_feed_spec(3) [OF fa(2) ad(2)] sha1_feed_spec(3) [OF 2]
      hash_blocks_app [of SHA1Transform "state c" "pending c @ a" b]
      rest64_app [of "pending c @ a" b] by simp
next
  case (3 s t a)
  then show ?case by (simp add: sha1_feed_spec(3)) (simp add: sha1_obs_def)
next
  case (4 s a)
  then show ?case by (rule sha1_feed_spec(2))
next
  case (5 a b)
  then show ?case by (simp add: sha1_admits_def)
qed

subsection \<open>The reference: FIPS 180\<close>

definition fips_f :: "nat \<Rightarrow> u32 \<Rightarrow> u32 \<Rightarrow> u32 \<Rightarrow> u32" where
  "fips_f t x y z =
     (if t < 20 then (x AND y) XOR (NOT x AND z)
      else if t < 40 then x XOR y XOR z
      else if t < 60 then (x AND y) XOR (x AND z) XOR (y AND z)
      else x XOR y XOR z)"

definition fips_K :: "nat \<Rightarrow> u32" where
  "fips_K t =
     (if t < 20 then 0x5A827999 else if t < 40 then 0x6ED9EBA1
      else if t < 60 then 0x8F1BBCDC else 0xCA62C1D6)"

definition be32 :: "bytes \<Rightarrow> nat \<Rightarrow> u32" where
  "be32 b i = push_bit 24 (ucast (b ! (4 * i))) OR push_bit 16 (ucast (b ! (4 * i + 1))) OR
     push_bit 8 (ucast (b ! (4 * i + 2))) OR ucast (b ! (4 * i + 3))"

fun fips_W :: "bytes \<Rightarrow> nat \<Rightarrow> u32" where
  "fips_W b t =
     (if t < 16 then be32 b t
      else rol (fips_W b (t - 3) XOR fips_W b (t - 8) XOR fips_W b (t - 14) XOR fips_W b (t - 16)) 1)"

declare fips_W.simps [simp del]

definition fips_step :: "bytes \<Rightarrow> nat \<Rightarrow> regs \<Rightarrow> regs" where
  "fips_step m t = (\<lambda>(a, b, c, d, e).
     (rol a 5 + fips_f t b c d + e + fips_K t + fips_W m t, a, rol b 30, c, d))"

definition fips_compress :: "u32 list \<Rightarrow> bytes \<Rightarrow> u32 list" where
  "fips_compress H m =
     (let (a, b, c, d, e) = fold (fips_step m) [0..<80] (H ! 0, H ! 1, H ! 2, H ! 3, H ! 4)
      in [a + H ! 0, b + H ! 1, c + H ! 2, d + H ! 3, e + H ! 4])"

definition fips_pad :: "bytes \<Rightarrow> bytes" where
  "fips_pad m = m @ [0x80] @ replicate ((119 - length m mod 64) mod 64) 0 @
     map (\<lambda>i. of_nat (8 * length m div 256 ^ (7 - i))) [0..<8]"

definition fips_H0 :: "u32 list" where
  "fips_H0 = [0x67452301, 0xEFCDAB89, 0x98BADCFE, 0x10325476, 0xC3D2E1F0]"

definition fips_sha1 :: "bytes \<Rightarrow> bytes" where
  "fips_sha1 m =
     concat (map (\<lambda>w. map (\<lambda>i. of_nat (unat w div 256 ^ (3 - i))) [0..<4])
       (hash_blocks fips_compress fips_H0 (fips_pad m)))"

subsection \<open>The circular schedule computes the reference schedule\<close>

lemma Ch_eq: "((w AND (x XOR y)) XOR y :: u32) = (w AND x) XOR (NOT w AND y)"
  by (rule bit_word_eqI) (auto simp: bit_simps)

lemma Maj_eq: "(((w OR x) AND y) OR (w AND x) :: u32) = (w AND x) XOR (w AND y) XOR (x AND y)"
  by (rule bit_word_eqI) (auto simp: bit_simps)

lemma getInt_or:
  "getInt (a # b # c # d # r) =
     ucast a OR push_bit 8 (ucast b) OR push_bit 16 (ucast c) OR push_bit 24 (ucast d)"
proof -
  have 1: "(ucast a :: u32) + push_bit 8 (ucast b) = ucast a OR push_bit 8 (ucast b)"
    by (rule disjunctive_add) (auto simp: bit_simps dest: bit_imp_le_length)
  have 2: "(ucast a OR push_bit 8 (ucast b) :: u32) + push_bit 16 (ucast c) =
      ucast a OR push_bit 8 (ucast b) OR push_bit 16 (ucast c)"
    by (subst disjunctive_add) (auto simp: bit_simps or.assoc dest: bit_imp_le_length)
  have 3: "(ucast a OR push_bit 8 (ucast b) OR push_bit 16 (ucast c) :: u32) + push_bit 24 (ucast d) =
      ucast a OR push_bit 8 (ucast b) OR push_bit 16 (ucast c) OR push_bit 24 (ucast d)"
    by (subst disjunctive_add) (auto simp: bit_simps or.assoc dest: bit_imp_le_length)
  show ?thesis
    unfolding getInt_def by (simp only: bget_def) (simp add: 1 2 3)
qed

lemma byteswap:
  fixes a b c d :: u8
  defines "l \<equiv> ucast a OR push_bit 8 (ucast b) OR push_bit 16 (ucast c) OR push_bit 24 (ucast d) :: u32"
  shows "(rol l 24 AND 0xFF00FF00) OR (rol l 8 AND 0x00FF00FF) =
     push_bit 24 (ucast a) OR push_bit 16 (ucast b) OR push_bit 8 (ucast c) OR ucast d"
proof (rule bit_word_eqI)
  fix n :: nat
  assume "n < LENGTH(32)"
  have m: "(0xFF00FF00 :: u32) = push_bit 24 (mask 8) OR push_bit 8 (mask 8)"
    "(0x00FF00FF :: u32) = push_bit 16 (mask 8) OR mask 8"
    by (simp_all add: mask_numeral)
  consider "n < 8" | "8 \<le> n" "n < 16" | "16 \<le> n" "n < 24" | "24 \<le> n" "n < 32"
    using \<open>n < LENGTH(32)\<close> by fastforce
  then show "bit ((rol l 24 AND 0xFF00FF00) OR (rol l 8 AND 0x00FF00FF)) n =
      bit (push_bit 24 (ucast a) OR push_bit 16 (ucast b) OR push_bit 8 (ucast c) OR ucast d :: u32) n"
    unfolding m by cases (auto simp: l_def rol_def bit_simps dest: bit_imp_le_length)
qed

lemma blk0_eq:
  assumes "length m = 64" "i < 16"
  shows "(rol (le32 m i) 24 AND 0xFF00FF00) OR (rol (le32 m i) 8 AND 0x00FF00FF) = be32 m i"
proof -
  have "drop (4 * i) m = m ! (4 * i) # m ! (4 * i + 1) # m ! (4 * i + 2) # m ! (4 * i + 3) # drop (4 * i + 4) m"
    using assms by (simp add: Cons_nth_drop_Suc numeral_eq_Suc)
  then have "le32 m i = getInt (m ! (4 * i) # m ! (4 * i + 1) # m ! (4 * i + 2) # m ! (4 * i + 3) # drop (4 * i + 4) m)"
    by (simp only: le32_def)
  then show ?thesis by (simp only: getInt_or byteswap be32_def)
qed


definition sched :: "bytes \<Rightarrow> nat \<Rightarrow> u32 list" where
  "sched m t = map (\<lambda>j. if j < t then fips_W m (j + 16 * ((t - 1 - j) div 16)) else le32 m j) [0..<16]"

lemma length_sched: "length (sched m t) = 16"
  by (simp add: sched_def)

lemma sched_nth: "j < 16 \<Longrightarrow> sched m t ! j = (if j < t then fips_W m (j + 16 * ((t - 1 - j) div 16)) else le32 m j)"
  by (simp add: sched_def)

text \<open>Slot \<open>s mod 16\<close> holds the word of the most recent round \<open>s\<close> that wrote it.\<close>

lemma sched_recent:
  assumes "s < t" "t \<le> s + 16"
  shows "sched m t ! (s mod 16) = fips_W m s"
proof -
  have "t - 1 - s mod 16 = (t - 1 - s) + 16 * (s div 16)"
    using assms div_mult_mod_eq [of s 16] by linarith
  moreover have "(t - 1 - s) div 16 = 0" using assms by simp
  ultimately have "(t - 1 - s mod 16) div 16 = s div 16" by simp
  moreover have "s mod 16 < t" using assms(1) mod_less_eq_dividend [of s 16] by linarith
  ultimately show ?thesis by (simp add: sched_nth)
qed

lemma sched_Suc: "sched m (Suc t) = (sched m t)[t mod 16 := fips_W m t]"
proof (rule nth_equalityI)
  show "length (sched m (Suc t)) = length ((sched m t)[t mod 16 := fips_W m t])" by (simp add: length_sched)
  fix j assume "j < length (sched m (Suc t))"
  then have j: "j < 16" by (simp add: length_sched)
  show "sched m (Suc t) ! j = (sched m t)[t mod 16 := fips_W m t] ! j"
  proof (cases "j = t mod 16")
    case True
    then show ?thesis using sched_recent [of t "Suc t" m] by (simp add: length_sched)
  next
    case False
    show ?thesis
    proof (cases "j < t")
      case True
      have "(t - j) mod 16 \<noteq> 0"
      proof
        assume "(t - j) mod 16 = 0"
        then have "t mod 16 = j mod 16" using True by (metis mod_eq_dvd_iff_nat less_imp_le dvd_eq_mod_eq_0)
        then show False using False j by simp
      qed
      then have "(t - j) div 16 = (t - 1 - j) div 16"
        using div_Suc [of "t - 1 - j" 16] True by (simp add: Suc_diff_Suc)
      then show ?thesis using True False j by (simp add: sched_nth length_sched)
    next
      case nt: False
      then have "j \<noteq> t" using False j by auto
      then show ?thesis using nt False j by (simp add: sched_nth length_sched)
    qed
  qed
qed

lemma blk0_sched: "length m = 64 \<Longrightarrow> t < 16 \<Longrightarrow> blk0 (sched m t) t = sched m (Suc t)"
  by (simp add: blk0_def sched_Suc sched_nth blk0_eq fips_W.simps)

lemma blk_sched:
  assumes "16 \<le> t"
  shows "blk (sched m t) t = sched m (Suc t)"
proof -
  have slot: "(t + k) mod 16 = (t - (16 - k)) mod 16" if "k \<le> 16" for k
  proof -
    have "t + k = (t - (16 - k)) + 16" using assms that by simp
    then show ?thesis by (simp only: mod_add_self2)
  qed
  have "sched m t ! ((t + k) mod 16) = fips_W m (t - (16 - k))" if "k < 16" for k
    unfolding slot [OF less_imp_le [OF that]] using assms that by (intro sched_recent) simp_all
  from this [of 13] this [of 8] this [of 2] this [of 0] show ?thesis
    using assms by (simp add: blk_def sched_Suc fips_W.simps [of m t])
qed

lemma sha1_round_eq:
  assumes "length m = 64" "t < 80"
  shows "sha1_round t (r, sched m t) = (fips_step m t r, sched m (Suc t))"
proof -
  obtain v w x y z where r: "r = (v, w, x, y, z)" by (cases r)
  have nth: "sched m (Suc t) ! (t mod 16) = fips_W m t" by (rule sched_recent) simp_all
  show ?thesis
  proof (cases "t < 16")
    case True
    then show ?thesis
      using nth assms by (simp add: r sha1_round_def R0_def blk0_sched Ch_eq fips_step_def fips_f_def fips_K_def Let_def add_ac)
  next
    case False
    then show ?thesis
      using nth by (simp add: r sha1_round_def R1_def R2_def R3_def R4_def blk_sched Ch_eq Maj_eq
          fips_step_def fips_f_def fips_K_def Let_def add_ac)
  qed
qed

lemma sha1_rounds_eq:
  assumes "length m = 64"
  shows "n \<le> 80 \<Longrightarrow> fold sha1_round [0..<n] (r, sched m 0) = (fold (fips_step m) [0..<n] r, sched m n)"
  by (induction n) (simp_all add: sha1_round_eq assms)

lemma SHA1Transform_eq:
  assumes "length m = 64"
  shows "SHA1Transform st m = fips_compress st m"
proof -
  have "map (le32 m) [0..<16] = sched m 0" by (simp add: sched_def)
  then show ?thesis
    using sha1_rounds_eq [OF assms, of 80]
    by (simp add: SHA1Transform_def fips_compress_def Let_def add.commute split: prod.splits)
qed

lemma hash_blocks_eq: "hash_blocks SHA1Transform st m = hash_blocks fips_compress st m"
proof (induction SHA1Transform st m rule: hash_blocks.induct)
  case (1 st m)
  then show ?case by (subst (1 2) hash_blocks.simps) (simp add: SHA1Transform_eq)
qed

subsection \<open>Padding and digest\<close>

definition represents :: "SHA1_CTX \<Rightarrow> bytes \<Rightarrow> bool" where
  "represents c m \<longleftrightarrow> ctx_wf c \<and> state c = hash_blocks fips_compress fips_H0 m \<and>
     pending c = rest64 m \<and> bits c = 8 * length m mod 2 ^ 64"

lemma represents_init: "length (buffer ctx) = 64 \<Longrightarrow> represents (SHA1Init ctx) []"
  by (simp add: represents_def SHA1Init_def ctx_wf_def hash_blocks_short fips_H0_def
      rest64_short pending_def fill_eq bits_def)

lemma represents_update:
  assumes "represents c m" "length d + 64 \<le> 2 ^ 32"
  shows "\<exists>c'. SHA1Update c d = Some c' \<and> represents c' (m @ d)"
proof -
  from assms(1) have wf: "ctx_wf c" by (simp add: represents_def)
  have "(8 * length m mod 2 ^ 64 + 8 * length d) mod 2 ^ 64 = 8 * length (m @ d) mod 2 ^ 64"
    by (simp add: mod_simps algebra_simps)
  with SHA1Update_spec [OF wf assms(2)] assms(1) show ?thesis
    using hash_blocks_app [of fips_compress fips_H0 m d] rest64_app [of m d]
    by (auto simp: represents_def hash_blocks_eq)
qed

lemma represents_fill: "represents c m \<Longrightarrow> fill c = length m mod 64"
  by (metis represents_def length_pending length_rest64)

lemma pad_test: "count0 c AND 504 = 448 \<longleftrightarrow> fill c = 56"
proof -
  have m: "(504 :: u32) = push_bit 3 (mask 6)" "(63 :: u32) = mask 6" by (simp_all add: mask_numeral)
  have d: "drop_bit 3 (count0 c AND 504) = drop_bit 3 (count0 c) AND 63"
    unfolding m by (rule bit_word_eqI) (auto simp: bit_simps)
  have p: "count0 c AND 504 = push_bit 3 (drop_bit 3 (count0 c) AND 63)"
    unfolding m by (rule bit_word_eqI) (auto simp: bit_simps)
  have "count0 c AND 504 = 448 \<longleftrightarrow> drop_bit 3 (count0 c) AND 63 = 56"
  proof
    assume "count0 c AND 504 = 448"
    then have "drop_bit 3 (count0 c) AND 63 = drop_bit 3 448" by (simp only: d [symmetric])
    then show "drop_bit 3 (count0 c) AND 63 = 56" by simp
  next
    assume "drop_bit 3 (count0 c) AND 63 = 56"
    then have "count0 c AND 504 = push_bit 3 56" by (simp only: p)
    then show "count0 c AND 504 = 448" by simp
  qed
  also have "\<dots> \<longleftrightarrow> fill c = 56" unfolding fill_def by (subst word_unat_eq_iff) simp
  finally show ?thesis .
qed

lemma SHA1Final_pad_zeros:
  assumes "represents c m" "(length m + k) mod 64 = 56" "k < 64" "k \<le> fuel"
  shows "\<exists>c'. SHA1Final_pad fuel c = Some c' \<and> represents c' (m @ replicate k 0)"
  using assms
proof (induction k arbitrary: c m fuel)
  case 0
  then have "count0 c AND 504 = 448" by (simp only: pad_test represents_fill) simp
  with 0 show ?case by (subst SHA1Final_pad.simps) simp
next
  case (Suc k)
  have "length m mod 64 \<noteq> 56"
  proof
    assume "length m mod 64 = 56"
    then have "Suc k mod 64 = 0"
      using Suc.prems(2) mod_add_left_eq [of "length m" 64 "Suc k"] Suc.prems(3)
      by (auto simp: mod_if split: if_splits)
    then show False using Suc.prems(3) by simp
  qed
  then have t: "count0 c AND 504 \<noteq> 448" using Suc.prems(1) by (simp only: pad_test represents_fill) simp
  obtain c' where c': "SHA1Update c [0] = Some c'" "represents c' (m @ [0])"
    using represents_update [OF Suc.prems(1), of "[0]"] by auto
  obtain f where f: "fuel = Suc f" using Suc.prems(4) by (cases fuel) auto
  have "\<exists>c''. SHA1Final_pad f c' = Some c'' \<and> represents c'' ((m @ [0]) @ replicate k 0)"
    using Suc.IH [OF c'(2), of f] Suc.prems(2,3,4) f by simp
  then show ?case using t c'(1) f by (subst SHA1Final_pad.simps) simp
qed

lemma unat_be_byte: "unat (be_byte w i) = unat w div 2 ^ ((3 - i mod 4) * 8) mod 256"
proof -
  have m: "(255 :: u32) = mask 8" by (simp add: mask_numeral)
  have "(ucast (x AND 255) :: u8) = ucast x" for x :: u32
    unfolding m by (rule bit_word_eqI) (auto simp: bit_simps)
  then have "be_byte w i = ucast (drop_bit ((3 - i mod 4) * 8) w)" by (simp only: be_byte_def)
  moreover have "unat (ucast x :: u8) = unat x mod 256" for x :: u32
    by (simp only: unsigned_ucast_eq take_bit_eq_mod) simp
  ultimately show ?thesis
    by (simp only: unat_drop_bit_eq) (simp only: drop_bit_eq_div)
qed

lemma be_byte_eq: "be_byte w i = of_nat (unat w div 256 ^ (3 - i mod 4))"
proof -
  have "(2::nat) ^ ((3 - i mod 4) * 8) = 256 ^ (3 - i mod 4)"
    by (subst mult.commute) (simp add: power_mult)
  then show ?thesis by (simp add: word_unat_eq_iff unat_be_byte unat_of_nat)
qed

lemma mod_div_mod: "(N mod 4294967296) div 2 ^ s mod 256 = N div 2 ^ s mod 256" if "s + 8 \<le> 32" for N s :: nat
proof -
  have "take_bit 8 (drop_bit s (take_bit 32 N)) = take_bit 8 (drop_bit s N)"
    using that by (intro bit_eqI) (auto simp: bit_simps)
  then show ?thesis by (simp add: take_bit_eq_mod drop_bit_eq_div)
qed

lemma finalcount_eq:
  assumes "bits c = N"
  shows "map (\<lambda>i. be_byte (if i \<ge> 4 then count0 c else count1 c) i) [0..<8] =
    map (\<lambda>i. of_nat (N div 256 ^ (7 - i))) [0..<8]"
proof -
  have bound: "unat (count0 c) < 4294967296" using unsigned_less [of "count0 c"] by simp
  have hi: "unat (count1 c) = N div 4294967296" and lo: "unat (count0 c) = N mod 4294967296"
    using assms bound by (auto simp: bits_def)
  have low: "be_byte (count0 c) i = of_nat (N div 256 ^ (7 - i))" if "4 \<le> i" "i < 8" for i
  proof -
    have e: "3 - i mod 4 = 7 - i" using that by (auto simp: le_mod_geq)
    have "unat (be_byte (count0 c) i) = N div 2 ^ ((7 - i) * 8) mod 256"
      unfolding unat_be_byte e lo using that by (intro mod_div_mod) simp
    moreover have "(2::nat) ^ ((7 - i) * 8) = 256 ^ (7 - i)" by (subst mult.commute) (simp add: power_mult)
    ultimately show ?thesis by (simp add: word_unat_eq_iff unat_of_nat)
  qed
  have high: "be_byte (count1 c) i = of_nat (N div 256 ^ (7 - i))" if "i < 4" for i
  proof -
    have "7 - i = 4 + (3 - i)" "i mod 4 = i" using that by simp_all
    moreover have "N div 256 ^ (4 + (3 - i)) = N div 256 ^ 4 div 256 ^ (3 - i)"
      by (simp only: power_add div_mult2_eq)
    moreover have "(256 :: nat) ^ 4 = 4294967296" by simp
    ultimately show ?thesis by (simp only: be_byte_eq hi)
  qed
  show ?thesis using low high by (intro map_cong refl) auto
qed

lemma length_hash_blocks: "length st = 5 \<Longrightarrow> length (hash_blocks fips_compress st m) = 5"
proof (induction fips_compress st m rule: hash_blocks.induct)
  case (1 st m)
  have "length (fips_compress st b) = 5" for b
    by (simp add: fips_compress_def Let_def split: prod.splits)
  then show ?case using 1 by (subst hash_blocks.simps) simp
qed

lemma digest_bytes:
  assumes "length (st :: u32 list) = 5"
  shows "map (\<lambda>i. be_byte (st ! (i div 4)) i) [0..<20] =
     concat (map (\<lambda>w. map (\<lambda>i. of_nat (unat w div 256 ^ (3 - i))) [0..<4]) st)"
proof -
  obtain a b c d e where "st = [a, b, c, d, e]"
    using assms by (auto simp: length_Suc_conv numeral_eq_Suc)
  then show ?thesis by (simp add: be_byte_eq upt_rec)
qed

lemma SHA1Final_represents:
  assumes "represents c m" "8 * length m < 2 ^ 64"
  shows "SHA1Final c = Some (fips_sha1 m)"
proof -
  let ?k = "(119 - length m mod 64) mod 64"
  let ?fc = "map (\<lambda>i. be_byte (if i \<ge> 4 then count0 c else count1 c) i) [0..<8]"
  obtain c1 where c1: "SHA1Update c [0x80] = Some c1" "represents c1 (m @ [0x80])"
    using represents_update [OF assms(1), of "[0x80]"] by auto
  have "(length m mod 64 + 1 + ?k) mod 64 = 56"
  proof -
    have "(r + 1 + (119 - r) mod 64) mod 64 = 56" if "r < 64" for r :: nat
      using that by (cases "r \<le> 55") (auto simp: mod_if)
    then show ?thesis by simp
  qed
  then have "(length (m @ [0x80]) + ?k) mod 64 = 56"
    using mod_add_left_eq [of "length m" 64 "1 + ?k"] by simp
  then obtain c2 where c2: "SHA1Final_pad 64 c1 = Some c2"
      "represents c2 ((m @ [0x80]) @ replicate ?k 0)"
    using SHA1Final_pad_zeros [OF c1(2), of ?k 64] by auto
  obtain c3 where c3: "SHA1Update c2 ?fc = Some c3"
      "represents c3 (((m @ [0x80]) @ replicate ?k 0) @ ?fc)"
    using represents_update [OF c2(2), of ?fc] by auto
  have "bits c = 8 * length m" using assms by (simp add: represents_def)
  note fc = finalcount_eq [OF this]
  have st: "state c3 = hash_blocks fips_compress fips_H0 (fips_pad m)"
    using c3(2) by (simp only: represents_def fips_pad_def fc append_assoc)
  have "length (state c3) = 5" unfolding st by (rule length_hash_blocks) (simp add: fips_H0_def)
  then show ?thesis
    unfolding SHA1Final_def Let_def fips_sha1_def
    by (simp only: c1(1) c2(1) c3(1) bind.simps digest_bytes st)
qed

lemma sha1_correct:
  assumes "length (buffer ctx) = 64" "length data + 64 \<le> 2 ^ 32"
  shows "WebserverSHA1 ctx data = Some (fips_sha1 data)"
proof -
  obtain c where c: "SHA1Update (SHA1Init ctx) data = Some c" "represents c data"
    using represents_update [OF represents_init [OF assms(1)] assms(2)] by auto
  have "8 * length data < 2 ^ 64" using assms(2) by simp
  with c show ?thesis by (simp add: WebserverSHA1_def SHA1Final_represents)
qed

lemma length_fips_sha1: "length (fips_sha1 m) = 20"
proof -
  have "length (hash_blocks fips_compress fips_H0 (fips_pad m)) = 5"
    by (rule length_hash_blocks) (simp add: fips_H0_def)
  moreover have "length (concat (map (\<lambda>w. map (\<lambda>i. of_nat (unat w div 256 ^ (3 - i)) :: u8) [0..<4]) ws)) = 4 * length ws"
    for ws :: "u32 list" by (induction ws) simp_all
  ultimately show ?thesis unfolding fips_sha1_def by simp
qed

subsection \<open>Properties\<close>

text \<open>C4: the hash the server computes is SHA-1 as FIPS 180 defines it: for every message
  short enough for the 32-bit length argument and every prior content of the context,
  initialising, updating and finishing returns the reference digest of the message, and no
  read or write leaves the message or the context.\<close>

theorem WebserverSHA1_is_sha1:
  assumes "length (buffer ctx) = 64" "length data + 64 \<le> 2 ^ 32"
  shows "WebserverSHA1 ctx data = Some (fips_sha1 data)"
  using assms by (rule sha1_correct)

theorem WebserverSHA1_is_sha1_witness:
  "WebserverSHA1 \<lparr>state = [], count0 = 7, count1 = 9, buffer = replicate 64 0\<rparr> [97, 98, 99] =
     Some (fips_sha1 [97, 98, 99])"
  by (rule WebserverSHA1_is_sha1) simp_all

text \<open>C19: the digest does not depend on how the message is cut into updates: two sequences of
  updates with the same concatenation, from the same context, leave the same digest state,
  the same pending bytes and the same bit count.\<close>

theorem SHA1Update_chunking:
  assumes "length (buffer ctx) = 64" "concat xs = concat ys" "length (concat xs) + 64 \<le> 2 ^ 32"
  shows "sha1_obs (foldl (\<lambda>c d. the (SHA1Update c d)) ctx xs) =
     sha1_obs (foldl (\<lambda>c d. the (SHA1Update c d)) ctx ys)"
proof -
  have f: "(\<lambda>c d. the (SHA1Update c d)) = sha1_feed" by (simp add: sha1_feed_def fun_eq_iff)
  show ?thesis
    unfolding f using assms
    by (intro sha1.feed_chunking_irrelevant) (simp_all add: ctx_wf_def sha1_admits_def)
qed

theorem SHA1Update_chunking_witness:
  "sha1_obs (foldl (\<lambda>c d. the (SHA1Update c d))
       \<lparr>state = fips_H0, count0 = 0, count1 = 0, buffer = replicate 64 0\<rparr> [[1, 2], [3]]) =
   sha1_obs (foldl (\<lambda>c d. the (SHA1Update c d))
       \<lparr>state = fips_H0, count0 = 0, count1 = 0, buffer = replicate 64 0\<rparr> [[1], [], [2, 3]])"
  by (rule SHA1Update_chunking) simp_all

end
