(* ===== verification/PairScan.thy ===== *)
theory PairScan
  imports StringUtils
begin

text \<open>
  The scanner of name and value pairs that the query string parser
  (\<open>recieveParameterFromGet\<close>, \<open>header_parser.c\<close>) and the cookie parser (\<open>parseCookies\<close>,
  \<open>cookie.c\<close>) share up to the separator and the blanks skipped after it. Both walk over the
  line with an index and cut names and values out of it by overwriting the byte behind them
  with NUL for the time of a call that decodes them in place. The model keeps the buffer and
  records the calls: the decoded name and, if there is one, the decoded value.
\<close>

type_synonym pair_call = "string \<times> string option"

text \<open>Decoding in place the C string that starts at an offset of the buffer.\<close>

definition decode_at :: "nat \<Rightarrow> string \<Rightarrow> string" where
  "decode_at off b = take off b @ url_decode (drop off b)"

text \<open>One cut: NUL behind the name (and behind the value), decode, restore the two bytes.\<close>

definition cut_name :: "string \<Rightarrow> nat \<Rightarrow> nat \<Rightarrow> string \<times> pair_call" where
  "cut_name b name_start name_end =
     (let bak1 = b ! name_end;
          b = b[name_end := NUL];
          b = decode_at name_start b;
          call = (cstr (drop name_start b), None)
      in (b[name_end := bak1], call))"

definition cut_pair :: "string \<Rightarrow> nat \<Rightarrow> nat \<Rightarrow> nat \<Rightarrow> nat \<Rightarrow> string \<times> pair_call" where
  "cut_pair b name_start name_end value_start value_end =
     (let bak1 = b ! name_end;
          b = b[name_end := NUL];
          bak2 = b ! value_end;
          b = b[value_end := NUL];
          b = decode_at name_start b;
          name = cstr (drop name_start b);
          b = decode_at value_start b;
          call = (name, Some (cstr (drop value_start b)));
          b = b[name_end := bak1]
      in (b[value_end := bak2], call))"

function skip_blanks :: "string \<Rightarrow> nat \<Rightarrow> nat \<Rightarrow> nat" where
  "skip_blanks b n i = (if i < n \<and> b ! i = CHR '' '' then skip_blanks b n (i + 1) else i)"
  by pat_completeness auto
termination
  by (relation "measure (\<lambda>(b, n, i). n - i)") auto

declare skip_blanks.simps [simp del]

definition after_sep :: "bool \<Rightarrow> string \<Rightarrow> nat \<Rightarrow> nat \<Rightarrow> nat" where
  "after_sep blanks b n i = (if blanks then skip_blanks b n (i + 1) else i + 1)"

lemma skip_blanks_ge: "i \<le> skip_blanks b n i"
  by (induction b n i rule: skip_blanks.induct) (subst skip_blanks.simps, auto)

lemma after_sep_gr: "i < after_sep blanks b n i"
  using skip_blanks_ge [of "Suc i" b n] by (simp add: after_sep_def)

text \<open>
  The loop: \<open>pv\<close> is the state PARSE\_VALUE, \<open>ns\<close>, \<open>ne\<close>, \<open>vs\<close> the name start, name end and value
  start; \<open>last_empty\<close> tells whether an empty name at the end of the line makes a call.
\<close>

function scan_loop :: "char \<Rightarrow> bool \<Rightarrow> bool \<Rightarrow> nat \<Rightarrow> nat \<Rightarrow> string \<Rightarrow> bool \<Rightarrow> nat \<Rightarrow> nat \<Rightarrow> nat \<Rightarrow>
    pair_call list \<Rightarrow> string \<times> pair_call list" where
  "scan_loop sep blanks last_empty n i b pv ns ne vs calls =
     (if i < n then
        (if \<not> pv \<and> b ! i = sep then
           (let (b, calls) = (if i - ns > 0 then let (b, c) = cut_name b ns i in (b, calls @ [c]) else (b, calls));
                j = after_sep blanks b n i
            in scan_loop sep blanks last_empty n j b False j i vs calls)
         else if \<not> pv \<and> b ! i = CHR ''='' then
           scan_loop sep blanks last_empty n (i + 1) b True ns i (i + 1) calls
         else if pv \<and> b ! i = sep then
           (let (b, c) = cut_pair b ns ne vs i; j = after_sep blanks b n i
            in scan_loop sep blanks last_empty n j b False j j 0 (calls @ [c]))
         else scan_loop sep blanks last_empty n (i + 1) b pv ns ne vs calls)
      else if pv then (let (b, c) = cut_pair b ns ne vs i in (b, calls @ [c]))
      else if last_empty \<or> i - ns > 0 then (let (b, c) = cut_name b ns i in (b, calls @ [c]))
      else (b, calls))"
  by pat_completeness auto
termination
proof (relation "measure (\<lambda>(sep, blanks, last_empty, n, i, b, pv, ns, ne, vs, calls). n - i)", goal_cases)
  case (2 sep blanks last_empty n i b pv ns ne vs calls x b' calls' j)
  then have "i < j" using after_sep_gr by simp
  then show ?case using 2 by simp
next
  case (4 sep blanks last_empty n i b pv ns ne vs calls x b' c j)
  then have "i < j" using after_sep_gr by simp
  then show ?case using 4 by simp
qed auto

declare scan_loop.simps [simp del]

subsection \<open>The reference grammar\<close>

text \<open>
  Fields are separated by \<open>sep\<close>; a field with an \<open>=\<close> is a name and a value, split at the first
  one; an empty field without it is skipped (at the end of the line only if \<open>last_empty\<close> is
  not set).
\<close>

definition field :: "string \<Rightarrow> pair_call" where
  "field f = (let name = takeWhile (\<lambda>c. c \<noteq> CHR ''='') f in
     (name, if name = f then None else Some (drop (Suc (length name)) f)))"

definition strip :: "bool \<Rightarrow> string \<Rightarrow> string" where
  "strip blanks s = (if blanks then dropWhile (\<lambda>c. c = CHR '' '') s else s)"

function pair_fields :: "char \<Rightarrow> bool \<Rightarrow> bool \<Rightarrow> string \<Rightarrow> string list" where
  "pair_fields sep blanks last_empty s =
     (let f = takeWhile (\<lambda>c. c \<noteq> sep) s in
      if f = s then (if f = [] \<and> \<not> last_empty then [] else [f])
      else (if f = [] then [] else [f]) @
        pair_fields sep blanks last_empty (strip blanks (drop (Suc (length f)) s)))"
  by pat_completeness auto
termination
proof (relation "measure (\<lambda>(sep, blanks, last_empty, s). length s)", goal_cases)
  case (2 sep blanks last_empty s f)
  then have "length (drop (Suc (length f)) s) < length s" by (cases s) auto
  moreover have "length (strip blanks (drop (Suc (length f)) s)) \<le> length (drop (Suc (length f)) s)"
    using length_dropWhile_le [of "\<lambda>c. c = CHR '' ''" "drop (Suc (length f)) s"] by (simp add: strip_def)
  ultimately have "length (strip blanks (drop (Suc (length f)) s)) < length s" by (rule le_less_trans [rotated])
  then show ?case by simp
qed auto

declare pair_fields.simps [simp del]

definition decode_call :: "pair_call \<Rightarrow> pair_call" where
  "decode_call p = (url_decoded (fst p), map_option url_decoded (snd p))"


subsection \<open>The cuts\<close>

lemma cstr_split: "strlen b < length b \<Longrightarrow> \<exists>rest. b = cstr b @ NUL # rest"
  by (induction b) (auto split: if_splits)

lemma url_decode_string: "strlen b < length b \<Longrightarrow> cstr (url_decode b) = url_decoded b"
proof -
  assume "strlen b < length b"
  then obtain rest where b: "b = cstr b @ NUL # rest" using cstr_split by blast
  have "url_decode b = urldec (cstr b) @ NUL # drop (Suc (length (urldec (cstr b)))) b"
    using url_decode_eq [of "cstr b" rest] b by simp
  then show ?thesis by (simp add: url_decoded_eq cstr_append)
qed

lemma url_decode_behind:
  assumes "strlen b < length b" "strlen b < k"
  shows "drop k (url_decode b) = drop k b"
proof -
  obtain rest where b: "b = cstr b @ NUL # rest" using cstr_split [OF assms(1)] by blast
  let ?u = "urldec (cstr b)"
  have "url_decode b = ?u @ NUL # drop (Suc (length ?u)) b"
    using url_decode_eq [of "cstr b" rest] b by simp
  moreover have "length ?u < k" using length_urldec [of "cstr b"] assms(2) by simp
  ultimately show ?thesis by (simp add: drop_Cons')
qed

definition slice :: "'a list \<Rightarrow> nat \<Rightarrow> nat \<Rightarrow> 'a list" where
  "slice b i j = take (j - i) (drop i b)"

lemma length_slice: "j \<le> length b \<Longrightarrow> length (slice b i j) = j - i"
  by (auto simp: slice_def)

lemma drop_cut:
  assumes "i \<le> j" "j < length b"
  shows "drop i (b[j := x]) = slice b i j @ x # drop (Suc j) b"
proof -
  have "drop i (b[j := x]) = (drop i b)[j - i := x]" using assms by (simp add: drop_update_swap)
  also have "\<dots> = slice b i j @ x # drop (Suc j) b"
    using assms by (simp add: slice_def upd_conv_take_nth_drop)
  finally show ?thesis .
qed

lemma slice_update_behind: "j \<le> k \<Longrightarrow> slice (b[k := x]) i j = slice b i j"
  by (cases "i \<le> j") (simp_all add: slice_def take_drop)

lemma slice_update_before: "k < i \<Longrightarrow> slice (b[k := x]) i j = slice b i j"
  by (simp add: slice_def)

lemma slice_cstr: "cstr (slice b i j @ NUL # r) = cstr (slice b i j)"
  by (simp add: cstr_append)

lemma decode_at_cut:
  assumes "i \<le> j" "j < length b" "b ! j = NUL"
  shows "length (decode_at i b) = length b" "take i (decode_at i b) = take i b"
    "drop (Suc j) (decode_at i b) = drop (Suc j) b"
    "cstr (drop i (decode_at i b)) = url_decoded (slice b i j)"
proof -
  have "b[j := NUL] = b" using assms(3) by (metis list_update_id)
  then have d: "drop i b = slice b i j @ NUL # drop (Suc j) b" using drop_cut [OF assms(1,2), of NUL] by simp
  have c: "cstr (drop i b) = cstr (slice b i j)" by (simp add: d slice_cstr)
  have "strlen (drop i b) \<le> j - i" using c length_cstr_le [of "slice b i j"] assms by (simp add: length_slice)
  then have st: "strlen (drop i b) < length (drop i b)" "strlen (drop i b) < Suc (j - i)" using assms by auto
  show "length (decode_at i b) = length b" using assms by (simp add: decode_at_def length_url_decode)
  show "take i (decode_at i b) = take i b" using assms by (simp add: decode_at_def)
  have "drop (Suc j) (decode_at i b) = drop (Suc (j - i)) (url_decode (drop i b))"
    using assms by (simp add: decode_at_def min_def Suc_diff_le)
  then show "drop (Suc j) (decode_at i b) = drop (Suc j) b"
    using url_decode_behind [OF st] assms(1) by simp
  have "drop i (decode_at i b) = url_decode (drop i b)" using assms by (simp add: decode_at_def)
  then show "cstr (drop i (decode_at i b)) = url_decoded (slice b i j)"
    using url_decode_string [OF st(1)] c by (simp add: url_decoded_eq)
qed

lemma cut_name_eq:
  assumes "i \<le> j" "j < length b" "cut_name b i j = (b', c)"
  shows "length b' = length b" "drop j b' = drop j b" "c = (url_decoded (slice b i j), None)"
proof -
  let ?b = "b[j := NUL]"
  note d = decode_at_cut [of i j ?b]
  have s: "slice ?b i j = slice b i j" by (simp add: slice_update_behind)
  have c: "b' = (decode_at i ?b)[j := b ! j]" "c = (cstr (drop i (decode_at i ?b)), None)"
    using assms(3) by (simp_all add: cut_name_def Let_def)
  show "length b' = length b" "c = (url_decoded (slice b i j), None)"
    using d assms(1,2) s c by simp_all
  have "drop j b' = b ! j # drop (Suc j) (decode_at i ?b)"
    using drop_cut [of j j "decode_at i ?b" "b ! j"] d(1) assms by (simp add: c slice_def)
  also have "\<dots> = drop j b" using d(3) assms by (simp add: Cons_nth_drop_Suc)
  finally show "drop j b' = drop j b" .
qed

lemma cut_pair_eq:
  assumes "i \<le> j" "Suc j \<le> k" "k < length b" "cut_pair b i j (Suc j) k = (b', c)"
  shows "length b' = length b" "drop k b' = drop k b"
    "c = (url_decoded (slice b i j), Some (url_decoded (slice b (Suc j) k)))"
proof -
  let ?b = "b[j := NUL, k := NUL]"
  let ?d = "decode_at i ?b"
  let ?e = "decode_at (Suc j) ?d"
  have s: "slice ?b i j = slice b i j" "slice ?b (Suc j) k = slice b (Suc j) k"
    using assms by (simp_all add: slice_update_behind slice_update_before)
  have d: "length ?d = length b" "drop (Suc j) ?d = drop (Suc j) ?b"
      "cstr (drop i ?d) = url_decoded (slice b i j)"
    using decode_at_cut [of i j ?b] assms s by (simp_all add: nth_list_update)
  have dk: "?d ! k = NUL"
    using arg_cong [OF d(2), of "\<lambda>x. x ! (k - Suc j)"] assms d(1) by simp
  have sd: "slice ?d (Suc j) k = slice b (Suc j) k" using d(2) s by (simp add: slice_def)
  note e = decode_at_cut [of "Suc j" k ?d]
  have e': "length ?e = length b" "drop (Suc k) ?e = drop (Suc k) b" "take (Suc j) ?e = take (Suc j) ?d"
      "cstr (drop (Suc j) ?e) = url_decoded (slice b (Suc j) k)"
    using e assms d(1) dk sd arg_cong [OF d(2), of "drop (k - j)"] by simp_all
  have r: "b' = ?e[j := b ! j, k := b ! k]" "c = (cstr (drop i ?d), Some (cstr (drop (Suc j) ?e)))"
    using assms by (simp_all add: cut_pair_def Let_def)
  show "length b' = length b" using e'(1) r by simp
  show "c = (url_decoded (slice b i j), Some (url_decoded (slice b (Suc j) k)))"
    using r(2) d(3) e'(4) by simp
  have "drop k b' = b ! k # drop (Suc k) ?e"
    using drop_cut [of k k "?e[j := b ! j]" "b ! k"] e'(1) assms by (simp add: r(1) slice_def)
  also have "\<dots> = drop k b" using e'(2) assms by (simp add: Cons_nth_drop_Suc)
  finally show "drop k b' = drop k b" .
qed


subsection \<open>The loop computes the grammar\<close>

lemma slice_Cons:
  assumes "i < n" "n \<le> length b"
  shows "slice b i n = b ! i # slice b (Suc i) n"
proof -
  have "drop i b = b ! i # drop (Suc i) b" using assms by (simp add: Cons_nth_drop_Suc)
  moreover have "n - i = Suc (n - Suc i)" using assms by simp
  ultimately show ?thesis by (simp add: slice_def)
qed

lemma skip_blanks_eq:
  assumes "i \<le> n" "n \<le> length b"
  shows "skip_blanks b n i \<le> n \<and> slice b (skip_blanks b n i) n = dropWhile (\<lambda>c. c = CHR '' '') (slice b i n)"
  using assms
proof (induction b n i rule: skip_blanks.induct)
  case (1 b n i)
  show ?case
  proof (cases "i < n")
    case True
    then have "slice b i n = b ! i # slice b (Suc i) n" using 1(3) by (rule slice_Cons)
    then show ?thesis using 1 True by (subst (1 2) skip_blanks.simps) auto
  next
    case False
    then show ?thesis using 1(2) by (subst (1 2) skip_blanks.simps) (simp add: slice_def)
  qed
qed

lemma slice_snoc: "i \<le> j \<Longrightarrow> j < length b \<Longrightarrow> slice b i (Suc j) = slice b i j @ [b ! j]"
  by (simp add: slice_def Suc_diff_le take_Suc_conv_app_nth)

lemma slice_split: "i \<le> j \<Longrightarrow> j \<le> n \<Longrightarrow> slice b i n = slice b i j @ slice b j n"
proof -
  assume "i \<le> j" "j \<le> n"
  then have "n - i = (j - i) + (n - j)" by simp
  then have "slice b i n = take ((j - i) + (n - j)) (drop i b)" by (simp only: slice_def)
  then show ?thesis using \<open>i \<le> j\<close> unfolding take_add by (simp add: slice_def)
qed

lemma slice_cong: "drop j b' = drop j b \<Longrightarrow> j \<le> i \<Longrightarrow> slice b' i n = slice b i n"
proof -
  assume a: "drop j b' = drop j b" "j \<le> i"
  have "drop (i - j) (drop j b') = drop (i - j) (drop j b)" by (simp only: a(1))
  then have "drop i b' = drop i b" using a(2) by simp
  then show ?thesis by (simp add: slice_def)
qed

lemma after_sep_eq:
  assumes "i < n" "n \<le> length b"
  shows "after_sep blanks b n i \<le> n \<and> slice b (after_sep blanks b n i) n = strip blanks (slice b (Suc i) n)"
  using assms skip_blanks_eq [of "Suc i" n b] by (simp add: after_sep_def strip_def)

lemma takeWhile_upto: "x \<notin> set f \<Longrightarrow> takeWhile (\<lambda>c. c \<noteq> x) (f @ x # r) = f"
  by (induction f) auto

lemma pair_fields_at_sep: "sep \<notin> set f \<Longrightarrow> pair_fields sep blanks last_empty (f @ sep # r) =
    (if f = [] then [] else [f]) @ pair_fields sep blanks last_empty (strip blanks r)"
proof -
  assume "sep \<notin> set f"
  then have "takeWhile (\<lambda>c. c \<noteq> sep) (f @ sep # r) = f" by (simp add: takeWhile_upto)
  then show ?thesis by (subst pair_fields.simps) (simp add: Let_def)
qed

lemma pair_fields_end: "sep \<notin> set f \<Longrightarrow> pair_fields sep blanks last_empty f =
    (if f = [] \<and> \<not> last_empty then [] else [f])"
proof -
  assume "sep \<notin> set f"
  then have tw: "takeWhile (\<lambda>c. c \<noteq> sep) f = f" by (auto simp: takeWhile_eq_all_conv)
  show ?thesis unfolding pair_fields.simps [of sep blanks last_empty f] Let_def tw by simp
qed

lemma field_name: "CHR ''='' \<notin> set f \<Longrightarrow> field f = (f, None)"
proof -
  assume "CHR ''='' \<notin> set f"
  then have "takeWhile (\<lambda>c. c \<noteq> CHR ''='') f = f" by (auto simp: takeWhile_eq_all_conv)
  then show ?thesis by (simp add: field_def Let_def)
qed

lemma field_pair: "CHR ''='' \<notin> set f \<Longrightarrow> field (f @ CHR ''='' # v) = (f, Some v)"
proof -
  assume "CHR ''='' \<notin> set f"
  then have "takeWhile (\<lambda>c. c \<noteq> CHR ''='') (f @ CHR ''='' # v) = f" by (simp add: takeWhile_upto)
  then show ?thesis by (simp add: field_def Let_def)
qed

text \<open>The invariant of the loop at index \<open>i\<close>.\<close>

definition scan_inv :: "char \<Rightarrow> nat \<Rightarrow> nat \<Rightarrow> string \<Rightarrow> bool \<Rightarrow> nat \<Rightarrow> nat \<Rightarrow> nat \<Rightarrow> bool" where
  "scan_inv sep n i b pv ns ne vs \<longleftrightarrow> ns \<le> i \<and> i \<le> n \<and> n < length b \<and> sep \<notin> set (slice b ns i) \<and>
     (if pv then ns \<le> ne \<and> vs = Suc ne \<and> vs \<le> i \<and> b ! ne = CHR ''='' \<and> CHR ''='' \<notin> set (slice b ns ne)
      else CHR ''='' \<notin> set (slice b ns i))"

lemma scan_inv_value: "scan_inv sep n i b True ns ne vs \<Longrightarrow>
    field (slice b ns i) = (slice b ns ne, Some (slice b vs i)) \<and> slice b ns i \<noteq> []"
proof -
  assume a: "scan_inv sep n i b True ns ne vs"
  then have "slice b ns i = slice b ns ne @ CHR ''='' # slice b vs i"
    using slice_split [of ns ne i b] slice_Cons [of ne i b] by (simp add: scan_inv_def)
  then show ?thesis using a by (simp add: field_pair scan_inv_def)
qed

text \<open>After a separator the scan starts afresh behind it.\<close>

lemma restart:
  assumes "i < n" "n < length b" "length b' = length b" "drop i b' = drop i b"
    "j = after_sep blanks b' n i"
  shows "scan_inv sep n j b' False j ne vs" "slice b' j n = strip blanks (slice b (Suc i) n)" "n - j < n - i"
proof -
  have j: "j \<le> n" "slice b' j n = strip blanks (slice b' (Suc i) n)"
    using after_sep_eq [of i n b' blanks] assms by simp_all
  have "i < j" using after_sep_gr by (simp add: assms(5))
  then show "n - j < n - i" using assms(1) by simp
  show "slice b' j n = strip blanks (slice b (Suc i) n)"
    using j(2) slice_cong [OF assms(4), of "Suc i" n] by simp
  show "scan_inv sep n j b' False j ne vs" using j assms by (simp add: scan_inv_def slice_def)
qed

lemma scan_loop_eq:
  assumes "scan_inv sep n i b pv ns ne vs" "sep \<noteq> CHR ''=''"
  shows "snd (scan_loop sep blanks last_empty n i b pv ns ne vs calls) =
     calls @ map (\<lambda>f. decode_call (field f)) (pair_fields sep blanks last_empty (slice b ns n))"
  using assms(1)
proof (induction "n - i" arbitrary: i b pv ns ne vs calls rule: less_induct)
  case less
  note inv = less.prems
  show ?case
  proof (cases "i < n")
    case fin: False
    then have i: "i = n" using inv by (simp add: scan_inv_def)
    then have f: "pair_fields sep blanks last_empty (slice b ns n) =
        (if slice b ns n = [] \<and> \<not> last_empty then [] else [slice b ns n])"
      using inv by (intro pair_fields_end) (simp add: scan_inv_def)
    show ?thesis
    proof (cases pv)
      case True
      obtain b' c where c: "cut_pair b ns ne vs i = (b', c)" by (metis surj_pair)
      then have "c = decode_call (field (slice b ns i))"
        using cut_pair_eq(3) [of ns ne i b b' c] inv scan_inv_value [of sep n i b ns ne vs] True
        by (simp add: scan_inv_def decode_call_def)
      then show ?thesis
        using scan_inv_value [of sep n i b ns ne vs] inv True i c f
        by (subst scan_loop.simps) simp
    next
      case False
      obtain b' c where c: "cut_name b ns i = (b', c)" by (metis surj_pair)
      then have "c = decode_call (field (slice b ns i))"
        using cut_name_eq(3) [of ns i b b' c] inv False by (simp add: scan_inv_def decode_call_def field_name)
      moreover have "slice b ns n = [] \<longleftrightarrow> \<not> i - ns > 0"
        using inv i length_slice [of n b ns] by (auto simp: scan_inv_def)
      ultimately show ?thesis
        using False i c f by (subst scan_loop.simps) auto
    qed
  next
    case lt: True
    have nl: "n < length b" using inv by (simp add: scan_inv_def)
    have sl: "slice b ns n = slice b ns i @ b ! i # slice b (Suc i) n"
      using inv lt slice_split [of ns i n b] slice_Cons [of i n b] by (simp add: scan_inv_def)
    have sn: "slice b ns (Suc i) = slice b ns i @ [b ! i]"
      using inv lt by (intro slice_snoc) (auto simp: scan_inv_def)
    consider (sep_name) "\<not> pv" "b ! i = sep" | (eq) "\<not> pv" "b ! i = CHR ''=''" "b ! i \<noteq> sep"
      | (sep_val) "pv" "b ! i = sep" | (other) "b ! i \<noteq> sep" "pv \<or> b ! i \<noteq> CHR ''=''" by blast
    then show ?thesis
    proof cases
      case eq
      have "scan_inv sep n (Suc i) b True ns i (Suc i)"
        using inv eq lt sn by (auto simp: scan_inv_def)
      from less.hyps [OF _ this, of calls] show ?thesis
        using eq lt by (subst scan_loop.simps) (simp add: diff_less_mono2)
    next
      case other
      have "scan_inv sep n (Suc i) b pv ns ne vs"
        using inv other lt sn by (auto simp: scan_inv_def)
      from less.hyps [OF _ this, of calls] show ?thesis
        using other lt by (subst scan_loop.simps) (auto simp add: diff_less_mono2)
    next
      case sep_name
      obtain b' calls' where bc: "(if i - ns > 0 then let (b, c) = cut_name b ns i in (b, calls @ [c]) else (b, calls)) = (b', calls')"
        by (metis surj_pair)
      let ?j = "after_sep blanks b' n i"
      have ln: "length (slice b ns i) = i - ns" using inv by (intro length_slice) (simp add: scan_inv_def)
      have b': "length b' = length b" "drop i b' = drop i b"
          "calls' = calls @ map (\<lambda>f. decode_call (field f)) (if slice b ns i = [] then [] else [slice b ns i])"
        using bc cut_name_eq [of ns i b] inv sep_name ln
        by (auto simp: scan_inv_def decode_call_def field_name split: if_splits prod.splits)
      have r: "scan_inv sep n ?j b' False ?j i vs" "slice b' ?j n = strip blanks (slice b (Suc i) n)" "n - ?j < n - i"
        by (rule restart [OF lt nl b'(1,2) refl])+
      have "scan_loop sep blanks last_empty n i b pv ns ne vs calls =
          scan_loop sep blanks last_empty n ?j b' False ?j i vs calls'"
        using bc lt sep_name by (subst scan_loop.simps) (simp add: Let_def)
      moreover have "pair_fields sep blanks last_empty (slice b ns n) =
          (if slice b ns i = [] then [] else [slice b ns i]) @ pair_fields sep blanks last_empty (slice b' ?j n)"
        using inv sep_name r(2) by (simp add: sl pair_fields_at_sep scan_inv_def)
      ultimately show ?thesis
        using less.hyps [OF r(3,1), of calls'] b'(3) by simp
    next
      case sep_val
      obtain b' c where bc: "cut_pair b ns ne vs i = (b', c)" by (metis surj_pair)
      let ?j = "after_sep blanks b' n i"
      have v: "field (slice b ns i) = (slice b ns ne, Some (slice b vs i))" "slice b ns i \<noteq> []"
        using scan_inv_value [of sep n i b ns ne vs] inv sep_val by simp_all
      have b': "length b' = length b" "drop i b' = drop i b" "c = decode_call (field (slice b ns i))"
        using bc cut_pair_eq [of ns ne i b b' c] inv sep_val v lt
        by (auto simp: scan_inv_def decode_call_def)
      have r: "scan_inv sep n ?j b' False ?j ?j 0" "slice b' ?j n = strip blanks (slice b (Suc i) n)" "n - ?j < n - i"
        by (rule restart [OF lt nl b'(1,2) refl])+
      have "scan_loop sep blanks last_empty n i b pv ns ne vs calls =
          scan_loop sep blanks last_empty n ?j b' False ?j ?j 0 (calls @ [c])"
        using bc lt sep_val by (subst scan_loop.simps) (simp add: Let_def)
      moreover have "pair_fields sep blanks last_empty (slice b ns n) =
          slice b ns i # pair_fields sep blanks last_empty (slice b' ?j n)"
        using inv sep_val r(2) v(2) by (simp add: sl pair_fields_at_sep scan_inv_def)
      ultimately show ?thesis
        using less.hyps [OF r(3,1), of "calls @ [c]"] b'(3) by simp
    qed
  qed
qed

end
