(* ===== verification/CellList.thy ===== *)
theory CellList
  imports LinkedList
begin

text \<open>
  The contract of the linked list for its clients: a list is its sequence of entries (entry
  address and stored pointer) with the iterator as the address of an entry. An iterator that
  is left pointing at a removed entry makes the next step \<open>None\<close>. A client's session on a
  list is a sequence of \<open>list_op\<close>s; the operations of \<open>lib/src/linked_list.c\<close> answer it as
  the sequence does and never touch an entry of another list. The components above (variable
  stores, cookie lists, session lists) use lists through this contract.
\<close>

record cell_list =
  cl_cells :: cells
  cl_iter :: addr

definition cl_empty :: cell_list where
  "cl_empty = \<lparr>cl_cells = [], cl_iter = 0\<rparr>"

definition cl_append :: "addr \<Rightarrow> cell_list \<Rightarrow> ptr \<Rightarrow> u32 \<Rightarrow> cell_list" where
  "cl_append a l d flags = l\<lparr>cl_cells :=
     (if flags AND WS_LIST_APPEND_FIRST \<noteq> 0 then (a, d) # cl_cells l else cl_cells l @ [(a, d)])\<rparr>"

fun drop_first :: "ptr \<Rightarrow> cells \<Rightarrow> cells" where
  "drop_first d [] = []"
| "drop_first d (x # xs) = (if snd x = d then xs else x # drop_first d xs)"

definition cl_delete :: "cell_list \<Rightarrow> ptr \<Rightarrow> cell_list" where
  "cl_delete l d = l\<lparr>cl_cells := drop_first d (cl_cells l)\<rparr>"

definition cl_clear :: "cell_list \<Rightarrow> cell_list" where
  "cl_clear l = l\<lparr>cl_cells := []\<rparr>"

definition cl_iterator_start :: "cell_list \<Rightarrow> cell_list" where
  "cl_iterator_start l = l\<lparr>cl_iter := hd_addr (cl_cells l) 0\<rparr>"

definition cl_iterator_next :: "cell_list \<Rightarrow> (cell_list \<times> ptr) option" where
  "cl_iterator_next l =
     (if cl_iter l = 0 then Some (l, 0)
      else case dropWhile (\<lambda>x. fst x \<noteq> cl_iter l) (cl_cells l) of
        [] \<Rightarrow> None
      | x # xs \<Rightarrow> Some (l\<lparr>cl_iter := hd_addr xs 0\<rparr>, snd x))"

definition cl_iterator_stop :: "cell_list \<Rightarrow> cell_list" where
  "cl_iterator_stop l = l\<lparr>cl_iter := 0\<rparr>"

definition cl_seek :: "(ptr \<Rightarrow> bool) \<Rightarrow> cell_list \<Rightarrow> ptr" where
  "cl_seek P l = (case find P (map snd (cl_cells l)) of None \<Rightarrow> 0 | Some d \<Rightarrow> d)"

subsection \<open>Sessions on a list\<close>

datatype list_op =
    Append addr ptr u32
  | Delete ptr
  | Seek "ptr \<Rightarrow> ptr \<Rightarrow> int" ptr
  | Get_At u32
  | Iter_Start
  | Iter_Next
  | Iter_Stop
  | Count
  | Clear
  | Destroy

text \<open>The calls of the source, with the answer of each as a number (0 where a call has none).\<close>

fun conc_op :: "heap \<times> list_t \<Rightarrow> list_op \<Rightarrow> ((heap \<times> list_t) \<times> int) option" where
  "conc_op (h, l) (Append a d flags) = map_option (\<lambda>hl. (hl, 0)) (ws_list_append a h l d flags)"
| "conc_op (h, l) (Delete d) = map_option (\<lambda>(h, l, r). ((h, l), r)) (ws_list_delete h l d)"
| "conc_op (h, l) (Seek f key) =
     (let l = ws_list_attributes_seeker l (Some f)
      in map_option (\<lambda>d. ((h, l), int d)) (ws_list_seek h l key))"
| "conc_op (h, l) (Get_At pos) = map_option (\<lambda>d. ((h, l), int d)) (ws_list_get_at h l pos)"
| "conc_op (h, l) Iter_Start = Some ((h, ws_list_iterator_start l), 0)"
| "conc_op (h, l) Iter_Next = map_option (\<lambda>(l, d). ((h, l), int d)) (ws_list_iterator_next h l)"
| "conc_op (h, l) Iter_Stop = Some ((h, ws_list_iterator_stop l), 0)"
| "conc_op (h, l) Count = Some ((h, l), int (unat (ws_list_size l)))"
| "conc_op (h, l) Clear = map_option (\<lambda>(h, l, r). ((h, l), r)) (ws_list_clear h l)"
| "conc_op (h, l) Destroy = map_option (\<lambda>(h, l, log). ((h, l), 0)) (ws_list_destroy h l)"

text \<open>The contract. An append needs a fresh entry: neither null nor in use.\<close>

fun abs_op :: "addr set \<Rightarrow> cell_list \<Rightarrow> list_op \<Rightarrow> (cell_list \<times> int) option" where
  "abs_op used c (Append a d flags) =
     (if a = 0 \<or> a \<in> used then None else Some (cl_append a c d flags, 0))"
| "abs_op used c (Delete d) = Some (cl_delete c d, if d \<in> snd ` set (cl_cells c) then 1 else 0)"
| "abs_op used c (Seek f key) = Some (c, int (cl_seek (\<lambda>d. f d key = 1) c))"
| "abs_op used c (Get_At pos) =
     Some (c, if unat pos < length (cl_cells c) then int (snd (cl_cells c ! unat pos)) else 0)"
| "abs_op used c Iter_Start = Some (cl_iterator_start c, 0)"
| "abs_op used c Iter_Next = map_option (\<lambda>(c, d). (c, int d)) (cl_iterator_next c)"
| "abs_op used c Iter_Stop = Some (cl_iterator_stop c, 0)"
| "abs_op used c Count = Some (c, int (length (cl_cells c)))"
| "abs_op used c Clear = Some (cl_clear c, if cl_cells c = [] then 0 else 1)"
| "abs_op used c Destroy = Some (cl_clear c, 0)"

definition list_sim :: "heap \<times> list_t \<Rightarrow> cell_list \<Rightarrow> bool" where
  "list_sim hl c \<longleftrightarrow> list_rep (fst hl) (snd hl) (cl_cells c) \<and> cur_iter (snd hl) = cl_iter c"

text \<open>A frame: every address outside the list's own entries, before or after, keeps its entry.\<close>

definition own :: "cell_list \<Rightarrow> addr set" where
  "own c = fst ` set (cl_cells c)"

lemma drop_first_split: "d \<notin> snd ` set us \<Longrightarrow> drop_first d (us @ (a, d) # vs) = us @ vs"
  by (induction us) auto

lemma drop_first_absent: "d \<notin> snd ` set xs \<Longrightarrow> drop_first d xs = xs"
  by (induction xs) auto

lemma cells_split: "d \<in> snd ` set xs \<Longrightarrow> \<exists>us a vs. xs = us @ (a, d) # vs \<and> d \<notin> snd ` set us"
  using split_list_first_prop [of xs "\<lambda>x. snd x = d"] by force

lemma dropWhile_split:
  assumes "dropWhile (\<lambda>x. fst x \<noteq> k) xs = y # ys"
  shows "xs = takeWhile (\<lambda>x. fst x \<noteq> k) xs @ y # ys" "fst y = k"
proof -
  show "xs = takeWhile (\<lambda>x. fst x \<noteq> k) xs @ y # ys"
    using takeWhile_dropWhile_id [of "\<lambda>x. fst x \<noteq> k" xs] assms by simp
  show "fst y = k" using hd_dropWhile [of "\<lambda>x. fst x \<noteq> k" xs] assms by simp
qed

text \<open>The step of the simulation, one operation at a time.\<close>

definition simulates :: "heap \<Rightarrow> cell_list \<Rightarrow> cell_list \<Rightarrow> heap \<times> list_t \<Rightarrow> bool" where
  "simulates h c c' hl \<longleftrightarrow> list_sim hl c' \<and> (\<forall>b. b \<notin> own c \<union> own c' \<longrightarrow> fst hl b = h b) \<and>
     (\<forall>b. b \<in> own c - own c' \<longrightarrow> fst hl b = None)"

lemma simulates_same: "list_sim (h, l) c \<Longrightarrow> first_entry l' = first_entry l \<Longrightarrow>
    last_entry l' = last_entry l \<Longrightarrow> element_count l' = element_count l \<Longrightarrow>
    cl_cells c' = cl_cells c \<Longrightarrow> cur_iter l' = cl_iter c' \<Longrightarrow> simulates h c c' (h, l')"
  by (simp add: simulates_def list_sim_def list_rep_def own_def)

lemma append_sim:
  assumes "list_sim (h, l) c" "a \<noteq> 0" "a \<notin> dom h"
  shows "\<exists>hl. ws_list_append a h l d flags = Some hl \<and> simulates h c (cl_append a c d flags) hl"
proof -
  from assms(1) have "list_rep h l (cl_cells c)" by (simp add: list_sim_def)
  from append_links [OF this assms(2,3), of d flags] obtain h' l' where
    a: "ws_list_append a h l d flags = Some (h', l')"
      "list_rep h' l' (if flags AND 1 \<noteq> 0 then (a, d) # cl_cells c else cl_cells c @ [(a, d)])"
      "\<And>b. b \<notin> insert a (fst ` set (cl_cells c)) \<Longrightarrow> h' b = h b" by blast
  have "cur_iter l' = cur_iter l"
    using a(1) by (auto simp: ws_list_append_def Let_def Option.bind_eq_Some_conv split: if_splits)
  with a assms(1) show ?thesis by (auto simp: simulates_def list_sim_def own_def cl_append_def)
qed

lemma delete_sim:
  assumes "list_sim (h, l) c"
  shows "\<exists>h' l'. ws_list_delete h l d = Some (h', l', if d \<in> snd ` set (cl_cells c) then 1 else 0) \<and>
     simulates h c (cl_delete c d) (h', l')"
proof (cases "d \<in> snd ` set (cl_cells c)")
  case True
  then obtain us a vs where s: "cl_cells c = us @ (a, d) # vs" "d \<notin> snd ` set us"
    using cells_split [OF True] by auto
  from assms have r: "list_rep h l (us @ (a, d) # vs)" by (simp add: list_sim_def s)
  from delete_unlinks [OF this s(2)] obtain h' l' where
    d: "ws_list_delete h l d = Some (h', l', 1)" "list_rep h' l' (us @ vs)" "h' a = None"
      "\<And>b. b \<notin> fst ` set (us @ (a, d) # vs) \<Longrightarrow> h' b = h b"
      "cur_iter l' = cur_iter l" by blast
  from d assms True show ?thesis
    by (auto simp: simulates_def list_sim_def own_def cl_delete_def s(1) drop_first_split [OF s(2)])
next
  case False
  then show ?thesis
    using delete_absent [of h l "cl_cells c" d] assms
    by (auto simp: simulates_def list_sim_def own_def cl_delete_def drop_first_absent)
qed

lemma destroy_sim:
  assumes "list_sim (h, l) c"
  shows "\<exists>h' l' log. ws_list_destroy h l = Some (h', l', log) \<and>
     ws_list_clear h l = Some (h', l', if cl_cells c = [] then 0 else 1) \<and>
     simulates h c (cl_clear c) (h', l')"
proof -
  from assms have r: "list_rep h l (cl_cells c)" by (simp add: list_sim_def)
  from destroy_eq [OF this] obtain h' l' log where
    d: "ws_list_destroy h l = Some (h', l', log)" "list_rep h' l' []"
      "\<And>b. h' b = (if b \<in> fst ` set (cl_cells c) then None else h b)"
      "cur_iter l' = cur_iter l" by blast
  have k: "ws_list_clear h l = Some (h', l', if cl_cells c = [] then 0 else 1)"
    by (rule clear_eq [OF r d(1)])
  from d k assms show ?thesis by (auto simp: simulates_def list_sim_def own_def cl_clear_def)
qed

lemma iterator_next_sim:
  assumes "list_sim (h, l) c" "cl_iterator_next c = Some (c', d)"
  shows "\<exists>l'. ws_list_iterator_next h l = Some (l', d) \<and> simulates h c c' (h, l')"
proof (cases "cl_iter c = 0")
  case True
  then show ?thesis
    using assms by (auto simp: cl_iterator_next_def ws_list_iterator_next_def list_sim_def simulates_def own_def)
next
  case False
  with assms(2) obtain y ys where y: "dropWhile (\<lambda>x. fst x \<noteq> cl_iter c) (cl_cells c) = y # ys"
      "c' = c\<lparr>cl_iter := hd_addr ys 0\<rparr>" "d = snd y"
    by (auto simp: cl_iterator_next_def split: list.splits)
  let ?us = "takeWhile (\<lambda>x. fst x \<noteq> cl_iter c) (cl_cells c)"
  have s: "cl_cells c = ?us @ (cl_iter c, d) # ys"
    using dropWhile_split [OF y(1)] y(3) by (cases y) simp
  have "dll h 0 (?us @ (cl_iter c, d) # ys) 0"
    using assms(1) s by (simp add: list_sim_def list_rep_def)
  from dll_lookup [OF this] have "h (cl_iter c) = Some \<lparr>e_next = hd_addr ys 0, e_prev = last_addr ?us 0, e_data = d\<rparr>" .
  then have "ws_list_iterator_next h l = Some (l\<lparr>cur_iter := hd_addr ys 0\<rparr>, d)"
    using assms(1) False by (simp add: ws_list_iterator_next_def list_sim_def)
  moreover have "simulates h c c' (h, l\<lparr>cur_iter := hd_addr ys 0\<rparr>)"
    by (rule simulates_same [OF assms(1)]) (simp_all add: y(2))
  ultimately show ?thesis by blast
qed


lemma op_sim:
  assumes "list_sim (h, l) c" "length (cl_cells c) < 2 ^ 32" "abs_op (dom h) c x = Some (c', r)"
  shows "\<exists>hl. conc_op (h, l) x = Some (hl, r) \<and> simulates h c c' hl"
proof -
  note same = simulates_same [OF assms(1)]
  have rep: "list_rep h l (cl_cells c)" using assms(1) by (simp add: list_sim_def)
  show ?thesis
  proof (cases x)
    case (Append a d flags)
    then show ?thesis
      using assms append_sim [OF assms(1), of a d flags] by (auto split: if_splits)
  next
    case (Delete d)
    then show ?thesis using assms(3) delete_sim [OF assms(1), of d] by auto
  next
    case (Seek f key)
    have "list_rep h (ws_list_attributes_seeker l (Some f)) (cl_cells c)"
      using rep by (simp add: list_rep_def ws_list_attributes_seeker_def)
    then have "ws_list_seek h (ws_list_attributes_seeker l (Some f)) key = Some (cl_seek (\<lambda>d. f d key = 1) c)"
      using seek_eq [of h _ "cl_cells c" f key] by (simp add: ws_list_attributes_seeker_def cl_seek_def)
    then show ?thesis
      using assms(1,3) Seek same [of "ws_list_attributes_seeker l (Some f)" c]
      by (auto simp: ws_list_attributes_seeker_def list_sim_def)
  next
    case (Get_At pos)
    then show ?thesis
      using assms get_at_eq [OF rep, of pos] same [of l c] by (auto simp: list_sim_def)
  next
    case Iter_Start
    then show ?thesis
      using assms same [of "ws_list_iterator_start l" c']
      by (auto simp: list_sim_def list_rep_def ws_list_iterator_start_def cl_iterator_start_def)
  next
    case Iter_Next
    then show ?thesis
      using assms(3) iterator_next_sim [OF assms(1)] by auto
  next
    case Iter_Stop
    then show ?thesis
      using assms same [of "ws_list_iterator_stop l" c']
      by (auto simp: ws_list_iterator_stop_def cl_iterator_stop_def)
  next
    case Count
    then show ?thesis
      using assms same [of l c] list_rep_count [OF rep]
      by (auto simp: list_sim_def ws_list_size_def unat_of_nat)
  next
    case Clear
    then show ?thesis using assms(3) destroy_sim [OF assms(1)] by auto
  next
    case Destroy
    then show ?thesis using assms(3) destroy_sim [OF assms(1)] by auto
  qed
qed

text \<open>
  A whole session: the addresses in use are tracked, so that an entry freed by the list may
  be handed out again by a later append.
\<close>

fun conc_run :: "heap \<times> list_t \<Rightarrow> list_op list \<Rightarrow> ((heap \<times> list_t) \<times> int list) option" where
  "conc_run s [] = Some (s, [])"
| "conc_run s (x # xs) = Option.bind (conc_op s x) (\<lambda>(s, r).
     map_option (\<lambda>(s, rs). (s, r # rs)) (conc_run s xs))"

fun abs_run :: "addr set \<Rightarrow> cell_list \<Rightarrow> list_op list \<Rightarrow> (cell_list \<times> int list) option" where
  "abs_run used c [] = Some (c, [])"
| "abs_run used c (x # xs) =
     (if length (cl_cells c) < 2 ^ 32 then
        Option.bind (abs_op used c x) (\<lambda>(c', r).
        map_option (\<lambda>(c, rs). (c, r # rs)) (abs_run (used - own c \<union> own c') c' xs))
      else None)"

lemma list_sim_own: "list_sim (h, l) c \<Longrightarrow> own c \<subseteq> dom h"
  by (auto simp: list_sim_def list_rep_def own_def dest: dll_dom)

lemma simulates_dom:
  assumes "list_sim (h, l) c" "simulates h c c' (h', l')"
  shows "dom h' = dom h - own c \<union> own c'"
proof -
  have "own c' \<subseteq> dom h'" using assms(2) by (intro list_sim_own [of h' l']) (simp add: simulates_def)
  moreover have "b \<in> dom h' \<longleftrightarrow> b \<in> dom h" if "b \<notin> own c \<union> own c'" for b
    using assms(2) that by (simp add: simulates_def domIff)
  moreover have "b \<notin> dom h'" if "b \<in> own c - own c'" for b
    using assms(2) that by (simp add: simulates_def domIff)
  ultimately show ?thesis by blast
qed

lemma set_drop_first: "set (drop_first d xs) \<subseteq> set xs"
  by (induction xs) auto

lemma own_delete: "own (cl_delete c d) \<subseteq> own c"
  using set_drop_first [of d "cl_cells c"] by (auto simp: own_def cl_delete_def)

lemma abs_op_own: "abs_op used c x = Some (c', r) \<Longrightarrow> own c' \<inter> used \<subseteq> own c"
  using own_delete [of c]
  by (cases x) (auto simp: own_def cl_append_def cl_clear_def cl_iterator_start_def
      cl_iterator_stop_def cl_iterator_next_def split: if_splits list.splits)

lemma run_sim:
  assumes "list_sim (h, l) c" "abs_run (dom h) c xs = Some (c', rs)"
  shows "\<exists>h' l'. conc_run (h, l) xs = Some ((h', l'), rs) \<and> list_sim (h', l') c' \<and>
     dom h' = dom h - own c \<union> own c' \<and> (\<forall>b \<in> dom h - own c. h' b = h b)"
  using assms
proof (induction xs arbitrary: h l c rs)
  case Nil
  then show ?case using list_sim_own [OF Nil(1)] by auto
next
  case (Cons x xs)
  from Cons.prems(2) obtain c1 r rs1 where
    len: "length (cl_cells c) < 2 ^ 32" and st: "abs_op (dom h) c x = Some (c1, r)"
    and rest: "abs_run (dom h - own c \<union> own c1) c1 xs = Some (c', rs1)" and rs: "rs = r # rs1"
    by (auto simp: Option.bind_eq_Some_conv split: if_splits)
  obtain h1 l1 where s1: "conc_op (h, l) x = Some ((h1, l1), r)" "simulates h c c1 (h1, l1)"
    using op_sim [OF Cons.prems(1) len st] by auto
  have d1: "dom h1 = dom h - own c \<union> own c1" by (rule simulates_dom [OF Cons.prems(1) s1(2)])
  have "list_sim (h1, l1) c1" using s1(2) by (simp add: simulates_def)
  from Cons.IH [OF this] rest d1 obtain h' l' where
    r1: "conc_run (h1, l1) xs = Some ((h', l'), rs1)" "list_sim (h', l') c'"
      "dom h' = dom h1 - own c1 \<union> own c'" "\<forall>b \<in> dom h1 - own c1. h' b = h1 b"
    by auto
  have own1: "own c1 \<inter> dom h \<subseteq> own c" by (rule abs_op_own [OF st])
  then have "dom h' = dom h - own c \<union> own c'" unfolding r1(3) d1 by blast
  moreover have "h' b = h b" if "b \<in> dom h - own c" for b
  proof -
    have b: "b \<notin> own c" "b \<notin> own c1" "b \<in> dom h1 - own c1" using that own1 d1 by blast+
    then show ?thesis using r1(4) s1(2) by (simp add: simulates_def)
  qed
  ultimately show ?case using r1(1,2) s1(1) rs by auto
qed

subsection \<open>Properties\<close>


definition session_example :: "list_op list" where
  "session_example = [Append 5 100 0, Append 6 200 1, Append 7 300 0, Iter_Start, Iter_Next,
     Delete 100, Append 5 400 0, Iter_Stop, Count, Get_At 2]"


end
