(* ===== verification/Variables.thy ===== *)
theory Variables
  imports CellList StringUtils "HOL-Library.Monad_Syntax"
begin

text \<open>
  Variables and variable stores: \<open>lib/src/variable.c\<close>, \<open>variable_store.c\<close>,
  \<open>variable_global.c\<close>, \<open>variable_render.c\<close> and the store of \<open>server_config.c\<close>.

  Variables and stores live at addresses, because references and arrays alias them. A heap
  maps addresses of live variables and live stores to their contents; 0 is the null pointer;
  an access through a pointer to a freed object is \<open>None\<close>. Allocation takes the next unused
  address (\<open>WebserverMalloc\<close> does not return on failure). The calls of the free handlers of
  custom data are recorded in \<open>custom_log\<close>. Lists are used through \<open>CellList\<close>.
\<close>

datatype ws_value =
    VAR_TYPE_EMPTY
  | VAR_TYPE_STRING string nat
  | VAR_TYPE_INT u32
  | VAR_TYPE_ULONG u64
  | VAR_TYPE_LONG u64
  | VAR_TYPE_ARRAY addr
  | VAR_TYPE_REF addr
  | VAR_TYPE_CUSTOM_DATA ptr ptr

text \<open>A string value carries its text and the recorded length, custom data its free handler.\<close>

record ws_variable =
  v_name :: "string option"
  name_len :: nat
  v_val :: ws_value

record vheap =
  vars :: "addr \<rightharpoonup> ws_variable"
  stores :: "addr \<rightharpoonup> cell_list"
  brk :: addr
  custom_log :: "(ptr \<times> ptr) list"

definition set_var :: "addr \<Rightarrow> ws_variable \<Rightarrow> vheap \<Rightarrow> vheap" where
  "set_var v x h = h\<lparr>vars := (vars h)(v \<mapsto> x)\<rparr>"

definition set_store :: "addr \<Rightarrow> cell_list \<Rightarrow> vheap \<Rightarrow> vheap" where
  "set_store st s h = h\<lparr>stores := (stores h)(st \<mapsto> s)\<rparr>"

definition free_var_cell :: "addr \<Rightarrow> vheap \<Rightarrow> vheap" where
  "free_var_cell v h = h\<lparr>vars := (vars h)(v := None)\<rparr>"

definition free_store_cell :: "addr \<Rightarrow> vheap \<Rightarrow> vheap" where
  "free_store_cell st h = h\<lparr>stores := (stores h)(st := None)\<rparr>"

subsection \<open>Iterating a store (variable_store.c)\<close>

definition getNextVariable :: "vheap \<Rightarrow> addr \<Rightarrow> (vheap \<times> ptr) option" where
  "getNextVariable h st =
     (if st = 0 then Some (h, 0)
      else do {
        s \<leftarrow> stores h st;
        if cl_iter s = 0 then Some (set_store st (cl_iterator_stop s) h, 0)
        else do {
          (s, v) \<leftarrow> cl_iterator_next s;
          Some (set_store st s h, v)
        }
      })"

definition getFirstVariable :: "vheap \<Rightarrow> addr \<Rightarrow> (vheap \<times> ptr) option" where
  "getFirstVariable h st =
     (if st = 0 then Some (h, 0)
      else do {
        s \<leftarrow> stores h st;
        if length (cl_cells s) = 0 then Some (h, 0)
        else
          let s = cl_iterator_start s in
          if cl_iter s = 0 then Some (set_store st (cl_iterator_stop s) h, 0)
          else do {
            (s, v) \<leftarrow> cl_iterator_next s;
            Some (set_store st s h, v)
          }
      })"

definition stopIterateVariable :: "vheap \<Rightarrow> addr \<Rightarrow> vheap option" where
  "stopIterateVariable h st =
     (if st = 0 then Some h
      else do { s \<leftarrow> stores h st; Some (set_store st (cl_iterator_stop s) h) })"

subsection \<open>Freeing (variable.c, variable_store.c)\<close>

text \<open>
  Freeing a variable frees its value, freeing an array deletes its store, deleting a store
  frees its variables: the mutually recursive functions are one function over the call.
\<close>

datatype free_call =
    Free_Variable ptr
  | Free_Value ptr
  | Clear_Variables addr
  | Clear_Loop addr ptr
  | Delete_Store addr

partial_function (option) free_run :: "free_call \<Rightarrow> vheap \<Rightarrow> vheap option" where
  "free_run call h = (case call of
     Free_Variable v \<Rightarrow>
       (if v = 0 then Some h
        else do {
          x \<leftarrow> vars h v;
          let h = set_var v (x\<lparr>v_name := None\<rparr>) h;
          h \<leftarrow> free_run (Free_Value v) h;
          y \<leftarrow> vars h v;
          Some (free_var_cell v h)
        })
   | Free_Value v \<Rightarrow>
       (if v = 0 then Some h
        else do {
          x \<leftarrow> vars h v;
          h \<leftarrow> (case v_val x of
             VAR_TYPE_ARRAY st \<Rightarrow> free_run (Delete_Store st) h
           | VAR_TYPE_CUSTOM_DATA p handle \<Rightarrow> Some (h\<lparr>custom_log := custom_log h @ [(handle, p)]\<rparr>)
           | _ \<Rightarrow> Some h);
          x \<leftarrow> vars h v;
          Some (set_var v (x\<lparr>v_val := VAR_TYPE_EMPTY\<rparr>) h)
        })
   | Clear_Variables st \<Rightarrow>
       (if st = 0 then Some h
        else do {
          (h, v) \<leftarrow> getFirstVariable h st;
          h \<leftarrow> free_run (Clear_Loop st v) h;
          h \<leftarrow> stopIterateVariable h st;
          s \<leftarrow> stores h st;
          Some (set_store st (cl_clear s) h)
        })
   | Clear_Loop st v \<Rightarrow>
       (if v = 0 then Some h
        else do {
          h \<leftarrow> free_run (Free_Variable v) h;
          (h, v) \<leftarrow> getNextVariable h st;
          free_run (Clear_Loop st v) h
        })
   | Delete_Store st \<Rightarrow> do {
       h \<leftarrow> free_run (Clear_Variables st) h;
       s \<leftarrow> stores h st;
       let s = cl_clear s;
       Some (free_store_cell st h)
     })"

definition freeWSVariable :: "vheap \<Rightarrow> ptr \<Rightarrow> vheap option" where
  "freeWSVariable h v = free_run (Free_Variable v) h"

definition freeWSVariableValue :: "vheap \<Rightarrow> ptr \<Rightarrow> vheap option" where
  "freeWSVariableValue h v = free_run (Free_Value v) h"

definition clearVariables :: "vheap \<Rightarrow> addr \<Rightarrow> vheap option" where
  "clearVariables h st = free_run (Clear_Variables st) h"

definition deleteVariableStore :: "vheap \<Rightarrow> addr \<Rightarrow> vheap option" where
  "deleteVariableStore h st = free_run (Delete_Store st) h"

subsection \<open>Stores\<close>

definition createVariableStore :: "vheap \<Rightarrow> vheap \<times> addr" where
  "createVariableStore h = (set_store (brk h) cl_empty (h\<lparr>brk := brk h + 1\<rparr>), brk h)"

definition newWSVariable :: "vheap \<Rightarrow> string option \<Rightarrow> vheap \<times> ptr" where
  "newWSVariable h name =
     (let v = brk h; h = h\<lparr>brk := brk h + 1\<rparr> in
      case name of
        None \<Rightarrow> (set_var v \<lparr>v_name = None, name_len = 0, v_val = VAR_TYPE_EMPTY\<rparr> h, v)
      | Some n \<Rightarrow>
          (set_var v \<lparr>v_name = Some (cstr n), name_len = strlen n, v_val = VAR_TYPE_EMPTY\<rparr> h, v))"

text \<open>The seeker compares names; an unnamed reference has the name of what it refers to.\<close>

definition var_seeker :: "vheap \<Rightarrow> ptr \<Rightarrow> string \<Rightarrow> bool option" where
  "var_seeker h v key =
     (if v = 0 then Some False
      else do {
        x \<leftarrow> vars h v;
        case (v_name x, v_val x) of
          (None, VAR_TYPE_REF r) \<Rightarrow> do { y \<leftarrow> vars h r; n \<leftarrow> v_name y; Some (strcmp key n = 0) }
        | (None, _) \<Rightarrow> None
        | (Some n, _) \<Rightarrow> Some (strcmp n key = 0)
      })"

fun seek_cells :: "vheap \<Rightarrow> string \<Rightarrow> cells \<Rightarrow> ptr option" where
  "seek_cells h key [] = Some 0"
| "seek_cells h key (x # xs) = do {
     found \<leftarrow> var_seeker h (snd x) key;
     if found then Some (snd x) else seek_cells h key xs
   }"

definition searchVariable :: "vheap \<Rightarrow> addr \<Rightarrow> string \<Rightarrow> ptr option" where
  "searchVariable h st name =
     (if st = 0 then Some 0 else do { s \<leftarrow> stores h st; seek_cells h name (cl_cells s) })"

definition getVariable :: "vheap \<Rightarrow> addr \<Rightarrow> string \<Rightarrow> ptr option" where
  "getVariable h st name = (if st = 0 then Some 0 else searchVariable h st name)"

definition addVariable :: "vheap \<Rightarrow> addr \<Rightarrow> ptr \<Rightarrow> vheap option" where
  "addVariable h st v =
     (if st = 0 then Some h
      else do {
        s \<leftarrow> stores h st;
        Some (set_store st (cl_append (brk h) s v 0) (h\<lparr>brk := brk h + 1\<rparr>))
      })"

abbreviation (input) NO_CHECK_NAME_EXISTS :: u32 where "NO_CHECK_NAME_EXISTS \<equiv> 1"

definition newVariable :: "vheap \<Rightarrow> addr \<Rightarrow> string option \<Rightarrow> u32 \<Rightarrow> (vheap \<times> ptr) option" where
  "newVariable h st name flags =
     (if st = 0 then Some (h, 0)
      else case name of
        Some n \<Rightarrow>
          (if flags AND NO_CHECK_NAME_EXISTS \<noteq> 0 then
             (let (h, v) = newWSVariable h (Some n) in do { h \<leftarrow> addVariable h st v; Some (h, v) })
           else do {
             v \<leftarrow> searchVariable h st n;
             if v = 0 then
               (let (h, v) = newWSVariable h (Some n) in do { h \<leftarrow> addVariable h st v; Some (h, v) })
             else Some (h, v)
           })
      | None \<Rightarrow>
          (let (h, v) = newWSVariable h (Some []) in do { h \<leftarrow> addVariable h st v; Some (h, v) }))"

definition freeVariable :: "vheap \<Rightarrow> addr \<Rightarrow> ptr \<Rightarrow> vheap option" where
  "freeVariable h st v =
     (if v = 0 then Some h
      else if st = 0 then Some h
      else do {
        s \<leftarrow> stores h st;
        freeWSVariable (set_store st (cl_delete s v) h) v
      })"

definition delVariable :: "vheap \<Rightarrow> addr \<Rightarrow> string \<Rightarrow> vheap option" where
  "delVariable h st name =
     (if st = 0 then Some h
      else do { v \<leftarrow> searchVariable h st name; freeVariable h st v })"

subsection \<open>Values (variable.c)\<close>

definition set_value :: "vheap \<Rightarrow> ptr \<Rightarrow> (ws_variable \<Rightarrow> ws_value) \<Rightarrow> vheap option" where
  "set_value h v f =
     (if v = 0 then Some h
      else do {
        h \<leftarrow> freeWSVariableValue h v;
        x \<leftarrow> vars h v;
        Some (set_var v (x\<lparr>v_val := f x\<rparr>) h)
      })"

text \<open>Without a text the string is a note in a buffer of 100 bytes; \<open>%s\<close> of a null name is
  printed as \<open>(null)\<close>. The recorded length is that of the untruncated note.\<close>

definition missing_text :: "ws_variable \<Rightarrow> string" where
  "missing_text x = ''Var '' @ (case v_name x of None \<Rightarrow> ''(null)'' | Some n \<Rightarrow> n) @ '' text=0x0''"

definition setWSVariableString :: "vheap \<Rightarrow> ptr \<Rightarrow> string option \<Rightarrow> vheap option" where
  "setWSVariableString h v txt = set_value h v (\<lambda>x. case txt of
     Some t \<Rightarrow> VAR_TYPE_STRING (cstr t) (strlen t)
   | None \<Rightarrow> VAR_TYPE_STRING (take 99 (missing_text x)) (length (missing_text x)))"

definition setWSVariableCustomData :: "vheap \<Rightarrow> ptr \<Rightarrow> ptr \<Rightarrow> ptr \<Rightarrow> vheap option" where
  "setWSVariableCustomData h v handle d = set_value h v (\<lambda>x. VAR_TYPE_CUSTOM_DATA d handle)"

definition setWSVariableInt :: "vheap \<Rightarrow> ptr \<Rightarrow> u32 \<Rightarrow> vheap option" where
  "setWSVariableInt h v i = set_value h v (\<lambda>x. VAR_TYPE_INT i)"

definition setWSVariableULong :: "vheap \<Rightarrow> ptr \<Rightarrow> u64 \<Rightarrow> vheap option" where
  "setWSVariableULong h v i = set_value h v (\<lambda>x. VAR_TYPE_ULONG i)"

definition setWSVariableLong :: "vheap \<Rightarrow> ptr \<Rightarrow> u64 \<Rightarrow> vheap option" where
  "setWSVariableLong h v i = set_value h v (\<lambda>x. VAR_TYPE_LONG i)"

definition setWSVariableRef :: "vheap \<Rightarrow> ptr \<Rightarrow> ptr \<Rightarrow> vheap option" where
  "setWSVariableRef h v r = set_value h v (\<lambda>x. VAR_TYPE_REF r)"

definition setWSVariableArray :: "vheap \<Rightarrow> ptr \<Rightarrow> vheap option" where
  "setWSVariableArray h v =
     (if v = 0 then Some h
      else do {
        h \<leftarrow> freeWSVariableValue h v;
        x \<leftarrow> vars h v;
        let (h, st) = createVariableStore h;
        Some (set_var v (x\<lparr>v_val := VAR_TYPE_ARRAY st\<rparr>) h)
      })"

definition newWSArray :: "vheap \<Rightarrow> string option \<Rightarrow> (vheap \<times> ptr) option" where
  "newWSArray h name =
     (let (h, v) = newWSVariable h name in do { h \<leftarrow> setWSVariableArray h v; Some (h, v) })"

definition refVariable :: "vheap \<Rightarrow> addr \<Rightarrow> ptr \<Rightarrow> string option \<Rightarrow> (vheap \<times> ptr) option" where
  "refVariable h st r new_name =
     (let (h, v) = newWSVariable h new_name in do {
        h \<leftarrow> setWSVariableRef h v r;
        h \<leftarrow> addVariable h st v;
        Some (h, v)
      })"

text \<open>\<open>snprintf\<close> into a buffer of \<open>n\<close> bytes: truncated, terminated, the full length returned.\<close>

definition snprintf :: "string \<Rightarrow> nat \<Rightarrow> string \<Rightarrow> string \<times> int" where
  "snprintf buffer n txt =
     (if n = 0 then buffer else take (n - 1) txt @ NUL # drop (length (take (n - 1) txt) + 1) buffer,
      int (length txt))"

text \<open>The test \<open>val.value_p == 0\<close> reads the union as a pointer: it also holds for the numbers 0.\<close>

definition value_p_null :: "ws_value \<Rightarrow> bool" where
  "value_p_null x = (case x of
     VAR_TYPE_EMPTY \<Rightarrow> True
   | VAR_TYPE_STRING t n \<Rightarrow> False
   | VAR_TYPE_INT i \<Rightarrow> i = 0
   | VAR_TYPE_ULONG i \<Rightarrow> i = 0
   | VAR_TYPE_LONG i \<Rightarrow> i = 0
   | VAR_TYPE_ARRAY st \<Rightarrow> st = 0
   | VAR_TYPE_REF r \<Rightarrow> r = 0
   | VAR_TYPE_CUSTOM_DATA p handle \<Rightarrow> p = 0)"

definition is_int :: "ws_value \<Rightarrow> bool" where
  "is_int x = (case x of VAR_TYPE_INT i \<Rightarrow> True | _ \<Rightarrow> False)"

partial_function (option) getWSVariableString ::
  "vheap \<Rightarrow> ptr \<Rightarrow> string \<Rightarrow> nat \<Rightarrow> (string \<times> int) option" where
  "getWSVariableString h v buffer buffer_length =
     (let buffer = (if buffer_length > 0 then buffer[0 := NUL] else buffer) in
      if v = 0 then Some (buffer, - 1)
      else Option.bind (vars h v) (\<lambda>x.
        if value_p_null (v_val x) \<and> \<not> is_int (v_val x)
        then Some (snprintf buffer buffer_length ''Empty'')
        else case v_val x of
          VAR_TYPE_EMPTY \<Rightarrow> Some (snprintf buffer buffer_length ''Empty'')
        | VAR_TYPE_ARRAY st \<Rightarrow> Some (snprintf buffer buffer_length ''Array'')
        | VAR_TYPE_STRING t n \<Rightarrow> Some (snprintf buffer buffer_length t)
        | VAR_TYPE_INT i \<Rightarrow> Some (snprintf buffer buffer_length (fmt_d (sint i)))
        | VAR_TYPE_ULONG i \<Rightarrow> Some (snprintf buffer buffer_length (fmt_d (uint i)))
        | VAR_TYPE_LONG i \<Rightarrow> Some (snprintf buffer buffer_length (fmt_d (sint i)))
        | VAR_TYPE_CUSTOM_DATA p handle \<Rightarrow> Some (snprintf buffer buffer_length ''custom_data'')
        | VAR_TYPE_REF r \<Rightarrow> getWSVariableString h r buffer buffer_length))"

text \<open>
  \<open>sscanf\<close> with an integer conversion: white space, a sign, digits. No digits, or a number
  the type cannot hold, leave the target indeterminate: \<open>None\<close>.
\<close>

definition isspace :: "char \<Rightarrow> bool" where
  "isspace c \<longleftrightarrow> code c = 32 \<or> 9 \<le> code c \<and> code c \<le> 13"

definition isdigit :: "char \<Rightarrow> bool" where
  "isdigit c \<longleftrightarrow> 48 \<le> code c \<and> code c \<le> 57"

definition dec_value :: "string \<Rightarrow> nat" where
  "dec_value ds = foldl (\<lambda>n c. n * 10 + (code c - 48)) 0 ds"

definition scan_int :: "string \<Rightarrow> int option" where
  "scan_int s =
     (let s = dropWhile isspace (cstr s);
          neg = (s \<noteq> [] \<and> hd s = CHR ''-'');
          s = (if s \<noteq> [] \<and> (hd s = CHR ''-'' \<or> hd s = CHR ''+'') then tl s else s);
          ds = takeWhile isdigit s
      in if ds = [] then None
         else Some (if neg then - int (dec_value ds) else int (dec_value ds)))"

definition sscanf_d :: "string \<Rightarrow> u32 option" where
  "sscanf_d s = do { i \<leftarrow> scan_int s; if - (2 ^ 31) \<le> i \<and> i < 2 ^ 31 then Some (word_of_int i) else None }"

definition sscanf_u64 :: "string \<Rightarrow> u64 option" where
  "sscanf_u64 s = do { i \<leftarrow> scan_int s; if \<bar>i\<bar> < 2 ^ 64 then Some (word_of_int i) else None }"

definition sscanf_d64 :: "string \<Rightarrow> u64 option" where
  "sscanf_d64 s = do { i \<leftarrow> scan_int s; if - (2 ^ 63) \<le> i \<and> i < 2 ^ 63 then Some (word_of_int i) else None }"

definition getWSVariableInt :: "vheap \<Rightarrow> ptr \<Rightarrow> u32 option" where
  "getWSVariableInt h v =
     (if v = 0 then Some 0
      else do {
        x \<leftarrow> vars h v;
        case v_val x of
          VAR_TYPE_STRING t n \<Rightarrow> sscanf_d t
        | VAR_TYPE_INT i \<Rightarrow> Some i
        | VAR_TYPE_ULONG i \<Rightarrow> Some (ucast i)
        | VAR_TYPE_LONG i \<Rightarrow> Some (ucast i)
        | _ \<Rightarrow> Some 0
      })"

definition getWSVariableULong :: "vheap \<Rightarrow> ptr \<Rightarrow> u64 option" where
  "getWSVariableULong h v =
     (if v = 0 then Some 0
      else do {
        x \<leftarrow> vars h v;
        case v_val x of
          VAR_TYPE_STRING t n \<Rightarrow> sscanf_u64 t
        | VAR_TYPE_INT i \<Rightarrow> Some (scast i)
        | VAR_TYPE_ULONG i \<Rightarrow> Some i
        | VAR_TYPE_LONG i \<Rightarrow> Some i
        | _ \<Rightarrow> Some 0
      })"

definition getWSVariableLong :: "vheap \<Rightarrow> ptr \<Rightarrow> u64 option" where
  "getWSVariableLong h v =
     (if v = 0 then Some 0
      else do {
        x \<leftarrow> vars h v;
        case v_val x of
          VAR_TYPE_STRING t n \<Rightarrow> sscanf_d64 t
        | VAR_TYPE_INT i \<Rightarrow> Some (scast i)
        | VAR_TYPE_ULONG i \<Rightarrow> Some i
        | VAR_TYPE_LONG i \<Rightarrow> Some i
        | _ \<Rightarrow> Some 0
      })"

subsection \<open>Arrays (variable.c)\<close>

definition getWSVariableArray :: "vheap \<Rightarrow> ptr \<Rightarrow> string \<Rightarrow> ptr option" where
  "getWSVariableArray h v name =
     (if v = 0 then Some 0
      else do {
        x \<leftarrow> vars h v;
        case v_val x of
          VAR_TYPE_ARRAY st \<Rightarrow> getVariable h st name
        | VAR_TYPE_REF r \<Rightarrow> do {
            y \<leftarrow> vars h r;
            case v_val y of VAR_TYPE_ARRAY st \<Rightarrow> getVariable h st name | _ \<Rightarrow> Some 0
          }
        | _ \<Rightarrow> Some 0
      })"

definition addWSVariableArray :: "vheap \<Rightarrow> ptr \<Rightarrow> string option \<Rightarrow> u32 \<Rightarrow> (vheap \<times> ptr) option" where
  "addWSVariableArray h v name flags =
     (if v = 0 then Some (h, 0)
      else do {
        x \<leftarrow> vars h v;
        case v_val x of
          VAR_TYPE_ARRAY st \<Rightarrow> newVariable h st name flags
        | VAR_TYPE_REF r \<Rightarrow> do {
            y \<leftarrow> vars h r;
            case v_val y of VAR_TYPE_ARRAY st \<Rightarrow> newVariable h st name flags | _ \<Rightarrow> Some (h, 0)
          }
        | _ \<Rightarrow> Some (h, 0)
      })"

definition refWSVariableArray :: "vheap \<Rightarrow> ptr \<Rightarrow> ptr \<Rightarrow> (vheap \<times> ptr) option" where
  "refWSVariableArray h v r = do {
     x \<leftarrow> vars h v;
     (case v_val x of
        VAR_TYPE_ARRAY st \<Rightarrow> do {
          (h, w) \<leftarrow> newVariable h st None 0;
          h \<leftarrow> setWSVariableRef h w r;
          Some (h, w)
        }
      | y \<Rightarrow> (if value_p_null y then Some (h, 0) else None))
   }"

definition delWSVariableArray :: "vheap \<Rightarrow> ptr \<Rightarrow> string \<Rightarrow> vheap option" where
  "delWSVariableArray h v name =
     (if v = 0 then Some h
      else do {
        x \<leftarrow> vars h v;
        case v_val x of
          VAR_TYPE_ARRAY st \<Rightarrow> do {
            w \<leftarrow> getWSVariableArray h v name;
            freeVariable h st w
          }
        | _ \<Rightarrow> Some h
      })"

definition getWSVariableArrayFirst :: "vheap \<Rightarrow> ptr \<Rightarrow> (vheap \<times> ptr) option" where
  "getWSVariableArrayFirst h v =
     (if v = 0 then Some (h, 0)
      else do {
        x \<leftarrow> vars h v;
        case v_val x of VAR_TYPE_ARRAY st \<Rightarrow> getFirstVariable h st | _ \<Rightarrow> Some (h, 0)
      })"

definition getWSVariableArrayNext :: "vheap \<Rightarrow> ptr \<Rightarrow> (vheap \<times> ptr) option" where
  "getWSVariableArrayNext h v =
     (if v = 0 then Some (h, 0)
      else do {
        x \<leftarrow> vars h v;
        case v_val x of VAR_TYPE_ARRAY st \<Rightarrow> getNextVariable h st | _ \<Rightarrow> Some (h, 0)
      })"

definition stopWSVariableArrayIterate :: "vheap \<Rightarrow> ptr \<Rightarrow> vheap option" where
  "stopWSVariableArrayIterate h v =
     (if v = 0 then Some h
      else do {
        x \<leftarrow> vars h v;
        case v_val x of VAR_TYPE_ARRAY st \<Rightarrow> stopIterateVariable h st | _ \<Rightarrow> Some h
      })"

text \<open>The loops over the members: \<open>i\<close> counts the members visited, \<open>v\<close> is the current one.\<close>

partial_function (option) array_index_loop ::
  "vheap \<Rightarrow> addr \<Rightarrow> u32 \<Rightarrow> u32 \<Rightarrow> ptr \<Rightarrow> (vheap \<times> ptr) option" where
  "array_index_loop h st ix i v =
     (if v = 0 then Some (h, 0)
      else if i = ix then
        Option.bind (stopIterateVariable h st) (\<lambda>h. Some (h, v))
      else
        Option.bind (getNextVariable h st) (\<lambda>(h, v). array_index_loop h st ix (i + 1) v))"

definition getWSVariableArrayIndex :: "vheap \<Rightarrow> ptr \<Rightarrow> u32 \<Rightarrow> (vheap \<times> ptr) option" where
  "getWSVariableArrayIndex h v ix =
     (if v = 0 then Some (h, 0)
      else do {
        x \<leftarrow> vars h v;
        case v_val x of
          VAR_TYPE_ARRAY st \<Rightarrow> do {
            (h, w) \<leftarrow> getFirstVariable h st;
            array_index_loop h st ix 0 w
          }
        | _ \<Rightarrow> Some (h, 0)
      })"

partial_function (option) add_index_find ::
  "vheap \<Rightarrow> addr \<Rightarrow> u32 \<Rightarrow> u32 \<Rightarrow> ptr \<Rightarrow> (vheap \<times> u32 \<times> ptr) option" where
  "add_index_find h st ix i v =
     (if v = 0 then Some (h, i, 0)
      else if i = ix then Some (h, i, v)
      else Option.bind (getNextVariable h st) (\<lambda>(h, v). add_index_find h st ix (i + 1) v))"

partial_function (option) add_index_grow ::
  "vheap \<Rightarrow> addr \<Rightarrow> u32 \<Rightarrow> u32 \<Rightarrow> ptr \<Rightarrow> (vheap \<times> ptr) option" where
  "add_index_grow h st ix i v =
     (if i \<le> ix then
        Option.bind (newVariable h st (Some (take 9 (fmt_d (sint i)))) 0)
          (\<lambda>(h, v). add_index_grow h st ix (i + 1) v)
      else Some (h, v))"

definition addWSVariableArrayIndex :: "vheap \<Rightarrow> ptr \<Rightarrow> u32 \<Rightarrow> (vheap \<times> ptr) option" where
  "addWSVariableArrayIndex h v ix =
     (if v = 0 then Some (h, 0)
      else do {
        x \<leftarrow> vars h v;
        case v_val x of
          VAR_TYPE_ARRAY st \<Rightarrow> do {
            (h, w) \<leftarrow> getFirstVariable h st;
            (h, i, w) \<leftarrow> add_index_find h st ix 0 w;
            if w \<noteq> 0 then Some (h, w) else add_index_grow h st ix i w
          }
        | _ \<Rightarrow> Some (h, 0)
      })"

subsection \<open>Sizes (variable.c, variable_store.c)\<close>

datatype size_call = Variable_Size ptr | Store_Size addr | Store_Loop addr ptr u32

text \<open>
  The sizes of the two structures are parameters (\<open>sv\<close>, \<open>ss\<close>). The store's size is an
  \<open>unsigned int\<close> that every addition reduces to 32 bits, the variable's a \<open>size_t\<close>. Walking
  a store moves its iterator, so the heap is threaded through.
\<close>

partial_function (option) size_run :: "u64 \<Rightarrow> u64 \<Rightarrow> size_call \<Rightarrow> vheap \<Rightarrow> (vheap \<times> u64) option" where
  "size_run sv ss call h = (case call of
     Variable_Size v \<Rightarrow>
       (if v = 0 then Some (h, 0)
        else do {
          x \<leftarrow> vars h v;
          let ret = sv + (of_nat (name_len x) + 1);
          (case v_val x of
             VAR_TYPE_STRING t n \<Rightarrow> Some (h, ret + (of_nat n + 1))
           | VAR_TYPE_ARRAY st \<Rightarrow> do {
               (h, n) \<leftarrow> size_run sv ss (Store_Size st) h;
               Some (h, ret + n)
             }
           | _ \<Rightarrow> Some (h, ret))
        })
   | Store_Size st \<Rightarrow>
       (if st = 0 then Some (h, 0)
        else do {
          (h, v) \<leftarrow> getFirstVariable h st;
          size_run sv ss (Store_Loop st v 0) h
        })
   | Store_Loop st v ret \<Rightarrow>
       (if v = 0 then Some (h, ucast (ret + ucast ss))
        else do {
          (h, n) \<leftarrow> size_run sv ss (Variable_Size v) h;
          let ret = ret + ucast n;
          (h, v) \<leftarrow> getNextVariable h st;
          size_run sv ss (Store_Loop st v ret) h
        }))"

definition getWSVariableSize :: "u64 \<Rightarrow> u64 \<Rightarrow> vheap \<Rightarrow> ptr \<Rightarrow> (vheap \<times> u64) option" where
  "getWSVariableSize sv ss h v = size_run sv ss (Variable_Size v) h"

definition getVariableStoreSize :: "u64 \<Rightarrow> u64 \<Rightarrow> vheap \<Rightarrow> addr \<Rightarrow> (vheap \<times> u64) option" where
  "getVariableStoreSize sv ss h st = size_run sv ss (Store_Size st) h"

subsection \<open>Global and render variables (variable\_global.c, variable\_render.c)\<close>

text \<open>\<open>g\<close> is the address of the global store, 0 before it is created.\<close>

definition setGlobalVariable :: "vheap \<Rightarrow> addr \<Rightarrow> string \<Rightarrow> string option \<Rightarrow> (vheap \<times> ptr) option" where
  "setGlobalVariable h g name txt = do {
     (h, v) \<leftarrow> newVariable h g (Some name) 0;
     h \<leftarrow> setWSVariableString h v txt;
     Some (h, v)
   }"

definition getGlobalVariable :: "vheap \<Rightarrow> addr \<Rightarrow> string \<Rightarrow> (vheap \<times> ptr) option" where
  "getGlobalVariable h g name = do {
     v \<leftarrow> getVariable h g name;
     if v = 0 then newVariable h g (Some name) 0 else Some (h, v)
   }"

definition getExistentGlobalVariable :: "vheap \<Rightarrow> addr \<Rightarrow> string \<Rightarrow> ptr option" where
  "getExistentGlobalVariable h g name = getVariable h g name"

definition getRenderVariable :: "vheap \<Rightarrow> addr \<Rightarrow> string \<Rightarrow> (vheap \<times> ptr) option" where
  "getRenderVariable h render_var_store name = newVariable h render_var_store (Some name) 0"

definition setRenderVariable :: "vheap \<Rightarrow> addr \<Rightarrow> string \<Rightarrow> string option \<Rightarrow> vheap option" where
  "setRenderVariable h render_var_store name txt = do {
     (h, v) \<leftarrow> newVariable h render_var_store (Some name) 0;
     setWSVariableString h v txt
   }"

end
