(* ===== verification/VariableTables.thy ===== *)
theory VariableTables
  imports Variables
begin

text \<open>
  What the variable stores promise their clients: stores of plain values are tables, in which
  creating and setting a variable is a table update; values survive the conversion to text and
  back; deleting a store frees exactly the tree of variables and stores it owns.
\<close>

subsection \<open>Stores of plain values as tables\<close>

text \<open>
  The parameters of a request, the configuration, the render variables of most templates hold
  numbers and strings only. Such a store is the table of its names and values in the order
  of insertion.
\<close>

definition scalar :: "ws_value \<Rightarrow> bool" where
  "scalar x = (case x of VAR_TYPE_ARRAY st \<Rightarrow> False | VAR_TYPE_REF r \<Rightarrow> False
     | VAR_TYPE_CUSTOM_DATA p handle \<Rightarrow> False | _ \<Rightarrow> True)"

definition var_entry :: "vheap \<Rightarrow> ptr \<Rightarrow> string \<times> ws_value" where
  "var_entry h v = (the (v_name (the (vars h v))), v_val (the (vars h v)))"

definition members :: "vheap \<Rightarrow> addr \<Rightarrow> ptr list" where
  "members h st = map snd (cl_cells (the (stores h st)))"

definition table :: "vheap \<Rightarrow> addr \<Rightarrow> (string \<times> ws_value) list" where
  "table h st = map (var_entry h) (members h st)"

definition heap_ok :: "vheap \<Rightarrow> bool" where
  "heap_ok h \<longleftrightarrow> 0 < brk h \<and> (\<forall>a x. vars h a = Some x \<longrightarrow> 0 < a \<and> a < brk h) \<and>
     (\<forall>a s. stores h a = Some s \<longrightarrow> 0 < a \<and> a < brk h)"

lemma heap_ok_set_var: "heap_ok h \<Longrightarrow> 0 < v \<Longrightarrow> v < brk h \<Longrightarrow> heap_ok (set_var v x h)"
  by (simp add: heap_ok_def set_var_def)

lemma heap_ok_set_store: "heap_ok h \<Longrightarrow> 0 < st \<Longrightarrow> st < brk h \<Longrightarrow> heap_ok (set_store st s h)"
  by (simp add: heap_ok_def set_store_def)

lemma heap_ok_brk: "heap_ok h \<Longrightarrow> brk h \<le> b \<Longrightarrow> heap_ok (h\<lparr>brk := b\<rparr>)"
  by (force simp: heap_ok_def)

definition plain_var :: "vheap \<Rightarrow> ptr \<Rightarrow> bool" where
  "plain_var h v = (case vars h v of None \<Rightarrow> False
     | Some x \<Rightarrow> (case v_name x of None \<Rightarrow> False | Some n \<Rightarrow> nul_free n) \<and> scalar (v_val x))"

definition flat_store :: "vheap \<Rightarrow> addr \<Rightarrow> bool" where
  "flat_store h st \<longleftrightarrow> heap_ok h \<and> st \<in> dom (stores h) \<and> distinct (members h st) \<and>
     (\<forall>v \<in> set (members h st). plain_var h v) \<and> distinct (map fst (table h st))"

fun put :: "'k \<Rightarrow> 'v \<Rightarrow> ('k \<times> 'v) list \<Rightarrow> ('k \<times> 'v) list" where
  "put k v [] = [(k, v)]"
| "put k v (x # xs) = (if fst x = k then (k, v) # xs else x # put k v xs)"

definition touch :: "'k \<Rightarrow> 'v \<Rightarrow> ('k \<times> 'v) list \<Rightarrow> ('k \<times> 'v) list" where
  "touch k e xs = (if k \<in> fst ` set xs then xs else xs @ [(k, e)])"

lemma put_touch: "put k v (touch k e xs) = put k v xs"
  by (induction xs) (auto simp: touch_def)

lemma fst_put: "fst ` set (put k v xs) = insert k (fst ` set xs)"
  by (induction xs) auto

lemma distinct_put: "distinct (map fst xs) \<Longrightarrow> distinct (map fst (put k v xs))"
proof (induction xs)
  case (Cons x xs)
  then show ?case using fst_put [of k v xs] by auto
qed simp

lemma map_of_put: "map_of (put k v xs) = (map_of xs)(k \<mapsto> v)"
  by (induction xs) auto

lemma map_of_touch: "map_of (touch k e xs) j = (if j = k \<and> map_of xs k = None then Some e else map_of xs j)"
proof (cases "k \<in> fst ` set xs")
  case True
  then have "map_of xs k \<noteq> None" by (simp add: map_of_eq_None_iff)
  then show ?thesis using True by (simp add: touch_def)
next
  case False
  then have "map_of xs k = None" by (simp add: map_of_eq_None_iff)
  then show ?thesis using False by (simp add: touch_def map_add_def split: option.splits)
qed

text \<open>
  The contract of a table of named texts, for the components that fill one: an insertion
  with a text sets it, an insertion without one only makes the name known. From it follows
  what a sequence of insertions leaves behind.
\<close>

locale named_texts =
  fixes inv :: "'m \<Rightarrow> bool"
    and tab :: "'m \<Rightarrow> (string \<times> 'v) list"
    and ins :: "'m \<Rightarrow> string \<Rightarrow> string option \<Rightarrow> 'm"
    and entry :: "string \<Rightarrow> 'v"
    and none :: 'v
  assumes ins_inv: "inv m \<Longrightarrow> inv (ins m k txt)"
    and ins_text: "inv m \<Longrightarrow> tab (ins m k (Some t)) = put (cstr k) (entry t) (tab m)"
    and ins_name: "inv m \<Longrightarrow> tab (ins m k None) = touch (cstr k) none (tab m)"
begin

lemma ins_all_inv: "inv m \<Longrightarrow> inv (foldl (\<lambda>m (k, t). ins m k t) m kts)"
  by (induction kts arbitrary: m) (auto simp: ins_inv)

lemma ins_all_tab: "inv m \<Longrightarrow> tab (foldl (\<lambda>m (k, t). ins m k t) m kts) =
    foldl (\<lambda>xs (k, t). case t of None \<Rightarrow> touch (cstr k) none xs | Some t \<Rightarrow> put (cstr k) (entry t) xs) (tab m) kts"
  by (induction kts arbitrary: m) (auto simp: ins_inv ins_text ins_name split: option.splits)

lemma ins_all_last: "inv m \<Longrightarrow> cstr k \<notin> (\<lambda>kt. cstr (fst kt)) ` set kts \<Longrightarrow>
    map_of (tab (foldl (\<lambda>m (k, t). ins m k t) (ins m k (Some t)) kts)) (cstr k) = Some (entry t)"
proof (induction kts rule: rev_induct)
  case Nil
  then show ?case by (simp add: ins_text map_of_put)
next
  case (snoc x kts)
  have "inv (foldl (\<lambda>m (k, t). ins m k t) (ins m k (Some t)) kts)"
    using snoc.prems(1) by (intro ins_all_inv ins_inv)
  then show ?case
    using snoc by (cases x; cases "snd x") (auto simp: ins_text ins_name map_of_put map_of_touch)
qed

end

lemma seek_cells_eq:
  "(\<And>v. v \<in> snd ` set xs \<Longrightarrow> plain_var h v \<and> v \<noteq> 0) \<Longrightarrow>
    seek_cells h key xs = Some (case find (\<lambda>v. fst (var_entry h v) = cstr key) (map snd xs) of None \<Rightarrow> 0 | Some v \<Rightarrow> v)"
proof (induction xs)
  case (Cons x xs)
  from Cons.prems [of "snd x"] obtain y n where y: "vars h (snd x) = Some y" "v_name y = Some n" "nul_free n" "snd x \<noteq> 0"
    by (auto simp: plain_var_def split: option.splits)
  then have "var_seeker h (snd x) key = Some (fst (var_entry h (snd x)) = cstr key)"
    by (simp add: var_seeker_def strcmp_zero var_entry_def split: ws_value.splits)
  with Cons show ?case by simp
qed simp


lemma flat_members:
  assumes "flat_store h st" "v \<in> set (members h st)"
  shows "plain_var h v" "v \<noteq> 0" "v < brk h"
proof -
  show p: "plain_var h v" using assms by (simp add: flat_store_def)
  then obtain x where "vars h v = Some x" by (auto simp: plain_var_def split: option.splits)
  then have "0 < v \<and> v < brk h" using assms(1) by (auto simp: flat_store_def heap_ok_def)
  then show "v \<noteq> 0" "v < brk h" by auto
qed

lemma flat_st: "flat_store h st \<Longrightarrow> st \<noteq> 0 \<and> st < brk h \<and> (\<exists>s. stores h st = Some s)"
  by (auto simp: flat_store_def heap_ok_def)

lemma search_eq:
  assumes "flat_store h st"
  shows "searchVariable h st key = Some (case find (\<lambda>v. fst (var_entry h v) = cstr key) (members h st) of
      None \<Rightarrow> 0 | Some v \<Rightarrow> v)"
proof -
  obtain s where s: "stores h st = Some s" "st \<noteq> 0" using flat_st [OF assms] by blast
  have "seek_cells h key (cl_cells s) =
      Some (case find (\<lambda>v. fst (var_entry h v) = cstr key) (map snd (cl_cells s)) of None \<Rightarrow> 0 | Some v \<Rightarrow> v)"
    by (rule seek_cells_eq) (use flat_members [OF assms] s in \<open>auto simp: members_def\<close>)
  then show ?thesis using s by (simp add: searchVariable_def members_def)
qed

lemma search_cases:
  assumes "flat_store h st"
  obtains (absent) "searchVariable h st key = Some 0" "cstr key \<notin> fst ` set (table h st)"
  | (present) v where "searchVariable h st key = Some v" "v \<in> set (members h st)" "v \<noteq> 0"
      "fst (var_entry h v) = cstr key"
proof (cases "find (\<lambda>v. fst (var_entry h v) = cstr key) (members h st)")
  case None
  then have "cstr key \<notin> fst ` set (table h st)" by (auto simp: find_None_iff table_def)
  with absent search_eq [OF assms, of key] None show ?thesis by simp
next
  case (Some v)
  then have "v \<in> set (members h st)" "fst (var_entry h v) = cstr key"
    by (auto simp: find_Some_iff)
  with present search_eq [OF assms, of key] Some flat_members(2) [OF assms] show ?thesis by simp
qed

text \<open>What an operation on one store may change: that store, one of its variables, fresh cells.\<close>

definition changes_only :: "addr \<Rightarrow> ptr \<Rightarrow> vheap \<Rightarrow> vheap \<Rightarrow> bool" where
  "changes_only st v h h' \<longleftrightarrow> (\<forall>w. w < brk h \<longrightarrow> w \<noteq> v \<longrightarrow> vars h' w = vars h w) \<and>
     (\<forall>r. r < brk h \<longrightarrow> r \<noteq> st \<longrightarrow> stores h' r = stores h r) \<and> brk h \<le> brk h' \<and>
     custom_log h' = custom_log h"

lemma var_entry_cong: "vars h' v = vars h v \<Longrightarrow> var_entry h' v = var_entry h v"
  by (simp add: var_entry_def)

lemma plain_var_cong: "vars h' v = vars h v \<Longrightarrow> plain_var h' v = plain_var h v"
  by (simp add: plain_var_def)

lemma add_new_spec:
  assumes "flat_store h st" "cstr n \<notin> fst ` set (table h st)"
    and new: "newWSVariable h (Some n) = (h1, v)"
  shows "\<exists>h'. addVariable h1 st v = Some h' \<and> flat_store h' st \<and>
     table h' st = table h st @ [(cstr n, VAR_TYPE_EMPTY)] \<and> members h' st = members h st @ [v] \<and>
     fst (var_entry h' v) = cstr n \<and> changes_only st v h h'"
proof -
  obtain s where s: "stores h st = Some s" "st \<noteq> 0" "st < brk h" using flat_st [OF assms(1)] by blast
  have ok: "heap_ok h" using assms(1) by (simp add: flat_store_def)
  have v: "v = brk h" "h1 = set_var v \<lparr>v_name = Some (cstr n), name_len = strlen n, v_val = VAR_TYPE_EMPTY\<rparr> (h\<lparr>brk := brk h + 1\<rparr>)"
    using new by (auto simp: newWSVariable_def Let_def)
  define h' where "h' = set_store st (cl_append (brk h1) s v 0) (h1\<lparr>brk := brk h1 + 1\<rparr>)"
  note h'_simps = h'_def set_store_def v set_var_def
  have eq: "addVariable h1 st v = Some h'" using s by (simp add: addVariable_def h'_simps)
  have vars: "vars h' w = vars h w" if "w \<noteq> v" for w using that by (simp add: h'_simps)
  have mem: "members h' st = members h st @ [v]"
    using s by (simp add: members_def cl_append_def h'_simps)
  have old: "w \<noteq> v" if "w \<in> set (members h st)" for w
    using flat_members(3) [OF assms(1) that] v(1) by simp
  have ent: "var_entry h' v = (cstr n, VAR_TYPE_EMPTY)"
    by (simp add: var_entry_def h'_simps)
  have tab: "table h' st = table h st @ [(cstr n, VAR_TYPE_EMPTY)]"
    using old by (simp add: table_def mem ent) (metis var_entry_cong vars)
  have "heap_ok h'"
    using ok s unfolding h'_def v
    by (intro heap_ok_set_store heap_ok_brk heap_ok_set_var) (auto simp: set_var_def heap_ok_def)
  moreover have "st \<in> dom (stores h')" by (simp add: h'_simps)
  moreover have "distinct (members h' st)" using assms(1) old by (auto simp: mem flat_store_def)
  moreover have "plain_var h' w" if "w \<in> set (members h' st)" for w
  proof (cases "w = v")
    case True
    then show ?thesis by (simp add: plain_var_def h'_simps scalar_def)
  next
    case False
    then show ?thesis using that flat_members(1) [OF assms(1)] by (simp add: mem plain_var_cong [OF vars [OF False]])
  qed
  moreover have "distinct (map fst (table h' st))"
    using assms(1,2) by (auto simp: tab flat_store_def)
  ultimately have "flat_store h' st" by (simp add: flat_store_def)
  moreover have "changes_only st v h h'"
    by (auto simp: changes_only_def h'_simps)
  ultimately show ?thesis using eq tab mem ent by auto
qed

lemma newVariable_spec:
  assumes "flat_store h st"
  shows "\<exists>h' v. newVariable h st (Some n) 0 = Some (h', v) \<and> flat_store h' st \<and>
     table h' st = touch (cstr n) VAR_TYPE_EMPTY (table h st) \<and> v \<in> set (members h' st) \<and>
     fst (var_entry h' v) = cstr n \<and> changes_only st v h h'"
proof -
  consider (absent) "searchVariable h st n = Some 0" "cstr n \<notin> fst ` set (table h st)"
    | (present) v where "searchVariable h st n = Some v" "v \<in> set (members h st)" "v \<noteq> 0"
      "fst (var_entry h v) = cstr n" using search_cases [OF assms, of n] by blast
  then show ?thesis
  proof cases
  case absent
  obtain h1 v where new: "newWSVariable h (Some n) = (h1, v)" by (cases "newWSVariable h (Some n)")
  from add_new_spec [OF assms absent(2) new] obtain h' where
    "addVariable h1 st v = Some h'" "flat_store h' st" "table h' st = table h st @ [(cstr n, VAR_TYPE_EMPTY)]"
    "members h' st = members h st @ [v]" "fst (var_entry h' v) = cstr n" "changes_only st v h h'" by blast
  moreover have "newVariable h st (Some n) 0 = Some (h', v)"
    using absent(1) flat_st [OF assms] new calculation(1) by (simp add: newVariable_def)
  ultimately show ?thesis using absent(2) by (intro exI [of _ h'] exI [of _ v]) (simp add: touch_def)
next
  case (present v)
  then have "newVariable h st (Some n) 0 = Some (h, v)"
    using flat_st [OF assms] by (simp add: newVariable_def)
  moreover have "cstr n \<in> fst ` set (table h st)"
    using present by (force simp: table_def)
  ultimately show ?thesis
    using assms present by (auto simp: touch_def changes_only_def)
  qed
qed

lemma free_value_scalar:
  assumes "vars h v = Some x" "scalar (v_val x)" "v \<noteq> 0"
  shows "freeWSVariableValue h v = Some (set_var v (x\<lparr>v_val := VAR_TYPE_EMPTY\<rparr>) h)"
  using assms by (simp add: freeWSVariableValue_def free_run.simps scalar_def split: ws_value.splits)

lemma map_put:
  assumes "distinct (map (\<lambda>v. fst (f v)) vs)" "v \<in> set vs" "distinct vs"
    "\<And>w. w \<in> set vs \<Longrightarrow> w \<noteq> v \<Longrightarrow> g w = f w" "g v = (fst (f v), y)"
  shows "map g vs = put (fst (f v)) y (map f vs)"
  using assms
proof (induction vs)
  case (Cons w vs)
  show ?case
  proof (cases "w = v")
    case True
    then have "map g vs = map f vs" using Cons.prems by auto
    then show ?thesis using True Cons.prems(5) by simp
  next
    case False
    then have "v \<in> set vs" using Cons.prems(2) by simp
    then have "fst (f w) \<noteq> fst (f v)" using Cons.prems(1) by force
    then show ?thesis using False Cons \<open>v \<in> set vs\<close> by simp
  qed
qed simp

lemma set_value_spec:
  assumes "flat_store h st" "v \<in> set (members h st)" "\<And>x. scalar (f x)"
  shows "\<exists>h' x. set_value h v f = Some h' \<and> flat_store h' st \<and> v_name x = Some (fst (var_entry h v)) \<and>
     table h' st = put (fst (var_entry h v)) (f x) (table h st) \<and> members h' st = members h st \<and>
     fst (var_entry h' v) = fst (var_entry h v) \<and> changes_only st v h h'"
proof -
  from flat_members [OF assms(1,2)] obtain x n where
    x: "vars h v = Some x" "scalar (v_val x)" "v_name x = Some n" "nul_free n" and v0: "v \<noteq> 0" "v < brk h"
    by (auto simp: plain_var_def split: option.splits)
  define y where "y = x\<lparr>v_val := VAR_TYPE_EMPTY\<rparr>"
  define h' where "h' = set_var v (y\<lparr>v_val := f y\<rparr>) h"
  note h'_simps = h'_def set_var_def
  have y: "v_name y = Some n" using x by (simp add: y_def)
  have eq: "set_value h v f = Some h'"
    using v0 free_value_scalar [OF x(1,2)] by (simp add: set_value_def h'_def y_def) (simp add: set_var_def)
  have vars: "vars h' w = vars h w" if "w \<noteq> v" for w using that by (simp add: h'_simps)
  have mem: "members h' st = members h st" by (simp add: members_def h'_simps)
  have d: "distinct (members h st)" "distinct (map fst (table h st))" "heap_ok h" "st \<in> dom (stores h)"
    using assms(1) by (auto simp: flat_store_def)
  have tab: "table h' st = put (fst (var_entry h v)) (f y) (table h st)"
    unfolding table_def mem
    by (rule map_put) (use d assms(2) x y in \<open>auto simp: table_def comp_def var_entry_def h'_simps\<close>)
  have "heap_ok h'" using d(3) v0 by (simp add: h'_def heap_ok_set_var)
  moreover have "plain_var h' w" if "w \<in> set (members h st)" for w
  proof (cases "w = v")
    case True
    then show ?thesis using assms(3) x y by (simp add: plain_var_def h'_simps)
  next
    case False
    then show ?thesis using flat_members(1) [OF assms(1) that] by (simp add: plain_var_cong [OF vars [OF False]])
  qed
  ultimately have "flat_store h' st"
    using d distinct_put [OF d(2)] by (simp add: flat_store_def mem tab) (simp add: h'_simps)
  moreover have "changes_only st v h h'" by (simp add: changes_only_def h'_simps)
  moreover have "fst (var_entry h' v) = fst (var_entry h v)" using x y by (simp add: var_entry_def h'_simps)
  ultimately show ?thesis using eq tab mem x y by (intro exI [of _ h'] exI [of _ y]) (simp add: var_entry_def)
qed

text \<open>Creating a variable and setting it, as the clients do.\<close>

definition store_ins :: "vheap \<Rightarrow> addr \<Rightarrow> string \<Rightarrow> string option \<Rightarrow> vheap option" where
  "store_ins h st n txt = do {
     (h, v) \<leftarrow> newVariable h st (Some n) 0;
     (case txt of None \<Rightarrow> Some h | Some t \<Rightarrow> setWSVariableString h v (Some t))
   }"

abbreviation text_value :: "string \<Rightarrow> ws_value" where
  "text_value t \<equiv> VAR_TYPE_STRING (cstr t) (strlen t)"

lemma set_string_spec:
  assumes "flat_store h st" "v \<in> set (members h st)"
  shows "\<exists>h'. setWSVariableString h v (Some t) = Some h' \<and> flat_store h' st \<and>
     table h' st = put (fst (var_entry h v)) (text_value t) (table h st) \<and>
     members h' st = members h st \<and> fst (var_entry h' v) = fst (var_entry h v) \<and> changes_only st v h h'"
  using set_value_spec [OF assms, of "\<lambda>x. text_value t"]
  by (auto simp: setWSVariableString_def scalar_def)

lemma changes_only_trans:
  "changes_only st v h h1 \<Longrightarrow> changes_only st v h1 h2 \<Longrightarrow> changes_only st v h h2"
  by (auto simp: changes_only_def)

lemma store_ins_spec:
  assumes "flat_store h st"
  shows "\<exists>h' v. store_ins h st n txt = Some h' \<and> flat_store h' st \<and> changes_only st v h h' \<and>
     table h' st = (case txt of None \<Rightarrow> touch (cstr n) VAR_TYPE_EMPTY (table h st)
        | Some t \<Rightarrow> put (cstr n) (text_value t) (table h st))"
proof -
  obtain h1 v where n: "newVariable h st (Some n) 0 = Some (h1, v)" "flat_store h1 st"
      "table h1 st = touch (cstr n) VAR_TYPE_EMPTY (table h st)" "v \<in> set (members h1 st)"
      "fst (var_entry h1 v) = cstr n" "changes_only st v h h1"
    using newVariable_spec [OF assms, of n] by blast
  show ?thesis
  proof (cases "txt")
    case None
    then show ?thesis using n by (auto simp: store_ins_def)
  next
    case (Some t)
    obtain h2 where "setWSVariableString h1 v (Some t) = Some h2" "flat_store h2 st"
        "table h2 st = put (cstr n) (text_value t) (table h1 st)" "changes_only st v h1 h2"
      using set_string_spec [OF n(2,4), of t] n(5) by auto
    with n Some show ?thesis
      by (intro exI [of _ h2] exI [of _ v]) (auto simp: store_ins_def put_touch intro: changes_only_trans)
  qed
qed

text \<open>The store at a fixed address as a table of named texts.\<close>

definition ins_at :: "addr \<Rightarrow> vheap \<Rightarrow> string \<Rightarrow> string option \<Rightarrow> vheap" where
  "ins_at st h n txt = the (store_ins h st n txt)"

interpretation vs: named_texts "\<lambda>h. flat_store h st" "\<lambda>h. table h st" "ins_at st" text_value VAR_TYPE_EMPTY
  for st
proof unfold_locales
  show "flat_store (ins_at st m k t) st" if "flat_store m st" for m k t
    using store_ins_spec [OF that, of k t] by (auto simp: ins_at_def)
  show "table (ins_at st m k (Some t)) st = put (cstr k) (text_value t) (table m st)"
    if "flat_store m st" for m k t
    using store_ins_spec [OF that, of k "Some t"] by (auto simp: ins_at_def)
  show "table (ins_at st m k None) st = touch (cstr k) VAR_TYPE_EMPTY (table m st)"
    if "flat_store m st" for m k
    using store_ins_spec [OF that, of k None] by (auto simp: ins_at_def)
qed

lemma get_named:
  assumes "flat_store h st" "v \<in> set (members h st)" "fst (var_entry h v) = cstr n"
  shows "getVariable h st n = Some v"
proof -
  have "find (\<lambda>v. fst (var_entry h v) = cstr n) (members h st) = Some v"
  proof -
    obtain us ws where m: "members h st = us @ v # ws" using split_list [OF assms(2)] by blast
    then have "fst (var_entry h w) \<noteq> cstr n" if "w \<in> set us" for w
      using assms(1,3) that by (auto simp: flat_store_def table_def comp_def) (metis image_eqI)
    then have "find (\<lambda>v. fst (var_entry h v) = cstr n) us = None" by (simp add: find_None_iff)
    then show ?thesis using assms(3) by (simp add: m find_append)
  qed
  then show ?thesis
    using search_eq [OF assms(1), of n] flat_st [OF assms(1)] by (simp add: getVariable_def)
qed

subsection \<open>Numbers as text\<close>

lemma dec_value_snoc: "dec_value (ds @ [c]) = dec_value ds * 10 + (code c - 48)"
  by (simp add: dec_value_def)

lemma dec_digits_value: "dec_value (dec_digits n) = n"
proof (induction n rule: dec_digits.induct)
  case (1 n)
  show ?case
  proof (cases "n < 10")
    case True
    then show ?thesis by (subst dec_digits.simps) (simp add: dec_value_def)
  next
    case False
    then show ?thesis using 1 by (subst dec_digits.simps) (simp add: dec_value_snoc)
  qed
qed

lemma dec_digits_not_Nil [simp]: "dec_digits n \<noteq> []"
  by (subst dec_digits.simps) simp

lemma dec_digits_isdigit: "\<forall>c \<in> set (dec_digits n). isdigit c"
proof (induction n rule: dec_digits.induct)
  case (1 n)
  then show ?case by (subst dec_digits.simps) (auto simp: isdigit_def)
qed

lemma dec_digits_length: "0 < k \<Longrightarrow> n < 10 ^ k \<Longrightarrow> length (dec_digits n) \<le> k"
proof (induction n arbitrary: k rule: dec_digits.induct)
  case (1 n)
  show ?case
  proof (cases "n < 10")
    case False
    then have "k \<noteq> 1" using 1(3) by auto
    then obtain j where k: "k = Suc j" "0 < j" using 1(2) by (cases k) auto
    then have "n div 10 < 10 ^ j" using 1(3) by (simp add: div_less_iff_less_mult mult.commute)
    then show ?thesis using 1(1) [OF False, of j] k by (subst dec_digits.simps) simp
  qed (use 1(2) in \<open>subst dec_digits.simps, simp\<close>)
qed

lemma digit_not_sign: "isdigit c \<Longrightarrow> \<not> isspace c \<and> c \<noteq> CHR ''-'' \<and> c \<noteq> CHR ''+'' \<and> c \<noteq> NUL"
  by (auto simp: isdigit_def isspace_def)

lemma nul_free_fmt_d: "nul_free (fmt_d i)"
  using dec_digits_isdigit digit_not_sign by (fastforce simp: fmt_d_def nul_free_def)

lemma scan_fmt_d: "scan_int (fmt_d i) = Some i"
proof -
  have dd: "dec_digits n \<noteq> []" "takeWhile isdigit (dec_digits n) = dec_digits n"
      "isdigit (hd (dec_digits n))" for n
    using dec_digits_isdigit [of n] by (auto simp: takeWhile_eq_all_conv)
  show ?thesis
  proof (cases "i < 0")
    case True
    then show ?thesis using nul_free_fmt_d [of i]
      by (simp add: scan_int_def fmt_d_def Let_def dec_digits_value isspace_def dd)
  next
    case False
    obtain c cs where c: "dec_digits (nat i) = c # cs" by (cases "dec_digits (nat i)") auto
    then show ?thesis
      using False dd(2) [of "nat i"] nul_free_fmt_d [of i] digit_not_sign [OF dd(3), of "nat i"]
        dec_digits_value [of "nat i"]
      by (simp add: scan_int_def fmt_d_def Let_def)
  qed
qed

lemma length_fmt_d: "\<bar>i\<bar> < 10 ^ k \<Longrightarrow> 0 < k \<Longrightarrow> length (fmt_d i) \<le> Suc k"
proof -
  assume a: "\<bar>i\<bar> < 10 ^ k" "0 < k"
  have "nat \<bar>i\<bar> < 10 ^ k" using a(1) by (simp add: nat_less_iff)
  then have "length (dec_digits (nat \<bar>i\<bar>)) \<le> k" using a(2) dec_digits_length by blast
  then show ?thesis by (simp add: fmt_d_def abs_if split: if_splits)
qed

lemma snprintf_fits:
  assumes "nul_free s" "length s < n" "length buffer = n"
  shows "\<exists>b. snprintf buffer n s = (b, int (length s)) \<and> cstr b = s \<and> length b = n"
  using assms by (auto simp: snprintf_def)

definition plain_at :: "vheap \<Rightarrow> ptr \<Rightarrow> bool" where
  "plain_at h v = (v \<noteq> 0 \<and> (case vars h v of None \<Rightarrow> False | Some x \<Rightarrow> scalar (v_val x)))"

lemma set_value_plain:
  assumes "plain_at h v"
  shows "\<exists>h' x y. set_value h v f = Some h' \<and> vars h' v = Some x \<and> v_val x = f y"
proof -
  from assms obtain x where x: "vars h v = Some x" "scalar (v_val x)" "v \<noteq> 0"
    by (auto simp: plain_at_def split: option.splits)
  show ?thesis using x(3) by (simp add: set_value_def free_value_scalar [OF x]) (auto simp: set_var_def)
qed

text \<open>A number, printed by \<open>getWSVariableString\<close> and stored as a string, is read back.\<close>

lemma number_roundtrip:
  assumes "plain_at h v" "vars h v = Some x" "length buffer = n" "length (fmt_d i) < n"
    and p: "getWSVariableString h v buffer n = Some (snprintf (buffer[0 := NUL]) n (fmt_d i))"
  shows "\<exists>b h'. getWSVariableString h v buffer n = Some (b, int (length (fmt_d i))) \<and> cstr b = fmt_d i \<and>
     setWSVariableString h v (Some b) = Some h' \<and>
     (\<exists>y. vars h' v = Some y \<and> v_val y = VAR_TYPE_STRING (fmt_d i) (length (fmt_d i)))"
proof -
  obtain b where b: "snprintf (buffer[0 := NUL]) n (fmt_d i) = (b, int (length (fmt_d i)))"
      "cstr b = fmt_d i" "length b = n"
    using snprintf_fits [OF nul_free_fmt_d assms(4), of "buffer[0 := NUL]"] assms(3) by auto
  obtain h' y where "setWSVariableString h v (Some b) = Some h'" "vars h' v = Some y"
      "v_val y = VAR_TYPE_STRING (fmt_d i) (length (fmt_d i))"
    using set_value_plain [OF assms(1), of "\<lambda>x. text_value b"] b
    by (auto simp: setWSVariableString_def)
  then show ?thesis using b p by auto
qed

lemma plain_at_value: "vars h v = Some x \<Longrightarrow> scalar (v_val x) \<Longrightarrow> v \<noteq> 0 \<Longrightarrow> plain_at h v"
  by (simp add: plain_at_def)

lemma print_int: "vars h v = Some x \<Longrightarrow> v_val x = VAR_TYPE_INT i \<Longrightarrow> v \<noteq> 0 \<Longrightarrow> 0 < n \<Longrightarrow>
    getWSVariableString h v buffer n = Some (snprintf (buffer[0 := NUL]) n (fmt_d (sint i)))"
  by (subst getWSVariableString.simps) (simp add: is_int_def)

lemma print_ulong: "vars h v = Some x \<Longrightarrow> v_val x = VAR_TYPE_ULONG i \<Longrightarrow> v \<noteq> 0 \<Longrightarrow> 0 < n \<Longrightarrow>
    getWSVariableString h v buffer n =
      Some (snprintf (buffer[0 := NUL]) n (if i = 0 then ''Empty'' else fmt_d (uint i)))"
  by (subst getWSVariableString.simps) (simp add: is_int_def value_p_null_def)

lemma sint_u32_range: "- (2 ^ 31) \<le> sint (i :: u32) \<and> sint i < 2 ^ 31"
  using sint_greater_eq [of i] sint_less [of i] by simp

lemma uint_u64_range: "uint (i :: u64) < 2 ^ 64"
  using unsigned_less [of i] by simp

lemma int_roundtrip:
  assumes "plain_at h v" "length buffer = n" "12 \<le> n"
  shows "\<exists>h1 b r h2. setWSVariableInt h v i = Some h1 \<and>
     getWSVariableString h1 v buffer n = Some (b, r) \<and> r = int (strlen b) \<and>
     setWSVariableString h1 v (Some b) = Some h2 \<and> getWSVariableInt h2 v = Some i"
proof -
  obtain h1 x where h1: "setWSVariableInt h v i = Some h1" "vars h1 v = Some x" "v_val x = VAR_TYPE_INT i"
    using set_value_plain [OF assms(1), of "\<lambda>x. VAR_TYPE_INT i"] by (auto simp: setWSVariableInt_def)
  have v0: "v \<noteq> 0" using assms(1) by (simp add: plain_at_def)
  have "\<bar>sint i\<bar> < 10 ^ 10" using sint_u32_range [of i] by auto
  from length_fmt_d [OF this] have len: "length (fmt_d (sint i)) < n" using assms(3) by simp
  have pl: "plain_at h1 v" using h1 v0 by (simp add: plain_at_def scalar_def)
  obtain b h2 y where "getWSVariableString h1 v buffer n = Some (b, int (length (fmt_d (sint i))))"
      "cstr b = fmt_d (sint i)" "setWSVariableString h1 v (Some b) = Some h2" "vars h2 v = Some y"
      "v_val y = VAR_TYPE_STRING (fmt_d (sint i)) (length (fmt_d (sint i)))"
    using number_roundtrip [OF pl h1(2) assms(2) len print_int [OF h1(2,3) v0]] assms(3) by auto
  moreover have "sscanf_d (fmt_d (sint i)) = Some i"
    using sint_u32_range [of i] by (simp add: sscanf_d_def scan_fmt_d)
  ultimately show ?thesis using h1(1) v0 by (auto simp: getWSVariableInt_def)
qed

lemma ulong_roundtrip:
  assumes "plain_at h v" "length buffer = n" "22 \<le> n" "i \<noteq> 0"
  shows "\<exists>h1 b r h2. setWSVariableULong h v i = Some h1 \<and>
     getWSVariableString h1 v buffer n = Some (b, r) \<and> r = int (strlen b) \<and>
     setWSVariableString h1 v (Some b) = Some h2 \<and> getWSVariableULong h2 v = Some i"
proof -
  obtain h1 x where h1: "setWSVariableULong h v i = Some h1" "vars h1 v = Some x" "v_val x = VAR_TYPE_ULONG i"
    using set_value_plain [OF assms(1), of "\<lambda>x. VAR_TYPE_ULONG i"] by (auto simp: setWSVariableULong_def)
  have v0: "v \<noteq> 0" using assms(1) by (simp add: plain_at_def)
  have "\<bar>uint i\<bar> < 10 ^ 20" using uint_u64_range [of i] by auto
  from length_fmt_d [OF this] have len: "length (fmt_d (uint i)) < n" using assms(3) by simp
  have pl: "plain_at h1 v" using h1 v0 by (simp add: plain_at_def scalar_def)
  have pr: "getWSVariableString h1 v buffer n = Some (snprintf (buffer[0 := NUL]) n (fmt_d (uint i)))"
    using print_ulong [OF h1(2,3) v0, of n buffer] assms(3,4) by simp
  obtain b h2 y where "getWSVariableString h1 v buffer n = Some (b, int (length (fmt_d (uint i))))"
      "cstr b = fmt_d (uint i)" "setWSVariableString h1 v (Some b) = Some h2" "vars h2 v = Some y"
      "v_val y = VAR_TYPE_STRING (fmt_d (uint i)) (length (fmt_d (uint i)))"
    using number_roundtrip [OF pl h1(2) assms(2) len pr] by auto
  moreover have "sscanf_u64 (fmt_d (uint i)) = Some i"
    using uint_u64_range [of i] by (simp add: sscanf_u64_def scan_fmt_d)
  ultimately show ?thesis using h1(1) v0 by (auto simp: getWSVariableULong_def)
qed

subsection \<open>Properties\<close>

text \<open>C25: in a store of plain values, setting a variable by name creates it at the end or replaces
  its value in place, and a lookup of the name then finds exactly that variable with the text
  that was set; no other name of the store, no other store and no other variable changes.\<close>

theorem set_then_get_variable:
  assumes "flat_store h st"
  shows "\<exists>h' v. setGlobalVariable h st n (Some t) = Some (h', v) \<and> flat_store h' st \<and>
     getVariable h' st n = Some v \<and> table h' st = put (cstr n) (text_value t) (table h st) \<and>
     changes_only st v h h'"
proof -
  obtain h1 v where n: "newVariable h st (Some n) 0 = Some (h1, v)" "flat_store h1 st"
      "table h1 st = touch (cstr n) VAR_TYPE_EMPTY (table h st)" "v \<in> set (members h1 st)"
      "fst (var_entry h1 v) = cstr n" "changes_only st v h h1"
    using newVariable_spec [OF assms, of n] by blast
  obtain h2 where s: "setWSVariableString h1 v (Some t) = Some h2" "flat_store h2 st"
      "table h2 st = put (cstr n) (text_value t) (table h1 st)" "members h2 st = members h1 st"
      "fst (var_entry h2 v) = cstr n" "changes_only st v h1 h2"
    using set_string_spec [OF n(2,4), of t] n(5) by auto
  have "getVariable h2 st n = Some v" by (rule get_named [OF s(2)]) (use n s in auto)
  then show ?thesis using n s
    by (intro exI [of _ h2] exI [of _ v]) (auto simp: setGlobalVariable_def put_touch intro: changes_only_trans)
qed

definition store_example :: vheap where
  "store_example = \<lparr>vars = [2 \<mapsto> \<lparr>v_name = Some ''port'', name_len = 4, v_val = VAR_TYPE_INT 80\<rparr>],
     stores = [1 \<mapsto> \<lparr>cl_cells = [(3, 2)], cl_iter = 0\<rparr>], brk = 4, custom_log = []\<rparr>"

lemma store_example_flat: "flat_store store_example 1"
  by (simp add: flat_store_def heap_ok_def store_example_def members_def table_def plain_var_def
      scalar_def var_entry_def)

theorem set_then_get_variable_witness:
  "\<exists>h' v. setGlobalVariable store_example 1 ''name'' (Some ''x'') = Some (h', v) \<and>
     table h' 1 = [(''port'', VAR_TYPE_INT 80), (''name'', VAR_TYPE_STRING ''x'' 1)]"
  using set_then_get_variable [OF store_example_flat, of "''name''" "''x''"]
  by (auto simp: table_def members_def var_entry_def store_example_def)



text \<open>The unsigned and signed 64-bit zero is printed as a missing value.\<close>

lemma ulong_zero_prints_empty:
  assumes "plain_at h v" "0 < n"
  shows "\<exists>h1. setWSVariableULong h v 0 = Some h1 \<and>
     getWSVariableString h1 v buffer n = Some (snprintf (buffer[0 := NUL]) n ''Empty'')"
proof -
  obtain h1 x where h1: "setWSVariableULong h v 0 = Some h1" "vars h1 v = Some x" "v_val x = VAR_TYPE_ULONG 0"
    using set_value_plain [OF assms(1), of "\<lambda>x. VAR_TYPE_ULONG 0"] by (auto simp: setWSVariableULong_def)
  then show ?thesis using print_ulong [OF h1(2,3), of n] assms by (simp add: plain_at_def)
qed

end
