(* ===== verification/HeaderParser.thy ===== *)
theory HeaderParser
  imports PairScan VariableTables
begin

text \<open>
  The request header: \<open>lib/src/header_parser.c\<close>, \<open>lib/src/cookie.c\<close> and the allocation and
  reset of a header in \<open>lib/src/system_memory.c\<close>, in a build with websocket support.

  The parameters of a request live in a variable store of the heap (\<open>Variables\<close>); the
  cookies are the list of the cookies' contents. A header line is its bytes; the byte behind
  them is the NUL the caller puts there. The \<open>short\<close> and \<open>char\<close> flags are numbers.
\<close>

record Cookie =
  c_name :: string
  c_value :: string

definition HTTP_POST :: nat where "HTTP_POST = 1"
definition HTTP_GET :: nat where "HTTP_GET = 2"
definition HTTP_OPTIONS :: nat where "HTTP_OPTIONS = 3"
definition MULTIPART_FORM_DATA :: nat where "MULTIPART_FORM_DATA = 1"
definition APPLICATION_X_WWW_FORM_URLENCODED :: nat where "APPLICATION_X_WWW_FORM_URLENCODED = 2"
definition MAX_ERROR_METHOD :: nat where "MAX_ERROR_METHOD = 30"
definition WEBSERVER_MAX_HEADER_LINE_LENGHT :: nat where "WEBSERVER_MAX_HEADER_LINE_LENGHT = 2048"
definition WEBSERVER_MAX_HEADER_SIZE :: nat where "WEBSERVER_MAX_HEADER_SIZE = 16384"
definition WEBSERVER_GUID_LENGTH :: nat where "WEBSERVER_GUID_LENGTH = 50"

record HttpRequestHeader =
  url :: "string option"
  req_method :: nat
  error_method :: string
  error :: nat
  contentlenght :: u64
  contenttype :: nat
  If_Modified_Since :: "string option"
  etag :: "string option"
  Upgrade :: "string option"
  Connection :: "string option"
  Host :: "string option"
  HostName :: "string option"
  Origin :: "string option"
  Access_Control_Request_Method :: "string option"
  Access_Control_Request_Headers :: "string option"
  Accept_Encoding :: "string option"
  isHttp1_1 :: nat
  UserAgent :: "string option"
  Accept :: "string option"
  Authorization :: "string option"
  Referer :: "string option"
  header_complete :: nat
  parsed_bytes :: u32
  SecWebSocketProtocol :: "string option"
  SecWebSocketKey :: "string option"
  SecWebSocketVersion :: u32
  no_websocket_support :: nat
  post_buffer :: "string option"
  post_buffer_pos :: u32
  post_buffer_reserved :: u64
  boundary :: "string option"
  Content_Disposition :: "string option"
  Content_Type :: "string option"
  parameter_store :: addr
  cookie_list :: "Cookie list"

subsection \<open>Cookies (cookie.c)\<close>

text \<open>The first cookie of the name; at most \<open>WEBSERVER_GUID_LENGTH\<close> bytes of its value and
  terminator are copied.\<close>

definition checkCookie :: "string \<Rightarrow> string \<Rightarrow> HttpRequestHeader \<Rightarrow> string \<times> int" where
  "checkCookie name val header =
     (case find (\<lambda>cookie. strcmp name (c_name cookie) = 0) (cookie_list header) of
        None \<Rightarrow> (val, 0)
      | Some cookie \<Rightarrow>
          (let l = strlen (c_value cookie) + 1;
               l = (if l > WEBSERVER_GUID_LENGTH then WEBSERVER_GUID_LENGTH else l)
           in (take l (c_value cookie @ [NUL]) @ drop l val, 1)))"

definition createCookie :: "HttpRequestHeader \<Rightarrow> pair_call \<Rightarrow> HttpRequestHeader" where
  "createCookie header call = header\<lparr>cookie_list := cookie_list header @
     [\<lparr>c_name = fst call, c_value = (case snd call of None \<Rightarrow> [] | Some v \<Rightarrow> v)\<rparr>]\<rparr>"

definition parseCookies :: "string \<Rightarrow> HttpRequestHeader \<Rightarrow> HttpRequestHeader" where
  "parseCookies line header =
     (let b = drop 8 line;
          calls = snd (scan_loop (CHR '';'') True False (length b) 0 (b @ [NUL]) False 0 0 0 [])
      in foldl createCookie header calls)"

subsection \<open>Parameters (header\_parser.c)\<close>

definition createParameter ::
  "vheap \<times> HttpRequestHeader \<Rightarrow> pair_call \<Rightarrow> (vheap \<times> HttpRequestHeader) option" where
  "createParameter s call = (case s of (h, header) \<Rightarrow> do {
     (h, var) \<leftarrow> newVariable h (parameter_store header) (Some (fst call)) 0;
     (case snd call of
        None \<Rightarrow> Some (h, header)
      | Some val \<Rightarrow>
          (let header = (if stringfind (Some val) ''<script>'' > 0 \<or> stringfind (Some val) ''</script>'' > 0
             then header\<lparr>error := 1\<rparr> else header)
           in do { h \<leftarrow> setWSVariableString h var (Some val); Some (h, header) }))
   })"

fun create_all :: "vheap \<times> HttpRequestHeader \<Rightarrow> pair_call list \<Rightarrow> (vheap \<times> HttpRequestHeader) option" where
  "create_all s [] = Some s"
| "create_all s (c # cs) = Option.bind (createParameter s c) (\<lambda>s. create_all s cs)"

definition recieveParameterFromGet ::
  "string \<Rightarrow> nat \<Rightarrow> vheap \<times> HttpRequestHeader \<Rightarrow> (vheap \<times> HttpRequestHeader) option" where
  "recieveParameterFromGet b len s =
     (if len < 1 then Some s
      else create_all s (snd (scan_loop (CHR ''&'') False True len 0 b False 0 0 0 [])))"

definition url_sanity_check :: "HttpRequestHeader \<Rightarrow> HttpRequestHeader" where
  "url_sanity_check header =
     (if error header = 1 then header
      else
        let header = header\<lparr>error := 0\<rparr> in
        if stringfind (url header) ''%00'' > 0 then header\<lparr>error := 1\<rparr>
        else
          let header = header\<lparr>url := map_option url_decoded (url header)\<rparr> in
          if stringfind (url header) ''..'' > 0 then header\<lparr>error := 1\<rparr>
          else if stringfind (url header) ''<script>'' > 0 then header\<lparr>error := 1\<rparr>
          else if stringfind (url header) ''</script>'' > 0 then header\<lparr>error := 1\<rparr>
          else header)"

subsection \<open>Header lines (header\_parser.c)\<close>

fun attr_loop :: "string \<Rightarrow> string \<Rightarrow> nat \<Rightarrow> bool" where
  "attr_loop txt line 0 = True"
| "attr_loop txt line (Suc k) =
     (if cget txt 0 = NUL then True
      else if tolower (cget txt 0) \<noteq> tolower (cget line 0) then False
      else attr_loop (tl txt) (tl line) k)"

definition header_attr_compare :: "string \<Rightarrow> string \<Rightarrow> bool" where
  "header_attr_compare txt line =
     (if length line < length txt then False else attr_loop txt line (length line))"

definition value_after :: "string \<Rightarrow> nat \<Rightarrow> string" where
  "value_after line h_len = cstr (drop h_len line)"

text \<open>\<open>strtoull\<close> at a digit: the value of the digits, at most the largest number, and the rest.\<close>

definition strtoull :: "string \<Rightarrow> u64 \<times> string" where
  "strtoull s = (let n = dec_value (takeWhile isdigit s)
     in (if n < 2 ^ 64 then of_nat n else - 1, dropWhile isdigit s))"

definition content_length :: "string \<Rightarrow> HttpRequestHeader \<Rightarrow> HttpRequestHeader" where
  "content_length line header =
     (let val = drop 16 line in
      if \<not> isdigit (cget val 0) then header\<lparr>contentlenght := 0\<rparr>
      else
        let (n, endptr) = strtoull val; e = cget endptr 0 in
        if e \<noteq> NUL \<and> e \<noteq> CR \<and> e \<noteq> LF \<and> e \<noteq> CHR '' ''
        then header\<lparr>contentlenght := 0, error := 1\<rparr>
        else header\<lparr>contentlenght := n\<rparr>)"

definition multipart_boundary :: "string \<Rightarrow> string" where
  "multipart_boundary line =
     (let i2 = stringfind (Some line) ''boundary='' + 1
      in ''--'' @ takeWhile (\<lambda>c. c \<noteq> CR) (drop i2 line))"

text \<open>\<open>sscanf\<close> with \<open>%d\<close> into a field: no number leaves it alone; a number is read as a \<open>long\<close>,
  saturated, and cut to 32 bits.\<close>

definition scan_d_into :: "u32 \<Rightarrow> string \<Rightarrow> u32" where
  "scan_d_into old s = (case scan_int s of None \<Rightarrow> old
     | Some i \<Rightarrow> word_of_int (max (- (2 ^ 63)) (min (2 ^ 63 - 1) i)))"

definition matchHeaderFields :: "string \<Rightarrow> HttpRequestHeader \<Rightarrow> HttpRequestHeader" where
  "matchHeaderFields line header =
     (let c = tolower (cget line 0) in
      if c = CHR ''a'' then
        (if strncaseeq line ''Accept-Language: '' 17 then header
         else if strncaseeq line ''Accept-Charset: '' 16 then header
         else if header_attr_compare ''Accept-Encoding: '' line then
           header\<lparr>Accept_Encoding := Some (value_after line 17)\<rparr>
         else if header_attr_compare ''Accept: '' line then
           header\<lparr>Accept := Some (value_after line 8)\<rparr>
         else if header_attr_compare ''Access-Control-Request-Method: '' line then
           header\<lparr>Access_Control_Request_Method := Some (value_after line 31)\<rparr>
         else if header_attr_compare ''Access-Control-Request-Headers: '' line then
           header\<lparr>Access_Control_Request_Headers := Some (value_after line 32)\<rparr>
         else if header_attr_compare ''Authorization: '' line then
           header\<lparr>Authorization := Some (value_after line 15)\<rparr>
         else header)
      else if c = CHR ''c'' then
        (if strncaseeq line ''Cache-Control: '' 14 then header
         else if strncaseeq line ''Cookie: '' 8 then parseCookies line header
         else if strncaseeq line ''Content-Length: '' 16 \<and> strlen (drop 15 line) > 1 then
           content_length line header
         else if header_attr_compare ''Content-Type: '' line \<and>
             stringfindCaseInsensitive (Some (drop 14 line)) ''multipart/form-data'' > 0 then
           header\<lparr>contenttype := MULTIPART_FORM_DATA, boundary := Some (multipart_boundary line)\<rparr>
         else if header_attr_compare ''Content-Type: '' line \<and>
             strncaseeq (drop 14 line) ''application/x-www-form-urlencoded'' 33 then
           header\<lparr>contenttype := APPLICATION_X_WWW_FORM_URLENCODED\<rparr>
         else if header_attr_compare ''Connection: '' line then
           header\<lparr>Connection := Some (value_after line 12)\<rparr>
         else header)
      else if c = CHR ''h'' then
        (if strncaseeq line ''Host: '' 6 then
           header\<lparr>Host := Some (value_after line 6),
             HostName := Some (takeWhile (\<lambda>c. c \<noteq> CHR '':'') (value_after line 6))\<rparr>
         else header)
      else if c = CHR ''i'' then
        (if header_attr_compare ''If-Modified-Since: '' line then
           header\<lparr>If_Modified_Since := Some (value_after line 19)\<rparr>
         else if header_attr_compare ''If-None-Match: '' line then
           header\<lparr>etag := Some (value_after line 15)\<rparr>
         else header)
      else if c = CHR ''k'' then header
      else if c = CHR ''o'' then
        (if header_attr_compare ''Origin: '' line then header\<lparr>Origin := Some (value_after line 8)\<rparr>
         else header)
      else if c = CHR ''r'' then
        (if header_attr_compare ''Referer: '' line then header\<lparr>Referer := Some (value_after line 9)\<rparr>
         else header)
      else if c = CHR ''s'' then
        (if header_attr_compare ''Sec-WebSocket-Key: '' line then
           header\<lparr>SecWebSocketKey := Some (value_after line 19)\<rparr>
         else if header_attr_compare ''Sec-WebSocket-Protocol: '' line then
           header\<lparr>SecWebSocketProtocol := Some (value_after line 24)\<rparr>
         else if strncaseeq line ''Sec-WebSocket-Version: '' 23 then
           header\<lparr>SecWebSocketVersion := scan_d_into (SecWebSocketVersion header) (drop 23 line)\<rparr>
         else header)
      else if c = CHR ''u'' then
        (if header_attr_compare ''Upgrade: '' line then header\<lparr>Upgrade := Some (value_after line 9)\<rparr>
         else if header_attr_compare ''User-Agent: '' line then
           header\<lparr>UserAgent := Some (value_after line 12)\<rparr>
         else header)
      else header)"

text \<open>
  The target of a request line, behind a method name of \<open>off\<close> bytes with its blank and
  slash. The parameters end where the protocol version begins (\<open>c_pos\<close>).
\<close>

definition request_target ::
  "nat \<Rightarrow> string \<Rightarrow> vheap \<times> HttpRequestHeader \<Rightarrow> (vheap \<times> HttpRequestHeader) option" where
  "request_target off line s =
     (let t = cstr (drop off line); c_pos = length line - 9 in
      if CHR ''?'' \<notin> set t then
        (let pos = stringfind (Some t) '' '' in Some (fst s, (snd s)\<lparr>url := Some (take pos t)\<rparr>))
      else
        (let pos = length (takeWhile (\<lambda>c. c \<noteq> CHR ''?'') t);
             start = off + pos + 1;
             b = line[c_pos := NUL] @ [NUL]
         in recieveParameterFromGet (drop start b) (c_pos - start)
              (fst s, (snd s)\<lparr>url := Some (take pos t)\<rparr>)))"

definition checked_target ::
  "nat \<Rightarrow> string \<Rightarrow> vheap \<times> HttpRequestHeader \<Rightarrow> ((vheap \<times> HttpRequestHeader) \<times> int) option" where
  "checked_target off line s = do {
     (h, header) \<leftarrow> request_target off line s;
     let header = url_sanity_check header;
     Some ((h, header), if error header = 1 then - 1 else 0)
   }"

text \<open>The method of a request line; the name of one that is not supported is kept for the answer.\<close>

definition request_method ::
  "string \<Rightarrow> vheap \<times> HttpRequestHeader \<Rightarrow> ((vheap \<times> HttpRequestHeader) \<times> int) option" where
  "request_method line s = (case s of (h, header) \<Rightarrow>
     if strncmp line ''GET '' 4 = 0 then
       checked_target 5 line (h, header\<lparr>req_method := HTTP_GET, no_websocket_support := 0\<rparr>)
     else if strncmp line ''POST '' 5 = 0 then
       checked_target 6 line (h, header\<lparr>req_method := HTTP_POST\<rparr>)
     else if strncmp line ''OPTIONS '' 8 = 0 then
       checked_target 9 line (h, header\<lparr>req_method := HTTP_OPTIONS\<rparr>)
     else
       let w = takeWhile (\<lambda>c. c \<noteq> CHR '' '') line;
           header = (if w \<noteq> line then header\<lparr>error_method := take (MAX_ERROR_METHOD - 1) w\<rparr> else header)
       in Some ((h, header\<lparr>error := 1\<rparr>), - 1))"

definition analyseHeaderLine ::
  "string \<Rightarrow> vheap \<times> HttpRequestHeader \<Rightarrow> ((vheap \<times> HttpRequestHeader) \<times> int) option" where
  "analyseHeaderLine line s = (case s of (h, header) \<Rightarrow>
     if req_method header \<noteq> 0 then Some ((h, matchHeaderFields line header), 0)
     else if length line < 12 then Some ((h, header\<lparr>error := 1\<rparr>), - 1)
     else
       let v = drop (length line - 9) line in
       if strcmp v '' HTTP/1.1'' = 0 then request_method line (h, header\<lparr>isHttp1_1 := 1\<rparr>)
       else if strcmp v '' HTTP/1.0'' = 0 then request_method line (h, header)
       else Some ((h, header\<lparr>error := 1\<rparr>), - 1))"

subsection \<open>The header as it arrives (header\_parser.c)\<close>

text \<open>The index of the line feed of the first line, searched from index 3 on.\<close>

function find_line :: "string \<Rightarrow> nat \<Rightarrow> (nat + int)" where
  "find_line b i =
     (if i < length b then
        (if i \<ge> WEBSERVER_MAX_HEADER_LINE_LENGHT - 1 then Inr 0
         else if b ! i = LF \<and> b ! (i - 1) = CR then Inl i
         else find_line b (i + 1))
      else Inr (- 6))"
  by pat_completeness auto
termination
  by (relation "measure (\<lambda>(b, i). length b - i)") auto

declare find_line.simps [simp del]

text \<open>
  One call of the parser on the filled part of the header buffer: the state, the return value
  and the number of bytes taken from the buffer. \<open>proxy\<close> is the answer of
  \<open>checkReverseProxy\<close>, which takes over connections for other servers.
\<close>

definition ParseHeader :: "(string \<Rightarrow> bool) \<Rightarrow> string \<Rightarrow> vheap \<times> HttpRequestHeader \<Rightarrow>
    ((vheap \<times> HttpRequestHeader) \<times> int \<times> nat) option" where
  "ParseHeader proxy b s = (case s of (h, header) \<Rightarrow>
     if length b < 2 then Some ((h, header), - 6, 0)
     else if b ! 0 = CR \<and> b ! 1 = LF then
       (if parsed_bytes header = 0 \<and> length b > 2 then Some ((h, header), - 3, 2)
        else
          let header = header\<lparr>parsed_bytes := parsed_bytes header + 2, header_complete := 1\<rparr> in
          if length b > 2 then Some ((h, header), - 3, 2) else Some ((h, header), - 2, 2))
     else (case find_line b 3 of
        Inr r \<Rightarrow> Some ((h, header), r, 0)
      | Inl i \<Rightarrow>
          (if proxy b then Some ((h, header), - 7, 0)
           else if parsed_bytes header + of_nat i + 1 > of_nat WEBSERVER_MAX_HEADER_SIZE then
             Some ((h, header), - 8, 0)
           else do {
             ((h, header), r) \<leftarrow> analyseHeaderLine (take (i - 1) b) (h, header);
             if r < 0 then Some ((h, header), - 4, 0)
             else
               let header = header\<lparr>parsed_bytes := parsed_bytes header + of_nat (i + 1)\<rparr>
               in Some ((h, header), int (i + 1), i + 1)
           })))"

subsection \<open>The header of a multipart section (header\_parser.c)\<close>

text \<open>
  \<open>line2\<close> is the buffer from the current position on, \<open>length2\<close> the number of bytes left. A
  matched line moves to its CRLF; a line without one, or with a NUL byte, is an error and ends
  the section header.
\<close>

definition CRLF :: string where "CRLF = [CR, LF]"

definition form_value :: "nat \<Rightarrow> string \<Rightarrow> nat \<Rightarrow> nat option" where
  "form_value h_len line2 length2 =
     (let crlf_pos = stringnfind (Some line2) (Some CRLF) length2 in
      if crlf_pos \<le> int h_len \<or> NUL \<in> set (take (nat crlf_pos) line2) then None
      else Some (nat crlf_pos - h_len - 1))"

function analyse_form_loop ::
  "nat \<Rightarrow> string \<Rightarrow> nat \<Rightarrow> HttpRequestHeader \<Rightarrow> nat \<times> HttpRequestHeader" where
  "analyse_form_loop off line2 length2 header =
     (if length2 = 0 then (off, header)
      else if strncmp line2 (CRLF @ CRLF) 4 = 0 then (off + 4, header)
      else if strncaseeq line2 ''Content-Disposition: '' 21 then
        (case form_value 21 line2 length2 of
           None \<Rightarrow> (off + length2, header\<lparr>error := 1\<rparr>)
         | Some len \<Rightarrow> analyse_form_loop (off + (21 + len)) (drop (21 + len) line2) (length2 - (21 + len))
             (header\<lparr>Content_Disposition := Some (take len (drop 21 line2))\<rparr>))
      else if strncaseeq line2 ''Content-Type: '' 14 then
        (case form_value 14 line2 length2 of
           None \<Rightarrow> (off + length2, header\<lparr>error := 1\<rparr>)
         | Some len \<Rightarrow> analyse_form_loop (off + (14 + len)) (drop (14 + len) line2) (length2 - (14 + len))
             (header\<lparr>Content_Type := Some (take len (drop 14 line2))\<rparr>))
      else analyse_form_loop (off + 1) (drop 1 line2) (length2 - 1) header)"
  by pat_completeness auto
termination
  by (relation "measure (\<lambda>(off, line2, length2, header). length2)") auto

declare analyse_form_loop.simps [simp del]

definition analyseFormDataLine :: "string \<Rightarrow> nat \<Rightarrow> HttpRequestHeader \<Rightarrow> nat \<times> HttpRequestHeader" where
  "analyseFormDataLine line len header = analyse_form_loop 0 line len header"

definition getParameter :: "vheap \<Rightarrow> HttpRequestHeader \<Rightarrow> string \<Rightarrow> ptr option" where
  "getParameter h header name = getVariable h (parameter_store header) name"

definition checkHeaderComplete :: "HttpRequestHeader \<Rightarrow> bool" where
  "checkHeaderComplete header = (url header \<noteq> None)"

text \<open>\<open>filename=\"name\"\<close>: the name without its quotes.\<close>

definition getFormDataFilename :: "string \<Rightarrow> string option" where
  "getFormDataFilename content_disposition =
     (let tmp = stringfind (Some content_disposition) ''filename='' in
      if tmp = 0 then None
      else
        let tmp = tmp + 2; len = strlen content_disposition;
            len = (if len < tmp + 1 then 0 else len - tmp - 1)
        in Some (take len (cstr (drop tmp content_disposition))))"

end
