(* ===== verification/RequestHeaders.thy ===== *)
theory RequestHeaders
  imports HeaderParser
begin

text \<open>
  What the header parser guarantees: the pairs of a query string and of a cookie line as a
  grammar says, the parameters as a table, no path that climbs out of the document root,
  an exact Content-Length, bounds on what one connection can make the server keep.
\<close>

subsection \<open>The scanners\<close>

definition parsed_pairs :: "char \<Rightarrow> bool \<Rightarrow> bool \<Rightarrow> string \<Rightarrow> pair_call list" where
  "parsed_pairs sep blanks last_empty s =
     map (\<lambda>f. decode_call (field f)) (pair_fields sep blanks last_empty s)"

lemma scan_start:
  assumes "n < length b" "sep \<noteq> CHR ''=''"
  shows "snd (scan_loop sep blanks last_empty n 0 b False 0 0 0 []) =
     parsed_pairs sep blanks last_empty (take n b)"
proof -
  have "scan_inv sep n 0 b False 0 0 0" using assms(1) by (simp add: scan_inv_def slice_def)
  from scan_loop_eq [OF this assms(2), of blanks last_empty "[]"] show ?thesis
    by (simp add: parsed_pairs_def slice_def)
qed

lemma foldl_createCookie: "foldl createCookie header cs = header\<lparr>cookie_list := cookie_list header @
    map (\<lambda>c. \<lparr>c_name = fst c, c_value = (case snd c of None \<Rightarrow> [] | Some v \<Rightarrow> v)\<rparr>) cs\<rparr>"
  by (induction cs arbitrary: header) (simp_all add: createCookie_def)

lemma parseCookies_eq: "parseCookies line header = header\<lparr>cookie_list := cookie_list header @
    map (\<lambda>c. \<lparr>c_name = fst c, c_value = (case snd c of None \<Rightarrow> [] | Some v \<Rightarrow> v)\<rparr>)
      (parsed_pairs (CHR '';'') True False (drop 8 line))\<rparr>"
  using scan_start [of "length (drop 8 line)" "drop 8 line @ [NUL]" "CHR '';''" True False]
  by (simp add: parseCookies_def Let_def foldl_createCookie)

text \<open>Creating a parameter is an insertion into the table of the parameter store.\<close>

definition scripted :: "pair_call \<Rightarrow> bool" where
  "scripted c = (case snd c of None \<Rightarrow> False
     | Some v \<Rightarrow> stringfind (Some v) ''<script>'' > 0 \<or> stringfind (Some v) ''</script>'' > 0)"

lemma createParameter_eq:
  assumes "flat_store h (parameter_store header)"
  shows "createParameter (h, header) c = Some (ins_at (parameter_store header) h (fst c) (snd c),
     if scripted c then header\<lparr>error := 1\<rparr> else header)"
proof -
  obtain h' where "store_ins h (parameter_store header) (fst c) (snd c) = Some h'"
    using store_ins_spec [OF assms, of "fst c" "snd c"] by blast
  then show ?thesis
    by (auto simp: createParameter_def store_ins_def ins_at_def scripted_def Option.bind_eq_Some_conv Let_def
        split: option.splits prod.splits)
qed

lemma create_all_eq:
  assumes "flat_store h (parameter_store header)"
  shows "create_all (h, header) cs =
     Some (foldl (\<lambda>h (k, t). ins_at (parameter_store header) h k t) h cs,
       if \<exists>c \<in> set cs. scripted c then header\<lparr>error := 1\<rparr> else header)"
  using assms
proof (induction cs arbitrary: h header)
  case (Cons c cs)
  let ?st = "parameter_store header"
  have "flat_store (ins_at ?st h (fst c) (snd c)) ?st" by (rule vs.ins_inv [OF Cons.prems])
  then show ?case
    using Cons.IH [of "ins_at ?st h (fst c) (snd c)" header]
      Cons.IH [of "ins_at ?st h (fst c) (snd c)" "header\<lparr>error := 1\<rparr>"]
    by (simp add: createParameter_eq [OF Cons.prems] case_prod_beta)
qed simp

definition put_text :: "(string \<times> ws_value) list \<Rightarrow> pair_call \<Rightarrow> (string \<times> ws_value) list" where
  "put_text xs c = (case snd c of None \<Rightarrow> touch (cstr (fst c)) VAR_TYPE_EMPTY xs
     | Some t \<Rightarrow> put (cstr (fst c)) (text_value t) xs)"

lemma receive_eq:
  assumes "flat_store h (parameter_store header)" "0 < n" "n < length b"
  shows "\<exists>h'. recieveParameterFromGet b n (h, header) = Some (h',
       if \<exists>c \<in> set (parsed_pairs (CHR ''&'') False True (take n b)). scripted c then header\<lparr>error := 1\<rparr> else header) \<and>
     flat_store h' (parameter_store header) \<and>
     table h' (parameter_store header) =
       foldl put_text (table h (parameter_store header)) (parsed_pairs (CHR ''&'') False True (take n b))"
proof -
  let ?cs = "parsed_pairs (CHR ''&'') False True (take n b)" and ?st = "parameter_store header"
  have pt: "put_text = (\<lambda>xs (k, t). case t of None \<Rightarrow> touch (cstr k) VAR_TYPE_EMPTY xs | Some t \<Rightarrow> put (cstr k) (text_value t) xs)"
    by (auto simp: put_text_def fun_eq_iff split: option.splits)
  show ?thesis
    using create_all_eq [OF assms(1), of ?cs] vs.ins_all_inv [OF assms(1), of ?cs]
      vs.ins_all_tab [OF assms(1), of ?cs] assms(2,3)
    by (simp add: recieveParameterFromGet_def scan_start pt)
qed

lemma foldl_put_text: "\<forall>kv \<in> set kvs. nul_free (fst kv) \<and> nul_free (snd kv) \<Longrightarrow>
    foldl put_text xs (map (\<lambda>kv. (fst kv, Some (snd kv))) kvs) =
    foldl (\<lambda>xs (k, v). put k (VAR_TYPE_STRING v (length v)) xs) xs kvs"
  by (induction kvs arbitrary: xs) (auto simp: put_text_def)

subsection \<open>Encoded pairs\<close>

definition enc_pair :: "string \<times> string \<Rightarrow> string" where
  "enc_pair kv = urlenc (fst kv) @ CHR ''='' # urlenc (snd kv)"

fun joined :: "string \<Rightarrow> string list \<Rightarrow> string" where
  "joined sep [] = []"
| "joined sep [f] = f"
| "joined sep (f # g # fs) = f @ sep @ joined sep (g # fs)"

lemma urlenc_chars: "c \<in> set (urlenc s) \<Longrightarrow> unreserved c \<or> c = CHR ''%''"
proof (induction s)
  case Nil
  then show ?case by (simp add: urlenc_def)
next
  case (Cons d s)
  have u: "unreserved (hexdig n)" if "n < 16" for n
    using code_hexdig [OF that] that by (auto simp: unreserved_def)
  have "code d div 16 < 16" "code d mod 16 < 16" using code_less [of d] by linarith+
  then have "unreserved (hexdig (code d div 16))" "unreserved (hexdig (code d mod 16))" by (simp_all add: u)
  then show ?case using Cons by (auto simp: urlenc_def urlenc_char_def split: if_splits)
qed

lemma enc_pair_chars: "c \<in> set (enc_pair kv) \<Longrightarrow> unreserved c \<or> c = CHR ''%'' \<or> c = CHR ''=''"
  using urlenc_chars by (auto simp: enc_pair_def)

lemma enc_pair_field: "field (enc_pair kv) = (urlenc (fst kv), Some (urlenc (snd kv)))"
proof -
  have "CHR ''='' \<notin> set (urlenc (fst kv))" using urlenc_chars by (force simp: unreserved_def)
  then show ?thesis unfolding enc_pair_def by (rule field_pair)
qed

lemma url_decoded_urlenc: "nul_free s \<Longrightarrow> url_decoded (urlenc s) = s"
  by (simp add: url_decoded_eq nul_free_urlenc urldec_urlenc)

lemma fields_joined:
  assumes "fs \<noteq> []" "\<forall>f \<in> set fs. sep \<notin> set f \<and> f \<noteq> [] \<and> hd f \<noteq> CHR '' ''"
  shows "pair_fields sep blanks last_empty (joined (if blanks then [sep, CHR '' ''] else [sep]) fs) = fs"
  using assms
proof (induction "if blanks then [sep, CHR '' ''] else [sep]" fs rule: joined.induct)
  case (2 f)
  then show ?case by (simp add: pair_fields_end)
next
  case (3 f g fs)
  let ?pad = "if blanks then [sep, CHR '' ''] else [sep]"
  obtain c r where j: "joined ?pad (g # fs) = c # r" "c \<noteq> CHR '' ''"
    using 3(3) by (cases fs; cases g) auto
  have "joined ?pad (f # g # fs) = f @ sep # (if blanks then [CHR '' ''] else []) @ joined ?pad (g # fs)"
    by simp
  moreover have "strip blanks ((if blanks then [CHR '' ''] else []) @ joined ?pad (g # fs)) = joined ?pad (g # fs)"
    using j by (simp add: strip_def)
  ultimately show ?case
    using 3 by (simp add: pair_fields_at_sep)
qed simp

definition ok_pairs :: "(string \<times> string) list \<Rightarrow> bool" where
  "ok_pairs kvs \<longleftrightarrow> kvs \<noteq> [] \<and> (\<forall>kv \<in> set kvs. nul_free (fst kv) \<and> nul_free (snd kv))"

lemma parsed_joined:
  assumes "ok_pairs kvs" "\<not> unreserved sep" "sep \<noteq> CHR ''%''" "sep \<noteq> CHR ''=''"
  shows "parsed_pairs sep blanks last_empty (joined (if blanks then [sep, CHR '' ''] else [sep]) (map enc_pair kvs)) =
     map (\<lambda>kv. (fst kv, Some (snd kv))) kvs"
proof -
  have "sep \<notin> set (enc_pair kv)" for kv using enc_pair_chars assms(2-4) by blast
  moreover have ne: "enc_pair kv \<noteq> []" for kv by (simp add: enc_pair_def)
  moreover have "hd (enc_pair kv) \<noteq> CHR '' ''" for kv
    using enc_pair_chars [OF hd_in_set [OF ne, of kv]] by (auto simp: unreserved_def)
  ultimately have "pair_fields sep blanks last_empty (joined (if blanks then [sep, CHR '' ''] else [sep]) (map enc_pair kvs)) =
      map enc_pair kvs"
    using assms(1) by (intro fields_joined) (auto simp: ok_pairs_def)
  then show ?thesis
    using assms(1) by (auto simp: parsed_pairs_def ok_pairs_def enc_pair_field decode_call_def url_decoded_urlenc)
qed

definition query :: "(string \<times> string) list \<Rightarrow> string" where
  "query kvs = joined ''&'' (map enc_pair kvs)"

lemma parsed_query: "ok_pairs kvs \<Longrightarrow>
    parsed_pairs (CHR ''&'') False True (query kvs) = map (\<lambda>kv. (fst kv, Some (snd kv))) kvs"
  using parsed_joined [of kvs "CHR ''&''" False True] by (simp add: query_def unreserved_def)

lemma set_joined: "set (joined sep fs) \<subseteq> set sep \<union> (\<Union>f \<in> set fs. set f)"
  by (induction sep fs rule: joined.induct) auto

lemma query_chars: "c \<in> set (query kvs) \<Longrightarrow> c \<noteq> NUL \<and> c \<noteq> CHR ''?''"
  using set_joined [of "''&''" "map enc_pair kvs"] enc_pair_chars
  by (fastforce simp: query_def unreserved_def)

lemma query_not_Nil: "kvs \<noteq> [] \<Longrightarrow> query kvs \<noteq> []"
  by (cases kvs; cases "tl kvs") (auto simp: query_def enc_pair_def)

subsection \<open>The request line\<close>

lemma target_with_query:
  assumes "flat_store h (parameter_store header)" "nul_free path" "CHR ''?'' \<notin> set path"
    "nul_free q" "q \<noteq> []"
  shows "\<exists>h'. request_target (length pre) (pre @ path @ ''?'' @ q @ '' HTTP/1.'' @ [v]) (h, header) =
       Some (h', if \<exists>c \<in> set (parsed_pairs (CHR ''&'') False True q). scripted c
         then header\<lparr>url := Some path, error := 1\<rparr> else header\<lparr>url := Some path\<rparr>) \<and>
     flat_store h' (parameter_store header) \<and>
     table h' (parameter_store header) =
       foldl put_text (table h (parameter_store header)) (parsed_pairs (CHR ''&'') False True q)"
proof -
  let ?line = "pre @ path @ ''?'' @ q @ '' HTTP/1.'' @ [v]"
  let ?t = "cstr (drop (length pre) ?line)"
  let ?start = "length pre + length path + 1"
  have t: "?t = path @ CHR ''?'' # cstr (q @ '' HTTP/1.'' @ [v])" using assms(2) by (simp add: cstr_append)
  have qm: "CHR ''?'' \<in> set ?t" "takeWhile (\<lambda>c. c \<noteq> CHR ''?'') ?t = path"
    using assms(3) unfolding t by (simp_all add: takeWhile_upto)
  have cp: "length ?line - 9 = ?start + length q" by simp
  have "?line[?start + length q := NUL] @ [NUL] = (pre @ path @ ''?'' @ q) @ NUL # ''HTTP/1.'' @ [v, NUL]"
    by (simp add: list_update_append)
  then have b: "drop ?start (?line[?start + length q := NUL] @ [NUL]) = q @ NUL # ''HTTP/1.'' @ [v, NUL]"
    by simp
  have "request_target (length pre) ?line (h, header) =
      recieveParameterFromGet (q @ NUL # ''HTTP/1.'' @ [v, NUL]) (length q) (h, header\<lparr>url := Some path\<rparr>)"
    unfolding request_target_def Let_def qm(2) cp using qm(1) b t by simp
  then show ?thesis
    using receive_eq [of h "header\<lparr>url := Some path\<rparr>" "length q" "q @ NUL # ''HTTP/1.'' @ [v, NUL]"] assms
    by simp
qed

text \<open>A request line with a method, as the code recognises it.\<close>

lemma analyse_get:
  assumes "req_method header = 0" "12 \<le> length line" "drop (length line - 9) line = '' HTTP/1.1''"
    "strncmp line ''GET '' 4 = 0"
  shows "analyseHeaderLine line (h, header) = checked_target 5 line
    (h, header\<lparr>isHttp1_1 := 1, req_method := HTTP_GET, no_websocket_support := 0\<rparr>)"
proof -
  have "strcmp '' HTTP/1.1'' '' HTTP/1.1'' = 0" by (simp add: strcmp_zero)
  then show ?thesis using assms by (simp add: analyseHeaderLine_def request_method_def Let_def)
qed

lemma sanity_fields: "parameter_store (url_sanity_check header) = parameter_store header \<and>
    req_method (url_sanity_check header) = req_method header \<and> isHttp1_1 (url_sanity_check header) = isHttp1_1 header"
  by (simp add: url_sanity_check_def Let_def)

lemma sanity_error: "error header = 1 \<Longrightarrow> error (url_sanity_check header) = 1"
  by (simp add: url_sanity_check_def)

lemma sanity_ok:
  assumes "error (url_sanity_check header) \<noteq> 1" "url header = Some u"
  shows "\<exists>v. url (url_sanity_check header) = Some v \<and> v = url_decoded u \<and> nul_free v \<and> \<not> sublist ''..'' v"
proof -
  let ?v = "url_decoded u"
  have nf: "nul_free ?v" by (simp add: url_decoded_eq)
  from assms(1) have e: "error header \<noteq> 1" using sanity_error by blast
  then have a: "url (url_sanity_check header) = Some ?v" "\<not> 0 < stringfind (Some ?v) ''..''"
    using assms by (auto simp: url_sanity_check_def Let_def split: if_splits)
  then have "\<not> sublist ''..'' (cstr ?v)" using stringfind_dots [of ?v] by simp
  then show ?thesis using a nf by simp
qed

subsection \<open>Cookie lines\<close>

lemma lower_C: "tolower (CHR ''C'') = CHR ''c''" "tolower (CHR ''o'') = CHR ''o''" "tolower (CHR ''a'') = CHR ''a''"
  by code_simp+

lemma match_cookie: "matchHeaderFields (''Cookie: '' @ r) header = parseCookies (''Cookie: '' @ r) header"
proof -
  have "\<not> strncaseeq (''Cookie: '' @ r) ''Cache-Control: '' 14" by (simp add: numeral_eq_Suc lower_C)
  moreover have "strncaseeq (''Cookie: '' @ r) ''Cookie: '' 8" by (simp add: numeral_eq_Suc)
  ultimately show ?thesis unfolding matchHeaderFields_def Let_def by (simp add: lower_C)
qed

lemma find_cookie: "nul_free name \<Longrightarrow> \<forall>kv \<in> set kvs. nul_free (fst kv) \<and> nul_free (snd kv) \<Longrightarrow>
    find (\<lambda>c. strcmp name (c_name c) = 0) (map (\<lambda>kv. \<lparr>c_name = fst kv, c_value = snd kv\<rparr>) kvs) =
    map_option (\<lambda>kv. \<lparr>c_name = fst kv, c_value = snd kv\<rparr>) (find (\<lambda>kv. fst kv = name) kvs)"
  by (induction kvs) (auto simp: strcmp_zero)

subsection \<open>Every line is handled\<close>

lemma create_all_url: "create_all (h, header) cs = Some (h', header') \<Longrightarrow> url header' = url header"
proof (induction cs arbitrary: h header)
  case (Cons c cs)
  then obtain h1 hd1 where "createParameter (h, header) c = Some (h1, hd1)"
      "create_all (h1, hd1) cs = Some (h', header')"
    by (auto simp: Option.bind_eq_Some_conv)
  moreover have "url hd1 = url header"
    using calculation(1)
    by (auto simp: createParameter_def Option.bind_eq_Some_conv Let_def split: option.splits if_splits)
  ultimately show ?case using Cons.IH by simp
qed simp

lemma request_target_url:
  "request_target off line (h, header) = Some (h', header') \<Longrightarrow>
    \<exists>pos. url header' = Some (take pos (cstr (drop off line)))"
  by (auto simp: request_target_def recieveParameterFromGet_def Let_def split: if_splits dest!: create_all_url)

text \<open>What a header line leaves alone, and that the parser always returns.\<close>

definition keeps :: "HttpRequestHeader \<Rightarrow> HttpRequestHeader \<Rightarrow> bool" where
  "keeps header header' \<longleftrightarrow> parameter_store header' = parameter_store header \<and>
     parsed_bytes header' = parsed_bytes header \<and> header_complete header' = header_complete header"

lemma keeps_refl [simp]: "keeps header header"
  by (simp add: keeps_def)

lemma takeWhile_shorter: "takeWhile P s \<noteq> s \<Longrightarrow> length (takeWhile P s) < length s"
  by (induction s) auto

lemma length_pair_fields: "length (pair_fields sep blanks False s) \<le> length s"
proof (induction sep blanks False s rule: pair_fields.induct)
  case (1 sep blanks s)
  let ?f = "takeWhile (\<lambda>c. c \<noteq> sep) s"
  show ?case
  proof (cases "?f = s")
    case True
    then show ?thesis unfolding pair_fields.simps [of sep blanks False s] Let_def by (cases s) auto
  next
    case False
    let ?r = "strip blanks (drop (Suc (length ?f)) s)"
    have "length ?r \<le> length s - Suc (length ?f)"
      using length_dropWhile_le [of "\<lambda>c. c = CHR '' ''" "drop (Suc (length ?f)) s"] by (simp add: strip_def)
    moreover have "length ?f < length s" using takeWhile_shorter [OF False] .
    ultimately show ?thesis using 1(1) [OF refl False] False
      unfolding pair_fields.simps [of sep blanks False s] Let_def by (cases "?f") auto
  qed
qed

lemma cookies_added: "length (cookie_list (parseCookies line header)) \<le> length (cookie_list header) + length line"
  using length_pair_fields [of "CHR '';''" True "drop 8 line"]
  by (simp add: parseCookies_eq parsed_pairs_def)

lemma match_keeps: "keeps header (matchHeaderFields line header) \<and>
    length (cookie_list (matchHeaderFields line header)) \<le> length (cookie_list header) + length line"
proof -
  have "keeps header (parseCookies line header)" by (simp add: keeps_def parseCookies_eq)
  moreover have "keeps header (content_length line header)"
      "cookie_list (content_length line header) = cookie_list header"
    by (simp_all add: keeps_def content_length_def Let_def case_prod_beta)
  ultimately show ?thesis
    using cookies_added [of line header]
    unfolding matchHeaderFields_def Let_def by (simp add: keeps_def)
qed

lemma receive_total:
  assumes "flat_store h (parameter_store header)" "n < length b"
  shows "\<exists>h' header'. recieveParameterFromGet b n (h, header) = Some (h', header') \<and>
     flat_store h' (parameter_store header) \<and> keeps header header' \<and> cookie_list header' = cookie_list header"
proof (cases "n = 0")
  case True
  then show ?thesis using assms(1) by (auto simp: recieveParameterFromGet_def)
next
  case False
  then show ?thesis using receive_eq [OF assms(1) _ assms(2)] by (auto simp: keeps_def)
qed

lemma request_target_total:
  assumes "flat_store h (parameter_store header)"
  shows "\<exists>h' header'. request_target off line (h, header) = Some (h', header') \<and>
     flat_store h' (parameter_store header) \<and> keeps header header' \<and> cookie_list header' = cookie_list header"
proof -
  let ?t = "cstr (drop off line)"
  show ?thesis
  proof (cases "CHR ''?'' \<in> set ?t")
    case False
    then show ?thesis using assms by (simp add: request_target_def Let_def keeps_def)
  next
    case True
    let ?pos = "length (takeWhile (\<lambda>c. c \<noteq> CHR ''?'') ?t)"
    let ?start = "off + ?pos + 1" and ?c = "length line - 9"
    let ?hd = "header\<lparr>url := Some (take ?pos ?t)\<rparr>"
    have "takeWhile (\<lambda>c. c \<noteq> CHR ''?'') ?t \<noteq> ?t" using True by (auto simp: takeWhile_eq_all_conv)
    then have "?pos < length ?t" by (rule takeWhile_shorter)
    then have "?start \<le> length line" using length_cstr_le [of "drop off line"] by simp
    then have "?c - ?start < length (drop ?start (line[?c := NUL] @ [NUL]))" by simp
    from receive_total [OF _ this, of h ?hd] show ?thesis
      using assms True by (auto simp: request_target_def Let_def keeps_def)
  qed
qed

lemma analyse_total:
  assumes "flat_store h (parameter_store header)"
  shows "\<exists>h' header' r. analyseHeaderLine line (h, header) = Some ((h', header'), r) \<and>
     flat_store h' (parameter_store header) \<and> keeps header header' \<and> (r = 0 \<or> r = - 1) \<and>
     length (cookie_list header') \<le> length (cookie_list header) + length line"
proof -
  have c: "\<exists>h' header' r. checked_target off line (h, hd) = Some ((h', header'), r) \<and>
     flat_store h' (parameter_store header) \<and> keeps header header' \<and> (r = 0 \<or> r = - 1) \<and>
     length (cookie_list header') \<le> length (cookie_list header) + length line"
    if "keeps header hd" "cookie_list hd = cookie_list header" for off hd
    using request_target_total [of h hd off line] assms that
    by (auto simp: checked_target_def keeps_def Let_def url_sanity_check_def)
  have m: "\<exists>h' header' r. request_method line (h, hd) = Some ((h', header'), r) \<and>
     flat_store h' (parameter_store header) \<and> keeps header header' \<and> (r = 0 \<or> r = - 1) \<and>
     length (cookie_list header') \<le> length (cookie_list header) + length line"
    if "keeps header hd" "cookie_list hd = cookie_list header" for hd
    using that assms c [of "hd\<lparr>req_method := HTTP_GET, no_websocket_support := 0\<rparr>" 5]
      c [of "hd\<lparr>req_method := HTTP_POST\<rparr>" 6] c [of "hd\<lparr>req_method := HTTP_OPTIONS\<rparr>" 9]
    by (simp add: request_method_def Let_def keeps_def)
  show ?thesis
    using m [of header] m [of "header\<lparr>isHttp1_1 := 1\<rparr>"] match_keeps [of header line] assms
    unfolding analyseHeaderLine_def Let_def by (simp add: keeps_def)
qed

lemma find_line_eq: "case find_line b i of
    Inl j \<Rightarrow> i \<le> j \<and> j < length b \<and> j < WEBSERVER_MAX_HEADER_LINE_LENGHT - 1 \<and> b ! j = LF \<and> b ! (j - 1) = CR
  | Inr r \<Rightarrow> r = 0 \<or> r = - 6"
proof (induction b i rule: find_line.induct)
  case (1 b i)
  then show ?case by (subst find_line.simps) (auto split: sum.splits)
qed

lemma parsed_add:
  assumes "unat p \<le> WEBSERVER_MAX_HEADER_SIZE" "i < WEBSERVER_MAX_HEADER_LINE_LENGHT"
  shows "unat (p + of_nat i + 1 :: u32) = unat p + i + 1" "p + of_nat (i + 1) = p + of_nat i + 1"
    "p + of_nat i + 1 > of_nat WEBSERVER_MAX_HEADER_SIZE \<longleftrightarrow> unat p + i + 1 > WEBSERVER_MAX_HEADER_SIZE"
proof -
  have i: "unat (of_nat i :: u32) = i"
    using assms(2) by (simp add: unat_of_nat WEBSERVER_MAX_HEADER_LINE_LENGHT_def)
  then show u: "unat (p + of_nat i + 1 :: u32) = unat p + i + 1"
    using assms by (simp add: unat_word_ariths WEBSERVER_MAX_HEADER_SIZE_def WEBSERVER_MAX_HEADER_LINE_LENGHT_def)
  show "p + of_nat (i + 1) = p + of_nat i + 1" by simp
  show "p + of_nat i + 1 > of_nat WEBSERVER_MAX_HEADER_SIZE \<longleftrightarrow> unat p + i + 1 > WEBSERVER_MAX_HEADER_SIZE"
    unfolding word_less_nat_alt u by (simp add: unat_of_nat WEBSERVER_MAX_HEADER_SIZE_def)
qed

text \<open>The call that takes a line.\<close>

lemma ParseHeader_line:
  assumes "flat_store h (parameter_store header)" "unat (parsed_bytes header) \<le> WEBSERVER_MAX_HEADER_SIZE"
    "3 \<le> i" "i < length b" "i < WEBSERVER_MAX_HEADER_LINE_LENGHT - 1" "find_line b 3 = Inl i"
    "\<not> (b ! 0 = CR \<and> b ! 1 = LF)"
  shows "\<exists>h' header' r n. ParseHeader proxy b (h, header) = Some ((h', header'), r, n) \<and>
     flat_store h' (parameter_store header') \<and> parameter_store header' = parameter_store header \<and>
     n \<le> length b \<and> (r > 0 \<and> n = nat r \<and> 4 \<le> n \<or> r \<in> {0, - 2, - 3, - 4, - 6, - 7, - 8}) \<and>
     (r > 0 \<longrightarrow> unat (parsed_bytes header') = unat (parsed_bytes header) + n \<and>
        unat (parsed_bytes header') \<le> WEBSERVER_MAX_HEADER_SIZE) \<and>
     unat (parsed_bytes header') \<le> unat (parsed_bytes header) + n \<and>
     length (cookie_list header') \<le> length (cookie_list header) + length b"
proof -
  have i: "i < WEBSERVER_MAX_HEADER_LINE_LENGHT" using assms(5) by simp
  note pa = parsed_add [OF assms(2) i]
  obtain h1 hd1 r where a: "analyseHeaderLine (take (i - 1) b) (h, header) = Some ((h1, hd1), r)"
      "flat_store h1 (parameter_store header)" "keeps header hd1" "r = 0 \<or> r = - 1"
      "length (cookie_list hd1) \<le> length (cookie_list header) + length (take (i - 1) b)"
    using analyse_total [OF assms(1), of "take (i - 1) b"] by blast
  have l: "length (cookie_list hd1) \<le> length (cookie_list header) + length b" using a(5) by simp
  have k: "parameter_store hd1 = parameter_store header" "parsed_bytes hd1 = parsed_bytes header"
    using a(3) by (simp_all add: keeps_def)
  have nl: "\<not> length b < 2" using assms(3,4) by simp
  have pl: "ParseHeader proxy b (h, header) =
      (if proxy b then Some ((h, header), - 7, 0)
       else if parsed_bytes header + of_nat i + 1 > of_nat WEBSERVER_MAX_HEADER_SIZE then Some ((h, header), - 8, 0)
       else do {
         ((h, header), r) \<leftarrow> analyseHeaderLine (take (i - 1) b) (h, header);
         if r < 0 then Some ((h, header), - 4, 0)
         else let header = header\<lparr>parsed_bytes := parsed_bytes header + of_nat (i + 1)\<rparr>
           in Some ((h, header), int (i + 1), i + 1)
       })"
    unfolding ParseHeader_def prod.case if_not_P [OF nl] if_not_P [OF assms(7)] assms(6) sum.case by (rule refl)
  consider (proxy) "proxy b" | (size) "\<not> proxy b" "unat (parsed_bytes header) + i + 1 > WEBSERVER_MAX_HEADER_SIZE"
    | (bad) "\<not> proxy b" "\<not> unat (parsed_bytes header) + i + 1 > WEBSERVER_MAX_HEADER_SIZE" "r < 0"
    | (ok) "\<not> (proxy b \<or> unat (parsed_bytes header) + i + 1 > WEBSERVER_MAX_HEADER_SIZE \<or> r < 0)" by blast
  then show ?thesis
  proof cases
    case proxy
    then have "ParseHeader proxy b (h, header) = Some ((h, header), - 7, 0)"
      by (simp add: pl)
    then show ?thesis using assms(1) by simp
  next
    case size
    then have "ParseHeader proxy b (h, header) = Some ((h, header), - 8, 0)"
      using pa(3) by (simp add: pl)
    then show ?thesis using assms(1) by simp
  next
    case bad
    then have "ParseHeader proxy b (h, header) = Some ((h1, hd1), - 4, 0)"
      using pa(3) a(1) by (simp add: pl)
    then show ?thesis using a(2) l k by simp
  next
    case False: ok
    have "ParseHeader proxy b (h, header) =
        Some ((h1, hd1\<lparr>parsed_bytes := parsed_bytes header + of_nat i + 1\<rparr>), int (i + 1), i + 1)"
      using False a(1) k pa(2,3) by (simp add: pl)
    then show ?thesis using False assms(3,4) a(2) l k pa(1) by auto
  qed
qed

subsection \<open>Properties\<close>

text \<open>C14: a GET request line whose query encodes a list of names and values is parsed back to
  exactly those pairs: the parameters of the request become the table in which each pair was
  set in order (a later value replaces an earlier one of the same name), the protocol version
  and method are recorded, and the line is refused only by the checks on path and values.\<close>

theorem query_parameters_roundtrip:
  assumes "flat_store h (parameter_store header)" "req_method header = 0" "error header = 0"
    "nul_free path" "CHR ''?'' \<notin> set path" "ok_pairs kvs"
  shows "\<exists>h' header' r. analyseHeaderLine (''GET /'' @ path @ ''?'' @ query kvs @ '' HTTP/1.1'') (h, header) =
       Some ((h', header'), r) \<and>
     flat_store h' (parameter_store header') \<and> parameter_store header' = parameter_store header \<and>
     table h' (parameter_store header) = foldl (\<lambda>xs (k, v). put k (VAR_TYPE_STRING v (length v)) xs)
       (table h (parameter_store header)) kvs \<and>
     req_method header' = HTTP_GET \<and> isHttp1_1 header' = 1 \<and> (r = 0 \<longleftrightarrow> error header' \<noteq> 1) \<and>
     (r = 0 \<longrightarrow> url header' = Some (url_decoded path))"
proof -
  let ?hd = "header\<lparr>isHttp1_1 := 1, req_method := HTTP_GET, no_websocket_support := 0\<rparr>"
  let ?q = "query kvs" and ?cs = "map (\<lambda>kv. (fst kv, Some (snd kv))) kvs"
  let ?line = "''GET /'' @ path @ ''?'' @ ?q @ '' HTTP/1.'' @ [CHR ''1'']"
  have get_len: "length ''GET /'' = 5" by simp
  have q: "nul_free ?q" "?q \<noteq> []" "parsed_pairs (CHR ''&'') False True ?q = ?cs"
    using assms(6) query_chars query_not_Nil parsed_query by (auto simp: nul_free_def ok_pairs_def)
  obtain h' hd' where t: "request_target 5 ?line (h, ?hd) = Some (h', hd')"
      "flat_store h' (parameter_store header)" "hd' = (if \<exists>c \<in> set ?cs. scripted c
         then ?hd\<lparr>url := Some path, error := 1\<rparr> else ?hd\<lparr>url := Some path\<rparr>)"
      "table h' (parameter_store header) = foldl put_text (table h (parameter_store header)) ?cs"
    using target_with_query [of h ?hd path ?q "''GET /''" "CHR ''1''", unfolded get_len] assms(1,4,5) q
    by (simp del: append_Cons append_Nil) blast
  have f: "url hd' = Some path" "parameter_store hd' = parameter_store header" "req_method hd' = HTTP_GET"
      "isHttp1_1 hd' = 1"
    using t(3) by auto
  have l: "12 \<le> length ?line" "drop (length ?line - 9) ?line = '' HTTP/1.1''" "strncmp ?line ''GET '' 4 = 0"
    by (simp_all add: strncmp_zero)
  have a: "analyseHeaderLine ?line (h, header) =
      Some ((h', url_sanity_check hd'), if error (url_sanity_check hd') = 1 then - 1 else 0)"
    unfolding analyse_get [OF assms(2) l] checked_target_def t(1) by (simp add: Let_def)
  have "foldl put_text xs ?cs = foldl (\<lambda>xs (k, v). put k (VAR_TYPE_STRING v (length v)) xs) xs kvs" for xs
    using assms(6) by (intro foldl_put_text) (simp add: ok_pairs_def)
  then show ?thesis
    using a t(2,4) f sanity_fields [of hd'] sanity_ok [of hd' path]
    by (intro exI [of _ h'] exI [of _ "url_sanity_check hd'"]
        exI [of _ "if error (url_sanity_check hd') = 1 then - 1 else 0 :: int"] conjI) auto
qed

text \<open>A fresh header and its empty parameter store, as \<open>WebserverMallocHttpRequestHeader\<close> makes them.\<close>

definition header_example :: HttpRequestHeader where
  "header_example = \<lparr>url = None, req_method = 0, error_method = [], error = 0, contentlenght = 0,
     contenttype = 0, If_Modified_Since = None, etag = None, Upgrade = None, Connection = None,
     Host = None, HostName = None, Origin = None, Access_Control_Request_Method = None,
     Access_Control_Request_Headers = None, Accept_Encoding = None, isHttp1_1 = 0, UserAgent = None,
     Accept = None, Authorization = None, Referer = None, header_complete = 0, parsed_bytes = 0,
     SecWebSocketProtocol = None, SecWebSocketKey = None, SecWebSocketVersion = 0,
     no_websocket_support = 0, post_buffer = None, post_buffer_pos = 0, post_buffer_reserved = 0,
     boundary = None, Content_Disposition = None, Content_Type = None,
     parameter_store = 1, cookie_list = []\<rparr>"

definition heap_example :: vheap where
  "heap_example = fst (createVariableStore \<lparr>vars = Map.empty, stores = Map.empty, brk = 1, custom_log = []\<rparr>)"

lemma heap_example_flat: "flat_store heap_example (parameter_store header_example)" "table heap_example 1 = []"
  by (simp_all add: flat_store_def heap_ok_def heap_example_def createVariableStore_def set_store_def
      cl_empty_def members_def table_def header_example_def)

theorem query_parameters_roundtrip_witness:
  "\<exists>h' header' r. analyseHeaderLine (''GET /'' @ ''a.html'' @ ''?'' @ query [(''x&'', ''1=2''), (''y'', [])] @ '' HTTP/1.1'')
       (heap_example, header_example) = Some ((h', header'), r) \<and>
     table h' 1 = [(''x&'', VAR_TYPE_STRING ''1=2'' 3), (''y'', VAR_TYPE_STRING [] 0)] \<and> isHttp1_1 header' = 1"
  using query_parameters_roundtrip [of heap_example header_example "''a.html''" "[(''x&'', ''1=2''), (''y'', [])]"]
    heap_example_flat by (auto simp: header_example_def ok_pairs_def)



text \<open>C13: a request line that is accepted leaves a path without a directory traversal: the stored
  path is a C string in which \<open>..\<close> does not occur, however it was encoded in the request.\<close>

theorem accepted_path_has_no_traversal:
  assumes "req_method header = 0" "analyseHeaderLine line (h, header) = Some ((h', header'), 0)"
  shows "\<exists>u. url header' = Some u \<and> nul_free u \<and> \<not> sublist ''..'' u"
proof -
  have "\<exists>off hd. checked_target off line (h, hd) = Some ((h', header'), 0)"
    using assms by (auto simp: analyseHeaderLine_def request_method_def Let_def split: if_splits)
  then obtain off hd h1 hd1 where "request_target off line (h, hd) = Some (h1, hd1)"
      "header' = url_sanity_check hd1" "error header' \<noteq> 1"
    by (auto simp: checked_target_def Option.bind_eq_Some_conv Let_def split: if_splits)
  moreover from this(1) obtain pos where "url hd1 = Some (take pos (cstr (drop off line)))"
    using request_target_url by blast
  ultimately show ?thesis using sanity_ok [of hd1] by auto
qed

theorem accepted_path_has_no_traversal_witness:
  "\<exists>h' header' u. analyseHeaderLine ''GET /a/b%2ehtml HTTP/1.0'' (heap_example, header_example) =
     Some ((h', header'), 0) \<and> url header' = Some u \<and> \<not> sublist ''..'' u"
proof -
  have "map_option snd (analyseHeaderLine ''GET /a/b%2ehtml HTTP/1.0'' (heap_example, header_example)) = Some 0"
    by code_simp
  then obtain h' header' where "analyseHeaderLine ''GET /a/b%2ehtml HTTP/1.0'' (heap_example, header_example) =
      Some ((h', header'), 0)" by auto
  then show ?thesis
    using accepted_path_has_no_traversal [of header_example _ heap_example h' header']
    by (auto simp: header_example_def)
qed



text \<open>C15: the header parser returns on every buffer content with one of its documented codes, keeps the
  parameter table well-formed, takes no more bytes than the buffer holds, and bounds what a
  connection can make the server keep: while a header is parsed line by line the bytes taken
  stay within the limit of 16384, the counter does not wrap, and no line adds more cookies
  than it has bytes.\<close>

theorem ParseHeader_bounds:
  assumes "flat_store h (parameter_store header)" "unat (parsed_bytes header) \<le> WEBSERVER_MAX_HEADER_SIZE"
  shows "\<exists>h' header' r n. ParseHeader proxy b (h, header) = Some ((h', header'), r, n) \<and>
     flat_store h' (parameter_store header') \<and> parameter_store header' = parameter_store header \<and>
     n \<le> length b \<and> (r > 0 \<and> n = nat r \<and> 4 \<le> n \<or> r \<in> {0, - 2, - 3, - 4, - 6, - 7, - 8}) \<and>
     (r > 0 \<longrightarrow> unat (parsed_bytes header') = unat (parsed_bytes header) + n \<and>
        unat (parsed_bytes header') \<le> WEBSERVER_MAX_HEADER_SIZE) \<and>
     unat (parsed_bytes header') \<le> unat (parsed_bytes header) + n \<and>
     length (cookie_list header') \<le> length (cookie_list header) + length b"
proof -
  have p2: "unat (parsed_bytes header + 2) = unat (parsed_bytes header) + 2"
    using assms(2) by (simp add: unat_word_ariths WEBSERVER_MAX_HEADER_SIZE_def)
  consider (short) "length b < 2" | (crlf) "\<not> length b < 2" "b ! 0 = CR \<and> b ! 1 = LF"
    | (line) i where "\<not> length b < 2" "\<not> (b ! 0 = CR \<and> b ! 1 = LF)" "find_line b 3 = Inl i"
    | (none) r where "\<not> length b < 2" "\<not> (b ! 0 = CR \<and> b ! 1 = LF)" "find_line b 3 = Inr r"
    by (cases "find_line b 3") auto
  then show ?thesis
  proof cases
    case line
    then have "3 \<le> i" "i < length b" "i < WEBSERVER_MAX_HEADER_LINE_LENGHT - 1"
      using find_line_eq [where b = b and i = 3] by simp_all
    then show ?thesis by (rule ParseHeader_line [OF assms _ _ _ line(3,2)])
  next
    case none
    then show ?thesis using assms(1) find_line_eq [where b = b and i = 3] by (auto simp: ParseHeader_def)
  qed (use assms(1) p2 in \<open>auto simp: ParseHeader_def Let_def\<close>)
qed

theorem ParseHeader_bounds_witness:
  "\<exists>h' header' r n. ParseHeader (\<lambda>b. False) (''GET /a HTTP/1.1'' @ [CR, LF]) (heap_example, header_example) =
     Some ((h', header'), r, n) \<and> n \<le> 18 \<and> unat (parsed_bytes header') \<le> n"
  using ParseHeader_bounds [of heap_example header_example "\<lambda>b. False" "''GET /a HTTP/1.1'' @ [CR, LF]"]
    heap_example_flat by (fastforce simp: header_example_def)

text \<open>C24: the cookies of a request come back: after a cookie line that encodes a list of names and
  values, asking for a name finds the first cookie of that name, earlier lines first, and
  copies its value with the terminator if it is shorter than a session identifier; otherwise
  exactly the length of an identifier is copied, without a terminator. Asking for a name that
  no cookie has leaves the buffer alone.\<close>

theorem cookie_roundtrip:
  assumes "ok_pairs kvs" "header' = matchHeaderFields (''Cookie: '' @ joined ''; '' (map enc_pair kvs)) header"
    "nul_free name" "\<forall>c \<in> set (cookie_list header). c_name c \<noteq> name" "\<forall>c \<in> set (cookie_list header). nul_free (c_name c)"
  shows "checkCookie name buf header' =
     (case find (\<lambda>kv. fst kv = name) kvs of
        None \<Rightarrow> (buf, 0)
      | Some (k, v) \<Rightarrow>
          (if length v < WEBSERVER_GUID_LENGTH then v @ NUL # drop (length v + 1) buf
           else take WEBSERVER_GUID_LENGTH v @ drop WEBSERVER_GUID_LENGTH buf, 1))"
proof -
  let ?cs = "map (\<lambda>kv. \<lparr>c_name = fst kv, c_value = snd kv\<rparr>) kvs"
  let ?line = "''Cookie: '' @ joined ''; '' (map enc_pair kvs)"
  have "parsed_pairs (CHR '';'') True False (joined ''; '' (map enc_pair kvs)) = map (\<lambda>kv. (fst kv, Some (snd kv))) kvs"
    using parsed_joined [OF assms(1), of "CHR '';''" True False] by (simp add: unreserved_def)
  then have "parseCookies ?line header = header\<lparr>cookie_list := cookie_list header @ ?cs\<rparr>"
    by (simp add: parseCookies_eq comp_def)
  moreover have "matchHeaderFields ?line header = parseCookies ?line header"
    by (rule match_cookie)
  ultimately have l: "cookie_list header' = cookie_list header @ ?cs" using assms(2) by simp
  have "find (\<lambda>c. strcmp name (c_name c) = 0) (cookie_list header) = None"
    using assms(3-5) by (auto simp: find_None_iff strcmp_zero)
  moreover have "find (\<lambda>c. strcmp name (c_name c) = 0) ?cs =
      map_option (\<lambda>kv. \<lparr>c_name = fst kv, c_value = snd kv\<rparr>) (find (\<lambda>kv. fst kv = name) kvs)"
    using assms(1,3) unfolding ok_pairs_def by (intro find_cookie) auto
  ultimately have f: "find (\<lambda>c. strcmp name (c_name c) = 0) (cookie_list header') =
      map_option (\<lambda>kv. \<lparr>c_name = fst kv, c_value = snd kv\<rparr>) (find (\<lambda>kv. fst kv = name) kvs)"
    by (simp add: l find_append)
  show ?thesis
  proof (cases "find (\<lambda>kv. fst kv = name) kvs")
    case None
    then show ?thesis using f by (simp add: checkCookie_def)
  next
    case (Some kv)
    then have "nul_free (snd kv)" using assms(1) by (auto simp: ok_pairs_def find_Some_iff)
    then show ?thesis using f Some by (cases kv) (auto simp: checkCookie_def Let_def)
  qed
qed

theorem cookie_roundtrip_witness:
  "checkCookie ''b'' (replicate 8 (CHR ''x'')) (matchHeaderFields
     (''Cookie: '' @ joined ''; '' (map enc_pair [(''a'', ''1''), (''b'', ''2;3''), (''b'', ''4'')])) header_example) =
     (''2;3'' @ NUL # ''xxxx'', 1)"
  using cookie_roundtrip [of "[(''a'', ''1''), (''b'', ''2;3''), (''b'', ''4'')]" _ header_example "''b''" "replicate 8 (CHR ''x'')"]
  by (simp add: ok_pairs_def header_example_def WEBSERVER_GUID_LENGTH_def numeral_eq_Suc)

end
