(* ===== verification/VariableTree.thy ===== *)
theory VariableTree
  imports Variables
begin

text \<open>
  Ownership of variables: an array variable owns its store, a store owns its variables.
  The mutually recursive freeing functions of \<open>variable.c\<close> and \<open>variable_store.c\<close> are shown
  to end on every such tree and to free exactly the tree, each object once. A \<open>shape\<close> names
  the objects of a tree: a variable without a store, or an array variable with its store, the
  list entries of the store and the trees of its members.
\<close>

datatype shape = Leaf ptr | Arr ptr addr "addr list" "shape list"

fun root :: "shape \<Rightarrow> ptr" where
  "root (Leaf v) = v"
| "root (Arr v st as ts) = v"

fun tvars :: "shape \<Rightarrow> ptr list" where
  "tvars (Leaf v) = [v]"
| "tvars (Arr v st as ts) = v # concat (map tvars ts)"

fun tstores :: "shape \<Rightarrow> addr list" where
  "tstores (Leaf v) = []"
| "tstores (Arr v st as ts) = st # concat (map tstores ts)"

definition custom_of :: "ws_value \<Rightarrow> (ptr \<times> ptr) list" where
  "custom_of x = (case x of VAR_TYPE_CUSTOM_DATA p handle \<Rightarrow> [(handle, p)] | _ \<Rightarrow> [])"

text \<open>The free handlers that the tree's custom data will see, in order.\<close>

fun tcustom :: "vheap \<Rightarrow> shape \<Rightarrow> (ptr \<times> ptr) list" where
  "tcustom h (Leaf v) = custom_of (v_val (the (vars h v)))"
| "tcustom h (Arr v st as ts) = concat (map (tcustom h) ts)"

fun shaped :: "vheap \<Rightarrow> shape \<Rightarrow> bool" where
  "shaped h (Leaf v) = (v \<noteq> 0 \<and> (case vars h v of None \<Rightarrow> False
     | Some x \<Rightarrow> (case v_val x of VAR_TYPE_ARRAY st \<Rightarrow> False | _ \<Rightarrow> True)))"
| "shaped h (Arr v st as ts) = (v \<noteq> 0 \<and> st \<noteq> 0 \<and>
     (case vars h v of None \<Rightarrow> False | Some x \<Rightarrow> v_val x = VAR_TYPE_ARRAY st) \<and>
     (case stores h st of None \<Rightarrow> False | Some s \<Rightarrow> cl_cells s = zip as (map root ts)) \<and>
     length as = length ts \<and> distinct as \<and> 0 \<notin> set as \<and> (\<forall>t \<in> set ts. shaped h t))"

text \<open>The heap without a set of variables and a set of stores.\<close>

definition prune :: "ptr set \<Rightarrow> addr set \<Rightarrow> (ptr \<times> ptr) list \<Rightarrow> vheap \<Rightarrow> vheap" where
  "prune V S log h = h\<lparr>vars := (\<lambda>v. if v \<in> V then None else vars h v),
     stores := (\<lambda>st. if st \<in> S then None else stores h st), custom_log := custom_log h @ log\<rparr>"

lemma vars_prune [simp]: "vars (prune V S log h) v = (if v \<in> V then None else vars h v)"
  by (simp add: prune_def)

lemma stores_prune [simp]: "stores (prune V S log h) st = (if st \<in> S then None else stores h st)"
  by (simp add: prune_def)

lemma vars_set_store [simp]: "vars (set_store st s h) = vars h"
  by (simp add: set_store_def)

lemma stores_set_store [simp]: "stores (set_store st s h) = (stores h)(st \<mapsto> s)"
  by (simp add: set_store_def)

lemma root_tvars: "root t \<in> set (tvars t)"
  by (cases t) auto

lemma shaped_cong:
  "(\<And>v. v \<in> set (tvars t) \<Longrightarrow> vars h' v = vars h v) \<Longrightarrow>
   (\<And>st. st \<in> set (tstores t) \<Longrightarrow> stores h' st = stores h st) \<Longrightarrow> shaped h' t = shaped h t"
proof (induction t)
  case (Arr v st as ts)
  then have "shaped h' t = shaped h t" if "t \<in> set ts" for t using that by auto
  then show ?case using Arr.prems by auto
qed simp

lemma tcustom_cong: "(\<And>v. v \<in> set (tvars t) \<Longrightarrow> vars h' v = vars h v) \<Longrightarrow> tcustom h' t = tcustom h t"
proof (induction t)
  case (Arr v st as ts)
  then have "tcustom h' t = tcustom h t" if "t \<in> set ts" for t using that by auto
  then show ?case by (simp cong: map_cong)
qed simp

lemma prune_prune: "prune V S log (prune V' S' log' h) = prune (V' \<union> V) (S' \<union> S) (log' @ log) h"
  by (rule vheap.equality) (simp_all add: prune_def fun_eq_iff)

lemma prune_set_store:
  "st \<notin> S \<Longrightarrow> prune V S log (set_store st s h) = set_store st s (prune V S log h)"
  by (rule vheap.equality) (auto simp add: prune_def set_store_def fun_eq_iff)

lemma set_store_twice [simp]: "set_store st s (set_store st s' h) = set_store st s h"
  by (simp add: set_store_def)

text \<open>What freeing one variable does, as the hypothesis of the loop.\<close>

definition frees :: "shape \<Rightarrow> bool" where
  "frees t \<longleftrightarrow> (\<forall>h. shaped h t \<longrightarrow> distinct (tvars t) \<longrightarrow> distinct (tstores t) \<longrightarrow>
     free_run (Free_Variable (root t)) h = Some (prune (set (tvars t)) (set (tstores t)) (tcustom h t) h))"

lemma next_after:
  assumes "cl_cells s = pre @ (a, v) # zip (b # bs) (w # ws)" "cl_iter s = b" "b \<noteq> 0"
    "distinct (map fst (cl_cells s))"
  shows "cl_iterator_next s = Some (s\<lparr>cl_iter := hd_addr (zip bs ws) 0\<rparr>, w)"
proof -
  have "b \<notin> fst ` set (pre @ [(a, v)])" using assms(1,4) by auto
  then have "dropWhile (\<lambda>x. fst x \<noteq> b) (pre @ [(a, v)] @ (b, w) # zip bs ws) = (b, w) # zip bs ws"
    by (subst dropWhile_append2) force+
  then show ?thesis using assms(1-3) by (simp add: cl_iterator_next_def)
qed

lemma clear_loop_frees:
  assumes "\<forall>t \<in> set (t # ts). frees t" "\<forall>t \<in> set (t # ts). shaped h t"
    "distinct (concat (map tvars (t # ts)))" "distinct (concat (map tstores (t # ts)))"
    "st \<noteq> 0" "st \<notin> set (concat (map tstores (t # ts)))" "stores h st = Some s"
    "cl_cells s = pre @ zip (a # as) (map root (t # ts))" "length as = length ts"
    "distinct (map fst (cl_cells s))" "0 \<notin> set as" "cl_iter s = hd_addr (zip as (map root ts)) 0"
  shows "\<exists>s'. free_run (Clear_Loop st (root t)) h = Some (set_store st s'
     (prune (set (concat (map tvars (t # ts)))) (set (concat (map tstores (t # ts))))
       (concat (map (tcustom h) (t # ts))) h))"
  using assms
proof (induction ts arbitrary: t h s pre a as)
  case Nil
  let ?h = "prune (set (tvars t)) (set (tstores t)) (tcustom h t) h"
  have r0: "root t \<noteq> 0" using Nil.prems(2) by (cases t) auto
  have "free_run (Free_Variable (root t)) h = Some ?h"
    using Nil.prems by (simp add: frees_def)
  moreover have "getNextVariable ?h st = Some (set_store st (cl_iterator_stop s) ?h, 0)"
    using Nil.prems by (simp add: getNextVariable_def)
  ultimately show ?case using r0
    by (subst free_run.simps) (auto simp: free_run.simps [of "Clear_Loop st 0"])
next
  case (Cons u ts)
  let ?h = "prune (set (tvars t)) (set (tstores t)) (tcustom h t) h"
  have r0: "root t \<noteq> 0" using Cons.prems(2) by (cases t) auto
  obtain b bs where as: "as = b # bs" using Cons.prems(9) by (cases as) auto
  let ?s = "s\<lparr>cl_iter := hd_addr (zip bs (map root ts)) 0\<rparr>"
  have f: "free_run (Free_Variable (root t)) h = Some ?h"
    using Cons.prems by (simp add: frees_def)
  have nx: "cl_iterator_next s = Some (?s, root u)"
    using Cons.prems by (intro next_after [of s pre a "root t" b]) (auto simp: as)
  have g: "getNextVariable ?h st = Some (set_store st ?s ?h, root u)"
    using Cons.prems nx by (simp add: getNextVariable_def as)
  have sh: "shaped (set_store st ?s ?h) w" if "w \<in> set (u # ts)" for w
  proof -
    have "shaped (set_store st ?s ?h) w = shaped h w"
      using that Cons.prems(3,4,6) by (intro shaped_cong) auto
    then show ?thesis using that Cons.prems(2) by auto
  qed
  have tc: "tcustom (set_store st ?s ?h) w = tcustom h w" if "w \<in> set (u # ts)" for w
    using that Cons.prems(3) by (intro tcustom_cong) auto
  have "\<exists>s'. free_run (Clear_Loop st (root u)) (set_store st ?s ?h) = Some (set_store st s'
     (prune (set (concat (map tvars (u # ts)))) (set (concat (map tstores (u # ts))))
       (concat (map (tcustom (set_store st ?s ?h)) (u # ts))) (set_store st ?s ?h)))"
  proof (rule Cons.IH [where s = ?s and pre = "pre @ [(a, root t)]" and a = b and as = bs])
    show "\<forall>t \<in> set (u # ts). shaped (set_store st ?s ?h) t" using sh by blast
  qed (use Cons.prems in \<open>auto simp: as\<close>)
  then obtain s' where IH: "free_run (Clear_Loop st (root u)) (set_store st ?s ?h) = Some (set_store st s'
     (prune (set (concat (map tvars (u # ts)))) (set (concat (map tstores (u # ts))))
       (concat (map (tcustom h) (u # ts))) (set_store st ?s ?h)))"
    using tc by (auto cong: map_cong)
  have "free_run (Clear_Loop st (root t)) h = free_run (Clear_Loop st (root u)) (set_store st ?s ?h)"
    using f g r0 by (subst free_run.simps) simp
  then show ?case
    using IH Cons.prems(6) by (auto simp: prune_set_store prune_prune)
qed


lemma first_of_cells:
  assumes "stores h st = Some s" "st \<noteq> 0" "cl_cells s = (a, v) # xs" "a \<noteq> 0"
  shows "getFirstVariable h st = Some (set_store st (s\<lparr>cl_iter := hd_addr xs 0\<rparr>) h, v)"
  using assms by (simp add: getFirstVariable_def cl_iterator_start_def cl_iterator_next_def Let_def)

lemma delete_store_frees:
  assumes "\<forall>t \<in> set ts. frees t" "\<forall>t \<in> set ts. shaped h t"
    "distinct (concat (map tvars ts))" "distinct (concat (map tstores ts))"
    "st \<noteq> 0" "st \<notin> set (concat (map tstores ts))" "stores h st = Some s"
    "cl_cells s = zip as (map root ts)" "length as = length ts" "distinct as" "0 \<notin> set as"
  shows "free_run (Delete_Store st) h = Some (prune (set (concat (map tvars ts)))
     (insert st (set (concat (map tstores ts)))) (concat (map (tcustom h) ts)) h)"
proof -
  let ?V = "set (concat (map tvars ts))" and ?S = "set (concat (map tstores ts))"
    and ?L = "concat (map (tcustom h) ts)"
  obtain s' where c: "free_run (Clear_Variables st) h = Some (set_store st s' (prune ?V ?S ?L h))"
  proof (cases ts)
    case Nil
    then have "free_run (Clear_Variables st) h = Some (set_store st (cl_clear (cl_iterator_stop s)) (prune ?V ?S ?L h))"
      using assms by (subst free_run.simps)
        (simp add: getFirstVariable_def free_run.simps [of "Clear_Loop st 0"] stopIterateVariable_def prune_def)
    then show ?thesis by (rule that)
  next
    case (Cons t us)
    obtain b bs where as: "as = b # bs" using assms(9) Cons by (cases as) auto
    let ?s = "s\<lparr>cl_iter := hd_addr (zip bs (map root us)) 0\<rparr>"
    have g: "getFirstVariable h st = Some (set_store st ?s h, root t)"
      using assms Cons by (intro first_of_cells [of h st s b]) (auto simp: as)
    have sh: "shaped (set_store st ?s h) w" if "w \<in> set ts" for w
    proof -
      have "shaped (set_store st ?s h) w = shaped h w" using that assms(6) by (intro shaped_cong) auto
      then show ?thesis using that assms(2) by auto
    qed
    have tc: "tcustom (set_store st ?s h) = tcustom h" by (rule ext, rule tcustom_cong) simp
    have "\<exists>s'. free_run (Clear_Loop st (root t)) (set_store st ?s h) = Some (set_store st s'
       (prune (set (concat (map tvars (t # us)))) (set (concat (map tstores (t # us))))
         (concat (map (tcustom (set_store st ?s h)) (t # us))) (set_store st ?s h)))"
    proof (rule clear_loop_frees [where s = ?s and pre = "[]" and a = b and as = bs])
      show "\<forall>t \<in> set (t # us). shaped (set_store st ?s h) t" using sh Cons by simp
    qed (use assms Cons as in auto)
    then obtain s' where l: "free_run (Clear_Loop st (root t)) (set_store st ?s h) =
        Some (set_store st s' (prune ?V ?S ?L h))"
      using assms(6) by (auto simp: tc Cons prune_set_store)
    have "free_run (Clear_Variables st) h = Some (set_store st (cl_clear (cl_iterator_stop s')) (prune ?V ?S ?L h))"
      using g l assms(5) by (subst free_run.simps) (simp add: stopIterateVariable_def)
    then show ?thesis by (rule that)
  qed
  have "free_store_cell st (set_store st s' (prune ?V ?S ?L h)) = prune ?V (insert st ?S) ?L h"
    by (rule vheap.equality) (auto simp: free_store_cell_def set_store_def prune_def fun_eq_iff)
  with c show ?thesis by (subst free_run.simps) simp
qed

lemma frees_Leaf: "frees (Leaf v)"
proof -
  have "free_run (Free_Variable v) h = Some (prune {v} {} (custom_of (v_val (the (vars h v)))) h)"
    if "shaped h (Leaf v)" for h
  proof -
    from that obtain x where x: "vars h v = Some x" "v \<noteq> 0" "\<And>st. v_val x \<noteq> VAR_TYPE_ARRAY st"
      by (auto split: option.splits ws_value.splits)
    let ?h = "set_var v (x\<lparr>v_name := None\<rparr>) h"
    have "free_run (Free_Value v) ?h = Some (set_var v (x\<lparr>v_name := None, v_val := VAR_TYPE_EMPTY\<rparr>)
        (?h\<lparr>custom_log := custom_log h @ custom_of (v_val x)\<rparr>))"
      using x by (subst free_run.simps) (auto simp: set_var_def custom_of_def split: ws_value.splits)
    then have "free_run (Free_Variable v) h = Some (free_var_cell v
        (set_var v (x\<lparr>v_name := None, v_val := VAR_TYPE_EMPTY\<rparr>) (?h\<lparr>custom_log := custom_log h @ custom_of (v_val x)\<rparr>)))"
      using x by (subst free_run.simps) (simp add: set_var_def)
    also have "\<dots> = Some (prune {v} {} (custom_of (v_val x)) h)"
      by (simp, rule vheap.equality) (auto simp: free_var_cell_def set_var_def prune_def fun_eq_iff)
    finally show ?thesis by (simp add: x)
  qed
  then show ?thesis by (simp add: frees_def)
qed

lemma frees_Arr:
  assumes "\<forall>t \<in> set ts. frees t"
  shows "frees (Arr v st as ts)"
proof -
  have "free_run (Free_Variable v) h = Some (prune (insert v (set (concat (map tvars ts))))
      (insert st (set (concat (map tstores ts)))) (concat (map (tcustom h) ts)) h)"
    if sh: "shaped h (Arr v st as ts)" and dv: "distinct (tvars (Arr v st as ts))"
      and ds: "distinct (tstores (Arr v st as ts))" for h
  proof -
    let ?V = "set (concat (map tvars ts))" and ?S = "insert st (set (concat (map tstores ts)))"
      and ?L = "concat (map (tcustom h) ts)"
    from sh obtain x s where x: "vars h v = Some x" "v \<noteq> 0" "st \<noteq> 0" "v_val x = VAR_TYPE_ARRAY st"
        "stores h st = Some s" "cl_cells s = zip as (map root ts)" "length as = length ts"
        "distinct as" "0 \<notin> set as" "\<forall>t \<in> set ts. shaped h t"
      by (auto split: option.splits)
    let ?h = "set_var v (x\<lparr>v_name := None\<rparr>) h"
    have eqs: "shaped ?h t = shaped h t" "tcustom ?h t = tcustom h t" if "t \<in> set ts" for t
      using that dv by (auto intro!: shaped_cong tcustom_cong simp: set_var_def)
    have "free_run (Delete_Store st) ?h = Some (prune ?V ?S (concat (map (tcustom ?h) ts)) ?h)"
      using assms x dv ds eqs by (intro delete_store_frees [where s = s and as = as]) (auto simp: set_var_def)
    then have d: "free_run (Delete_Store st) ?h = Some (prune ?V ?S ?L ?h)"
      using eqs(2) by (simp cong: map_cong)
    have v: "v \<notin> ?V" using dv by simp
    then have "free_run (Free_Value v) ?h = Some (set_var v (x\<lparr>v_name := None, v_val := VAR_TYPE_EMPTY\<rparr>) (prune ?V ?S ?L ?h))"
      using x d by (subst free_run.simps) (simp add: set_var_def)
    then have "free_run (Free_Variable v) h = Some (free_var_cell v
        (set_var v (x\<lparr>v_name := None, v_val := VAR_TYPE_EMPTY\<rparr>) (prune ?V ?S ?L ?h)))"
      using x by (subst free_run.simps) (simp add: set_var_def)
    also have "\<dots> = Some (prune (insert v ?V) ?S ?L h)"
      by (simp, rule vheap.equality) (auto simp: free_var_cell_def set_var_def prune_def fun_eq_iff)
    finally show ?thesis .
  qed
  then show ?thesis by (simp add: frees_def)
qed

lemma frees_all: "frees t"
  by (induction t) (simp_all add: frees_Leaf frees_Arr)

subsection \<open>Properties\<close>

text \<open>C21: deleting a store ends for every store whose members and nested arrays form a tree, and
  frees exactly the variables and stores of that tree, each once and without following a
  pointer to a freed object; the free handlers of its custom data run once each in member
  order; everything else in the heap, the targets of references included, is unchanged.\<close>

theorem deleteVariableStore_frees_tree:
  assumes "\<forall>t \<in> set ts. shaped h t" "distinct (concat (map tvars ts))"
    "distinct (st # concat (map tstores ts))" "st \<noteq> 0" "stores h st = Some s"
    "cl_cells s = zip as (map root ts)" "length as = length ts" "distinct as" "0 \<notin> set as"
  shows "deleteVariableStore h st = Some (prune (set (concat (map tvars ts)))
     (insert st (set (concat (map tstores ts)))) (concat (map (tcustom h) ts)) h)"
  unfolding deleteVariableStore_def
  using assms frees_all by (intro delete_store_frees [where s = s and as = as]) auto

definition tree_example :: vheap where
  "tree_example = \<lparr>vars = [2 \<mapsto> \<lparr>v_name = Some ''a'', name_len = 1, v_val = VAR_TYPE_ARRAY 5\<rparr>,
       3 \<mapsto> \<lparr>v_name = Some ''r'', name_len = 1, v_val = VAR_TYPE_REF 9\<rparr>,
       6 \<mapsto> \<lparr>v_name = Some ''c'', name_len = 1, v_val = VAR_TYPE_CUSTOM_DATA 77 88\<rparr>,
       9 \<mapsto> \<lparr>v_name = Some ''g'', name_len = 1, v_val = VAR_TYPE_INT 4\<rparr>],
     stores = [1 \<mapsto> \<lparr>cl_cells = [(10, 2), (11, 3)], cl_iter = 0\<rparr>,
       5 \<mapsto> \<lparr>cl_cells = [(12, 6)], cl_iter = 0\<rparr>], brk = 20, custom_log = []\<rparr>"

theorem deleteVariableStore_frees_tree_witness:
  "deleteVariableStore tree_example 1 =
     Some (prune {2, 3, 6} {1, 5} [(88, 77)] tree_example)"
proof -
  have "deleteVariableStore tree_example 1 =
      Some (prune (set (concat (map tvars [Arr 2 5 [12] [Leaf 6], Leaf 3])))
        (insert 1 (set (concat (map tstores [Arr 2 5 [12] [Leaf 6], Leaf 3]))))
        (concat (map (tcustom tree_example) [Arr 2 5 [12] [Leaf 6], Leaf 3])) tree_example)"
    by (rule deleteVariableStore_frees_tree [where as = "[10, 11]" and
          s = "\<lparr>cl_cells = [(10, 2), (11, 3)], cl_iter = 0\<rparr>"]) (simp_all add: tree_example_def)
  then show ?thesis by (simp add: tree_example_def custom_of_def insert_commute)
qed

end
