(* ===== verification/Websocket.thy ===== *)
theory Websocket
  imports Base64 Sha1
begin

text \<open>
  The websocket protocol engine of \<open>lib/src/websockets_send_recv.c\<close> with the streaming mode
  of \<open>websockets_streaming.c\<close>, and the handshake checks of \<open>websockets.c\<close>: the frame
  encoder, the receive loop with its input buffer, offsets and gotos, message reassembly,
  control frames and close codes.

  The bytes that are ready on the connection are an argument of the receive function, which
  reads them in pieces of what fits into the input buffer. The UTF-8 check is third-party
  code and a parameter, as are the application's stream handlers. Lengths are the 32-bit
  lengths of the build (\<open>SHORT_WS_FRAMES_T\<close>); offsets into the buffer stay far below that.
\<close>

datatype Opcodes = WSF_CONTINUE | WSF_TEXT | WSF_BINARY | WSF_RESERVED nat | WSF_CLOSE | WSF_PING | WSF_PONG

definition opcode_value :: "Opcodes \<Rightarrow> u8" where
  "opcode_value op = (case op of WSF_CONTINUE \<Rightarrow> 0 | WSF_TEXT \<Rightarrow> 1 | WSF_BINARY \<Rightarrow> 2
     | WSF_CLOSE \<Rightarrow> 8 | WSF_PING \<Rightarrow> 9 | WSF_PONG \<Rightarrow> 10 | WSF_RESERVED n \<Rightarrow> of_nat n)"

definition opcode_of :: "u8 \<Rightarrow> Opcodes" where
  "opcode_of b = (if b = 0 then WSF_CONTINUE else if b = 1 then WSF_TEXT else if b = 2 then WSF_BINARY
     else if b = 8 then WSF_CLOSE else if b = 9 then WSF_PING else if b = 10 then WSF_PONG
     else WSF_RESERVED (unat b))"

definition WEBSOCKET_MAX_INBUFFER_SIZE :: nat where "WEBSOCKET_MAX_INBUFFER_SIZE = 65000"
definition WEBSOCKET_MAX_FRAGMENTS :: nat where "WEBSOCKET_MAX_FRAGMENTS = 1024"
definition WEBSOCKET_STREAM_CHUNK_SIZE :: nat where "WEBSOCKET_STREAM_CHUNK_SIZE = 65536"

record websocket_frame =
  fin :: bool
  opcode :: Opcodes
  playload_length :: nat
  real_length :: nat
  mask_key :: bytes

record stream_context =
  total_length :: nat
  received_length :: nat
  is_binary :: bool
  aborted :: bool

datatype stream_event = On_start | On_chunk bytes | On_end bool

text \<open>A stream handler of the application, seen from the server: whether it has set the
  context's abort flag when its start or chunk callback returns.\<close>

record stream_handler =
  start_aborts :: "stream_context \<Rightarrow> bool"
  chunk_aborts :: "stream_context \<Rightarrow> bytes \<Rightarrow> bool"

record ws_socket =
  websocket_buffer :: bytes
  websocket_buffer_offset :: nat
  websocket_fragments :: "bytes list"
  websocket_fragment_start_opcode :: Opcodes
  websocket_fragments_length :: nat
  websocket_fragment_count :: nat
  websocket_streaming_active :: bool
  websocket_stream_fragmented :: bool
  websocket_stream_remaining :: nat
  websocket_stream_mask :: bytes
  websocket_stream_mask_offset :: nat
  websocket_stream_ctx :: "stream_context option"
  websocket_stream_handler :: "stream_handler option"
  stream_log :: "stream_event list"
  closeSocket :: bool
  input_queue :: "(bool \<times> bytes) list"
  output_queue :: "bytes list"

subsection \<open>Sending (websockets\_send\_recv.c)\<close>

definition len_byte :: "nat \<Rightarrow> nat \<Rightarrow> u8" where
  "len_byte n sh = of_nat (n div 2 ^ sh)"

definition ws_frame :: "Opcodes \<Rightarrow> bytes \<Rightarrow> bytes" where
  "ws_frame op_code inp =
     (let length = length inp; b0 = 0x80 + opcode_value op_code in
      if length < 126 then [b0, of_nat length] @ inp
      else if length < 65536 then [b0, 126, len_byte length 8, len_byte length 0] @ inp
      else [b0, 127, 0, 0, 0, 0, len_byte length 24, len_byte length 16, len_byte length 8, len_byte length 0] @ inp)"

definition sendWebsocketFrame :: "Opcodes \<Rightarrow> bytes \<Rightarrow> ws_socket \<Rightarrow> ws_socket" where
  "sendWebsocketFrame op_code inp sock = sock\<lparr>output_queue := output_queue sock @ [ws_frame op_code inp]\<rparr>"

definition sendWebsocketTextFrame :: "(bytes \<Rightarrow> bool) \<Rightarrow> bytes \<Rightarrow> ws_socket \<Rightarrow> ws_socket \<times> int" where
  "sendWebsocketTextFrame is_utf8 inp sock =
     (if \<not> is_utf8 inp then (sock, - 1) else (sendWebsocketFrame WSF_TEXT inp sock, 0))"

definition sendWebsocketBinaryFrame :: "bytes \<Rightarrow> ws_socket \<Rightarrow> ws_socket \<times> int" where
  "sendWebsocketBinaryFrame inp sock = (sendWebsocketFrame WSF_BINARY inp sock, 0)"

definition sendCloseFrameWithStatus :: "nat \<Rightarrow> ws_socket \<Rightarrow> ws_socket" where
  "sendCloseFrameWithStatus status_code sock =
     sendWebsocketFrame WSF_CLOSE [len_byte status_code 8, len_byte status_code 0] sock"

definition sendCloseFrame :: "ws_socket \<Rightarrow> ws_socket" where
  "sendCloseFrame sock = sendCloseFrameWithStatus 1000 sock"

subsection \<open>Streaming mode (websockets\_streaming.c)\<close>

definition cleanupSocketStreamState :: "ws_socket \<Rightarrow> ws_socket" where
  "cleanupSocketStreamState sock = sock\<lparr>websocket_streaming_active := False,
     websocket_stream_fragmented := False, websocket_stream_ctx := None,
     websocket_stream_handler := None, websocket_stream_remaining := 0,
     websocket_stream_mask_offset := 0\<rparr>"

text \<open>The resets that \<open>recFrameV8\<close> writes out itself keep the remaining length and the mask
  offset; after a stream of one frame they also keep the fragmented flag.\<close>

definition drop_stream :: "ws_socket \<Rightarrow> ws_socket" where
  "drop_stream sock = sock\<lparr>websocket_streaming_active := False,
     websocket_stream_ctx := None, websocket_stream_handler := None\<rparr>"

definition log_stream :: "stream_event \<Rightarrow> ws_socket \<Rightarrow> ws_socket" where
  "log_stream e sock = sock\<lparr>stream_log := stream_log sock @ [e]\<rparr>"

definition unmask :: "bytes \<Rightarrow> nat \<Rightarrow> bytes \<Rightarrow> bytes" where
  "unmask key k data = map (\<lambda>i. data ! i XOR key ! ((k + i) mod 4)) [0..<length data]"

definition startWebsocketStream ::
  "(nat \<Rightarrow> bool) \<Rightarrow> string \<Rightarrow> string \<Rightarrow> ws_socket \<Rightarrow> nat \<Rightarrow> Opcodes \<Rightarrow> bytes \<Rightarrow> stream_handler \<Rightarrow> bool \<Rightarrow> ws_socket option" where
  "startWebsocketStream malloc guid url sock frame_length op key handler fragmented =
     (if \<not> malloc 48 then None
      else if \<not> malloc (strlen guid + 1) then None
      else if \<not> malloc (strlen url + 1) then None
      else
        let ctx = \<lparr>total_length = (if fragmented then 0 else frame_length), received_length = 0,
                   is_binary = (op = WSF_BINARY), aborted = False\<rparr>;
            ctx' = ctx\<lparr>aborted := start_aborts handler ctx\<rparr>
        in Some (log_stream On_start (sock\<lparr>websocket_streaming_active := True,
             websocket_stream_fragmented := fragmented,
             websocket_stream_remaining := (if fragmented then 0 else frame_length),
             websocket_stream_ctx := Some ctx', websocket_stream_handler := Some handler,
             websocket_stream_mask := (if fragmented then replicate 4 0 else key),
             websocket_stream_mask_offset := 0\<rparr>)))"

text \<open>Passing data to the handler: the chunk callback, then the count of received bytes.\<close>

definition stream_chunk :: "stream_handler \<Rightarrow> stream_context \<Rightarrow> bytes \<Rightarrow> ws_socket \<Rightarrow> ws_socket \<times> stream_context" where
  "stream_chunk handler ctx data sock =
     (let ctx' = ctx\<lparr>aborted := aborted ctx \<or> chunk_aborts handler ctx data,
                     received_length := received_length ctx + length data\<rparr>
      in (log_stream (On_chunk data) (sock\<lparr>websocket_stream_ctx := Some ctx'\<rparr>), ctx'))"

text \<open>\<open>avail\<close> is what the connection has ready; a read of no bytes returns 0.\<close>

definition continueWebsocketStream :: "ws_socket \<Rightarrow> bytes \<Rightarrow> ws_socket \<times> int \<times> bytes" where
  "continueWebsocketStream sock avail =
     (case (websocket_stream_ctx sock, websocket_stream_handler sock) of
        (Some ctx, Some handler) \<Rightarrow>
          let to_read = min (websocket_stream_remaining sock mod 2 ^ 32) WEBSOCKET_STREAM_CHUNK_SIZE;
              data = take to_read avail
          in if data = [] then
               (cleanupSocketStreamState (log_stream (On_end False) sock), - 1, avail)
             else
               let chunk = unmask (websocket_stream_mask sock) (websocket_stream_mask_offset sock) data;
                   sock = sock\<lparr>websocket_stream_mask_offset := (websocket_stream_mask_offset sock + length data) mod 4\<rparr>;
                   (sock, ctx) = stream_chunk handler ctx chunk sock;
                   sock = sock\<lparr>websocket_stream_remaining := websocket_stream_remaining sock - length data\<rparr>;
                   rest = drop to_read avail
               in if websocket_stream_remaining sock = 0 \<or> aborted ctx then
                    let remaining_at_abort = websocket_stream_remaining sock;
                        sock = cleanupSocketStreamState (log_stream (On_end (\<not> aborted ctx)) sock)
                    in if aborted ctx \<and> remaining_at_abort > 0
                       then (sock\<lparr>closeSocket := True\<rparr>, - 1, rest) else (sock, 0, rest)
                  else (sock, 0, rest)
      | _ \<Rightarrow> (cleanupSocketStreamState sock, - 1, avail))"

subsection \<open>Receiving (websockets\_send\_recv.c)\<close>

datatype close_reason = Close_error | Close_protocol | Close_utf8 | Close_too_big

datatype header_result =
    Header_incomplete
  | Header_fails close_reason
  | Header websocket_frame nat

text \<open>The header of a frame of which \<open>diff\<close> bytes are there: \<open>g i\<close> reads the byte \<open>i\<close> places
  behind the start of the frame. The result holds the count of extra bytes, the mask
  included; the payload starts behind them. Only masked frames come through.\<close>

definition frame_header :: "(nat \<Rightarrow> u8) \<Rightarrow> nat \<Rightarrow> header_result" where
  "frame_header g diff =
     (if diff < 2 then Header_incomplete
      else if g 0 AND 0x70 \<noteq> 0 then Header_fails Close_protocol
      else if g 1 AND 0x80 = 0 then Header_fails Close_protocol
      else let playload = unat (g 1 AND 0x7F);
               ext = (if playload = 126 then 2 else if playload = 127 then 8 else 0);
               extra_bytes = 4 + ext
           in if diff < 2 + extra_bytes then Header_incomplete
      else if playload = 127 \<and> g 2 AND 0x80 = 0x80 then Header_fails Close_error
      else if playload = 127 \<and> \<not> (g 5 = 0 \<and> g 4 = 0 \<and> g 3 = 0 \<and> g 2 = 0) then Header_fails Close_error
      else let real = (if playload = 126 then unat (g 3) + unat (g 2) * 2 ^ 8
                       else if playload = 127 then unat (g 9) + unat (g 8) * 2 ^ 8 +
                              unat (g 7) * 2 ^ 16 + unat (g 6) * 2 ^ 24
                       else playload)
           in Header \<lparr>fin = (g 0 AND 0x80 \<noteq> 0), opcode = opcode_of (g 0 AND 0x0F), playload_length = playload,
                real_length = real,
                mask_key = [g (2 + ext), g (3 + ext), g (4 + ext), g (5 + ext)]\<rparr> extra_bytes)"

datatype frame_step =
    Next ws_socket nat
  | Recopy ws_socket nat
  | Read_more ws_socket
  | Return ws_socket int
  | Close_with ws_socket close_reason

text \<open>What the server is configured with: allocation, the UTF-8 check, the handler found for
  the URL of the connection.\<close>

record ws_env =
  env_malloc :: "nat \<Rightarrow> bool"
  env_is_utf8 :: "bytes \<Rightarrow> bool"
  env_guid :: string
  env_url :: string
  env_handler :: "stream_handler option"

definition queue_message :: "bool \<Rightarrow> bytes \<Rightarrow> ws_socket \<Rightarrow> ws_socket" where
  "queue_message binary msg sock = sock\<lparr>input_queue := input_queue sock @ [(binary, msg)]\<rparr>"

text \<open>A whole data frame for a URL with a stream handler; \<open>offset\<close> is the start of the payload.\<close>

definition stream_frame :: "ws_env \<Rightarrow> stream_handler \<Rightarrow> websocket_frame \<Rightarrow> nat \<Rightarrow> ws_socket \<Rightarrow> frame_step" where
  "stream_frame env handler wsf offset sock =
     (let total = websocket_buffer_offset sock - offset in
      if real_length wsf > 2 ^ 32 - 1 - offset then Close_with sock Close_error
      else let frame_end_pos = offset + real_length wsf in
      case startWebsocketStream (env_malloc env) (env_guid env) (env_url env) sock (real_length wsf)
             (opcode wsf) (mask_key wsf) handler False of
        None \<Rightarrow> Close_with sock Close_error
      | Some sock \<Rightarrow>
          if total > 0 then
            let n = min total (real_length wsf);
                payload = unmask (mask_key wsf) 0 (take n (drop offset (websocket_buffer sock)));
                sock = sock\<lparr>websocket_stream_mask_offset := n mod 4\<rparr>;
                (sock, ctx) = stream_chunk handler (the (websocket_stream_ctx sock)) payload sock;
                sock = sock\<lparr>websocket_stream_remaining := websocket_stream_remaining sock - n\<rparr>
            in if websocket_stream_remaining sock = 0 \<or> aborted ctx then
                 let remaining_at_abort = websocket_stream_remaining sock;
                     sock = drop_stream (log_stream (On_end (\<not> aborted ctx)) sock)
                 in if aborted ctx \<and> remaining_at_abort > 0 then Close_with sock Close_error
                    else if websocket_buffer_offset sock > frame_end_pos then
                      let remaining = websocket_buffer_offset sock - frame_end_pos;
                          buf = websocket_buffer sock
                      in Next (sock\<lparr>websocket_buffer := take remaining (drop frame_end_pos buf) @ drop remaining buf,
                                websocket_buffer_offset := remaining\<rparr>) 0
                    else Return (sock\<lparr>websocket_buffer_offset := 0\<rparr>) 0
               else Return (sock\<lparr>websocket_buffer_offset := 0\<rparr>) 0
          else Return (sock\<lparr>websocket_buffer_offset := 0\<rparr>) 0)"

text \<open>A fragment for a stream handler, with what follows an abort or the final fragment.\<close>

definition fragment_to_stream :: "stream_handler \<Rightarrow> stream_context \<Rightarrow> bool \<Rightarrow> bytes \<Rightarrow> ws_socket \<Rightarrow> ws_socket" where
  "fragment_to_stream handler ctx final data sock =
     (let (sock, ctx) = stream_chunk handler ctx data sock in
      if aborted ctx \<or> final then
        (drop_stream (log_stream (On_end (\<not> aborted ctx)) sock))\<lparr>websocket_stream_fragmented := False\<rparr>
      else sock)"

text \<open>The cases of the switch take the unmasked payload and the offset behind it.\<close>

definition data_frame :: "ws_env \<Rightarrow> websocket_frame \<Rightarrow> bytes \<Rightarrow> nat \<Rightarrow> ws_socket \<Rightarrow> frame_step" where
  "data_frame env wsf data offset sock =
     (if (websocket_streaming_active sock \<and> websocket_stream_fragmented sock) \<or>
         websocket_fragment_start_opcode sock \<noteq> WSF_CONTINUE then Close_with sock Close_protocol
      else if fin wsf then
        (if opcode wsf = WSF_TEXT then
           (if real_length wsf \<ge> WEBSOCKET_MAX_INBUFFER_SIZE then Close_with sock Close_error
            else if \<not> env_is_utf8 env data then Close_with sock Close_utf8
            else Next (queue_message False (data @ [0]) sock) offset)
         else Next (queue_message True data sock) offset)
      else case env_handler env of
        Some handler \<Rightarrow>
          (case startWebsocketStream (env_malloc env) (env_guid env) (env_url env) sock 0 (opcode wsf) [] handler True of
             None \<Rightarrow> Close_with sock Close_error
           | Some sock \<Rightarrow>
               if \<not> env_malloc env (real_length wsf) then Close_with sock Close_error
               else Next (fragment_to_stream handler (the (websocket_stream_ctx sock)) False data sock) offset)
      | None \<Rightarrow>
          if real_length wsf \<ge> WEBSOCKET_MAX_INBUFFER_SIZE then Close_with sock Close_too_big
          else if \<not> env_malloc env (real_length wsf) then Close_with sock Close_error
          else Next (sock\<lparr>websocket_fragments := websocket_fragments sock @ [data],
                 websocket_fragment_start_opcode := opcode wsf,
                 websocket_fragments_length := real_length wsf, websocket_fragment_count := 1\<rparr>) offset)"

definition finish_fragments :: "ws_env \<Rightarrow> nat \<Rightarrow> ws_socket \<Rightarrow> frame_step" where
  "finish_fragments env offset sock =
     (let is_text = (websocket_fragment_start_opcode sock = WSF_TEXT);
          binary = (websocket_fragment_start_opcode sock = WSF_BINARY)
      in if is_text \<and> websocket_fragments_length sock \<ge> WEBSOCKET_MAX_INBUFFER_SIZE then Close_with sock Close_error
      else let msg = concat (websocket_fragments sock);
               sock = sock\<lparr>websocket_fragments := []\<rparr>;
               done = sock\<lparr>websocket_fragment_start_opcode := WSF_CONTINUE,
                        websocket_fragments_length := 0, websocket_fragment_count := 0\<rparr>
           in if is_text \<and> \<not> env_is_utf8 env msg then Close_with done Close_utf8
              else Next (queue_message binary (if is_text then msg @ [0] else msg) done) offset)"

definition usub :: "nat \<Rightarrow> nat \<Rightarrow> nat" where
  "usub a b = (a + 2 ^ 32 - b) mod 2 ^ 32"

definition continue_frame :: "ws_env \<Rightarrow> websocket_frame \<Rightarrow> bytes \<Rightarrow> nat \<Rightarrow> ws_socket \<Rightarrow> frame_step" where
  "continue_frame env wsf data offset sock =
     (let streaming = (websocket_streaming_active sock \<and> websocket_stream_fragmented sock) in
      if \<not> streaming \<and> websocket_fragment_start_opcode sock = WSF_CONTINUE then Close_with sock Close_protocol
      else if streaming then
        (case (websocket_stream_handler sock, websocket_stream_ctx sock) of
           (Some handler, Some ctx) \<Rightarrow>
             if \<not> env_malloc env (real_length wsf) then
               Close_with ((drop_stream (log_stream (On_end False) sock))\<lparr>websocket_stream_fragmented := False\<rparr>) Close_error
             else Next (fragment_to_stream handler ctx (fin wsf) data sock) offset
         | _ \<Rightarrow> Close_with ((drop_stream sock)\<lparr>websocket_stream_fragmented := False\<rparr>) Close_error)
      else if real_length wsf \<ge> usub WEBSOCKET_MAX_INBUFFER_SIZE (websocket_fragments_length sock) then
        Close_with sock Close_too_big
      else let sock = sock\<lparr>websocket_fragment_count := websocket_fragment_count sock + 1\<rparr> in
      if websocket_fragment_count sock > WEBSOCKET_MAX_FRAGMENTS then Close_with sock Close_too_big
      else if real_length wsf > 0 \<and> \<not> env_malloc env (real_length wsf) then Close_with sock Close_error
      else let sock = (if real_length wsf > 0
                 then sock\<lparr>websocket_fragments := websocket_fragments sock @ [data],
                        websocket_fragments_length := websocket_fragments_length sock + real_length wsf\<rparr>
                 else sock)
           in if fin wsf then finish_fragments env offset sock else Next sock offset)"

definition control_frame :: "websocket_frame \<Rightarrow> bytes \<Rightarrow> nat \<Rightarrow> ws_socket \<Rightarrow> frame_step" where
  "control_frame wsf data offset sock =
     (if \<not> fin wsf then Close_with sock Close_protocol
      else if real_length wsf > 125 then Close_with sock Close_protocol
      else case opcode wsf of
        WSF_CLOSE \<Rightarrow> Return ((sendCloseFrame sock)\<lparr>closeSocket := True\<rparr>) 0
      | WSF_PING \<Rightarrow> Next (sendWebsocketFrame WSF_PONG data sock) offset
      | _ \<Rightarrow> Next sock offset)"

text \<open>One round of the inner loop. \<open>diff\<close> is the value left by the round before, which the
  round keeps when nothing lies behind \<open>offset\<close>.\<close>

definition frame_diff :: "ws_socket \<Rightarrow> nat \<Rightarrow> nat \<Rightarrow> nat" where
  "frame_diff sock offset diff =
     (if websocket_buffer_offset sock > offset then websocket_buffer_offset sock - offset else diff)"

definition dispatch_frame :: "ws_env \<Rightarrow> websocket_frame \<Rightarrow> bytes \<Rightarrow> nat \<Rightarrow> ws_socket \<Rightarrow> frame_step" where
  "dispatch_frame env wsf data offset sock =
     (case opcode wsf of
        WSF_TEXT \<Rightarrow> data_frame env wsf data offset sock
      | WSF_BINARY \<Rightarrow> data_frame env wsf data offset sock
      | WSF_CONTINUE \<Rightarrow> continue_frame env wsf data offset sock
      | WSF_RESERVED n \<Rightarrow> Close_with sock Close_protocol
      | _ \<Rightarrow> control_frame wsf data offset sock)"

definition frame_round :: "ws_env \<Rightarrow> ws_socket \<Rightarrow> nat \<Rightarrow> nat \<Rightarrow> frame_step" where
  "frame_round env sock offset diff =
     (case frame_header (\<lambda>i. bget (websocket_buffer sock) (offset + i)) diff of
        Header_incomplete \<Rightarrow> Recopy sock offset
      | Header_fails r \<Rightarrow> Close_with sock r
      | Header wsf extra_bytes \<Rightarrow>
          let off = offset + 2 + extra_bytes in
          if (opcode wsf = WSF_TEXT \<or> opcode wsf = WSF_BINARY) \<and> fin wsf \<and> env_handler env \<noteq> None
          then stream_frame env (the (env_handler env)) wsf off sock
          else if real_length wsf > WEBSOCKET_MAX_INBUFFER_SIZE then Close_with sock Close_too_big
          else if diff < 2 + extra_bytes + real_length wsf then
            (if offset = 0 \<and> real_length wsf > length (websocket_buffer sock) then
               Read_more (sock\<lparr>websocket_buffer := websocket_buffer sock @
                 replicate (2 + extra_bytes + real_length wsf + 10 - length (websocket_buffer sock)) 0\<rparr>)
             else Recopy sock offset)
          else dispatch_frame env wsf
                 (unmask (mask_key wsf) 0 (take (real_length wsf) (drop off (websocket_buffer sock))))
                 (off + real_length wsf) sock)"

definition recopy_buffer :: "ws_socket \<Rightarrow> nat \<Rightarrow> ws_socket" where
  "recopy_buffer sock last_frame_start =
     (if last_frame_start > 0 then
        let diff = websocket_buffer_offset sock - last_frame_start; buf = websocket_buffer sock
        in sock\<lparr>websocket_buffer := take diff (drop last_frame_start buf) @ drop diff buf,
             websocket_buffer_offset := diff\<rparr>
      else sock)"

definition close_code :: "close_reason \<Rightarrow> nat" where
  "close_code r = (case r of Close_error \<Rightarrow> 1000 | Close_protocol \<Rightarrow> 1002 | Close_utf8 \<Rightarrow> 1007 | Close_too_big \<Rightarrow> 1009)"

definition close_socket :: "ws_socket \<Rightarrow> close_reason \<Rightarrow> ws_socket" where
  "close_socket sock r = (sendCloseFrameWithStatus (close_code r) sock)\<lparr>closeSocket := True\<rparr>"

datatype loop_result = Want_data ws_socket | Finished ws_socket int

partial_function (option) frame_loop :: "ws_env \<Rightarrow> ws_socket \<Rightarrow> nat \<Rightarrow> nat \<Rightarrow> loop_result option" where
  "frame_loop env sock offset diff =
     (let diff = frame_diff sock offset diff in
      case frame_round env sock offset diff of
        Next sock offset \<Rightarrow>
          if offset = websocket_buffer_offset sock
          then Some (Want_data (sock\<lparr>websocket_buffer_offset := 0\<rparr>))
          else frame_loop env sock offset diff
      | Recopy sock start \<Rightarrow> Some (Want_data (recopy_buffer sock start))
      | Read_more sock \<Rightarrow> Some (Want_data sock)
      | Return sock ret \<Rightarrow> Some (Finished sock ret)
      | Close_with sock r \<Rightarrow> Some (Finished (close_socket sock r) (- 1)))"

text \<open>The outer loop reads what fits into the buffer until nothing is ready (or nothing
  fits), which ends the call with 0.\<close>

partial_function (option) receive_loop :: "ws_env \<Rightarrow> ws_socket \<Rightarrow> bytes \<Rightarrow> (ws_socket \<times> int \<times> bytes) option" where
  "receive_loop env sock avail =
     (let max_read = length (websocket_buffer sock) - websocket_buffer_offset sock;
          data = take max_read avail
      in if data = [] then Some (sock, 0, avail)
         else
           let n = websocket_buffer_offset sock; buf = websocket_buffer sock;
               sock = sock\<lparr>websocket_buffer := take n buf @ data @ drop (n + length data) buf,
                        websocket_buffer_offset := n + length data\<rparr>
           in Option.bind (frame_loop env sock 0 0) (\<lambda>r.
                case r of Want_data sock \<Rightarrow> receive_loop env sock (drop max_read avail)
                | Finished sock ret \<Rightarrow> Some (sock, ret, drop max_read avail)))"

definition recFrameV8 :: "ws_env \<Rightarrow> ws_socket \<Rightarrow> bytes \<Rightarrow> (ws_socket \<times> int \<times> bytes) option" where
  "recFrameV8 env sock avail =
     (if websocket_streaming_active sock then Some (continueWebsocketStream sock avail)
      else receive_loop env sock avail)"

definition recFrame :: "nat \<Rightarrow> ws_env \<Rightarrow> ws_socket option \<Rightarrow> bytes \<Rightarrow> (ws_socket option \<times> int \<times> bytes) option" where
  "recFrame version env s avail =
     (case s of None \<Rightarrow> Some (None, - 1, avail)
      | Some sock \<Rightarrow>
          if version > 6 then map_option (\<lambda>(sock, r, rest). (Some sock, r, rest)) (recFrameV8 env sock avail)
          else Some (Some sock, - 1, avail))"

subsection \<open>Handshake (websockets.c)\<close>

definition WEBSOCKET_KEY_LENGTH :: nat where "WEBSOCKET_KEY_LENGTH = 24"

definition key_char :: "char \<Rightarrow> bool" where
  "key_char c \<longleftrightarrow> (65 \<le> code c \<and> code c \<le> 90) \<or> (97 \<le> code c \<and> code c \<le> 122) \<or>
     (48 \<le> code c \<and> code c \<le> 57) \<or> c = CHR ''+'' \<or> c = CHR ''/''"

definition validWebsocketKey :: "string \<Rightarrow> bool" where
  "validWebsocketKey key \<longleftrightarrow> strlen key = WEBSOCKET_KEY_LENGTH \<and>
     list_all (\<lambda>i. key_char (cget key i)) [0..<WEBSOCKET_KEY_LENGTH - 2] \<and>
     cget key 22 = CHR ''='' \<and> cget key 23 = CHR ''=''"

definition ws_protocol_guid :: string where
  "ws_protocol_guid = ''258EAFA5-E914-47DA-95CA-C5AB0DC85B11''"

text \<open>\<open>ctx\<close> is the uninitialised hash context on the stack; the result is the output buffer and
  the return value.\<close>

definition websocketAcceptKey :: "SHA1_CTX \<Rightarrow> string option \<Rightarrow> string \<Rightarrow> nat \<Rightarrow> (string \<times> int) option" where
  "websocketAcceptKey ctx k out out_size =
     (case k of None \<Rightarrow> Some (out, - 1)
      | Some key \<Rightarrow>
          if \<not> validWebsocketKey key \<or> out_size < 29 then Some (out, - 1)
          else
            Option.bind (WebserverSHA1 ctx (map u8_of_char (take WEBSOCKET_KEY_LENGTH key @ ws_protocol_guid))) (\<lambda>sha1.
            Option.bind (WebserverBase64Encode sha1 20 out out_size) (\<lambda>out. Some (out, 0))))"

definition ws_blank :: "char \<Rightarrow> bool" where
  "ws_blank c \<longleftrightarrow> c = CHR '' '' \<or> c = CHR 0x09"

definition trim_right :: "string \<Rightarrow> string" where
  "trim_right s = rev (dropWhile ws_blank (rev s))"

text \<open>The scan of the Connection header for the token.\<close>

function upgrade_found :: "string \<Rightarrow> bool" where
  "upgrade_found p =
     (if p = [] then False
      else let start = dropWhile ws_blank p;
               tok = trim_right (takeWhile (\<lambda>c. c \<noteq> CHR '','') start);
               rest = dropWhile (\<lambda>c. c \<noteq> CHR '','') start
           in if length tok = 7 \<and> map tolower tok = ''upgrade'' then True
              else upgrade_found (if rest = [] then rest else tl rest))"
  by pat_completeness auto
termination
proof (relation "measure length", simp, goal_cases)
  case (1 p start tok rest)
  have "length rest \<le> length start" "length start \<le> length p"
    using 1 by (simp_all add: length_dropWhile_le)
  moreover have "0 < length p" using 1 by simp
  ultimately show ?case by (cases rest) simp_all
qed

declare upgrade_found.simps [simp del]

record handshake_header =
  SecWebSocketKey :: "string option"
  Connection :: "string option"
  Upgrade :: "string option"
  SecWebSocketVersion :: int

datatype handshake_response = No_response | Status_426 | Status_400

text \<open>The return value, the \<open>isWebsocket\<close> flag and the response that was prepared.\<close>

definition checkIskWebsocketConnection :: "handshake_header option \<Rightarrow> int \<times> int \<times> handshake_response" where
  "checkIskWebsocketConnection h =
     (case h of None \<Rightarrow> (0, 0, No_response)
      | Some header \<Rightarrow>
          (case (SecWebSocketKey header, Connection header, Upgrade header) of
             (Some key, Some connection, Some upgrade) \<Rightarrow>
               if \<not> upgrade_found (cstr connection) then (0, 0, No_response)
               else if map tolower (cstr upgrade) = ''websocket'' then
                 (if SecWebSocketVersion header < 13 then (1, 2, Status_426)
                  else if \<not> validWebsocketKey key then (1, 2, Status_400)
                  else (1, 1, No_response))
               else (0, 0, No_response)
           | _ \<Rightarrow> (0, 0, No_response)))"

end
