(* ===== verification/WebsocketProtocol.thy ===== *)
theory WebsocketProtocol
  imports Websocket
begin

text \<open>
  What the websocket receiver does, seen from the byte stream. \<open>parse_frame\<close> reads one client
  frame off a list of bytes and \<open>protocol\<close> handles frames until one is incomplete; the
  receive loops with their buffer, offsets and copies follow it (\<open>receive_loop_protocol\<close>),
  from which the receiver is an incremental consumer (the locale \<open>chunked\<close>) and handles
  exactly the frames a client encodes, however the bytes are cut.
\<close>

subsection \<open>The header parser\<close>

lemma frame_header_cong:
  assumes "\<And>i. i < diff \<Longrightarrow> g' i = g i"
  shows "frame_header g' diff = frame_header g diff"
proof -
  have r: "i < diff \<Longrightarrow> g' i = g i" for i using assms .
  consider "diff < 2" | "2 \<le> diff" "diff < 6" | "6 \<le> diff" "diff < 8" | "8 \<le> diff" "diff < 14" | "14 \<le> diff"
    by linarith
  then show ?thesis
    by cases (simp_all add: frame_header_def Let_def r, blast)
qed

lemma frame_header_mono:
  "frame_header g diff \<noteq> Header_incomplete \<Longrightarrow> diff \<le> diff' \<Longrightarrow> frame_header g diff' = frame_header g diff"
  by (auto simp: frame_header_def Let_def split: if_splits)

lemma frame_header_extra:
  assumes "frame_header g diff = Header w e"
  shows "e \<le> 12 \<and> 4 \<le> e \<and> 2 + e \<le> diff \<and> length (mask_key w) = 4"
  using assms by (auto simp: frame_header_def Let_def split: if_splits)

lemma frame_header_need:
  "diff \<ge> 14 \<Longrightarrow> frame_header g diff \<noteq> Header_incomplete"
  by (simp add: frame_header_def Let_def)


subsection \<open>The protocol on the byte stream\<close>

text \<open>The connection without its input buffer, and the bytes the buffer holds.\<close>

definition core :: "ws_socket \<Rightarrow> ws_socket" where
  "core sock = sock\<lparr>websocket_buffer := [], websocket_buffer_offset := 0\<rparr>"

definition pend :: "ws_socket \<Rightarrow> bytes" where
  "pend sock = take (websocket_buffer_offset sock) (websocket_buffer sock)"

datatype parse_result = Incomplete | Fails close_reason | Frame websocket_frame bytes bytes

definition parse_frame :: "bytes \<Rightarrow> parse_result" where
  "parse_frame p =
     (case frame_header (bget p) (length p) of
        Header_incomplete \<Rightarrow> Incomplete
      | Header_fails r \<Rightarrow> Fails r
      | Header w e \<Rightarrow>
          if real_length w > WEBSOCKET_MAX_INBUFFER_SIZE then Fails Close_too_big
          else if length p < 2 + e + real_length w then Incomplete
          else Frame w (unmask (mask_key w) 0 (take (real_length w) (drop (2 + e) p)))
                 (drop (2 + e + real_length w) p))"

lemma parse_frame_shorter: "parse_frame p = Frame w d r \<Longrightarrow> length r < length p"
  by (auto simp: parse_frame_def split: header_result.splits if_splits dest!: frame_header_extra)

lemma parse_frame_rest: "parse_frame p = Frame w d r \<Longrightarrow> \<exists>k. r = drop k p"
  by (auto simp: parse_frame_def split: header_result.splits if_splits)

definition step_core :: "frame_step \<Rightarrow> ws_socket + (ws_socket \<times> int)" where
  "step_core st = (case st of Next s off \<Rightarrow> Inl s | Recopy s n \<Rightarrow> Inl s | Read_more s \<Rightarrow> Inl s
     | Return s ret \<Rightarrow> Inr (s, ret) | Close_with s r \<Rightarrow> Inr (close_socket s r, - 1))"

function protocol :: "ws_env \<Rightarrow> ws_socket \<Rightarrow> bytes \<Rightarrow> (ws_socket \<times> bytes) + (ws_socket \<times> int)" where
  "protocol env st p =
     (case parse_frame p of
        Incomplete \<Rightarrow> Inl (st, p)
      | Fails r \<Rightarrow> Inr (close_socket st r, - 1)
      | Frame w d rest \<Rightarrow>
          (case step_core (dispatch_frame env w d 0 st) of
             Inl st' \<Rightarrow> protocol env st' rest
           | Inr x \<Rightarrow> Inr x))"
  by pat_completeness auto
termination
  by (relation "measure (\<lambda>(env, st, p). length p)") (auto dest: parse_frame_shorter)

declare protocol.simps [simp del]

lemma bget_append: "i < length p \<Longrightarrow> bget (p @ q) i = bget p i"
  by (simp add: bget_def nth_append)

lemma parse_frame_append:
  assumes "parse_frame p \<noteq> Incomplete"
  shows "parse_frame (p @ q) = (case parse_frame p of Frame w d r \<Rightarrow> Frame w d (r @ q) | x \<Rightarrow> x)"
proof -
  have ni: "frame_header (bget p) (length p) \<noteq> Header_incomplete"
    using assms by (auto simp: parse_frame_def)
  have c: "frame_header (bget (p @ q)) (length p) = frame_header (bget p) (length p)"
    by (rule frame_header_cong) (simp add: bget_append)
  then have h: "frame_header (bget (p @ q)) (length (p @ q)) = frame_header (bget p) (length p)"
    using ni by (subst frame_header_mono [of _ "length p"]) simp_all
  show ?thesis
    using assms unfolding parse_frame_def h
    by (auto split: header_result.splits if_splits)
qed

lemma protocol_append:
  "protocol env st (p @ q) =
     (case protocol env st p of Inl (st', r) \<Rightarrow> protocol env st' (r @ q) | Inr x \<Rightarrow> Inr x)"
proof (induction env st p rule: protocol.induct)
  case (1 env st p)
  show ?case
  proof (cases "parse_frame p")
    case Incomplete
    then show ?thesis by (simp add: protocol.simps [of env st p])
  next
    case (Fails r)
    then have "parse_frame (p @ q) = Fails r" using parse_frame_append [of p q] by simp
    then show ?thesis using Fails by (simp add: protocol.simps [of env st])
  next
    case (Frame w d r)
    then have "parse_frame (p @ q) = Frame w d (r @ q)" using parse_frame_append [of p q] by simp
    then show ?thesis using Frame 1 [OF Frame] by (simp add: protocol.simps [of env st] split: sum.splits)
  qed
qed

lemma protocol_stable: "protocol env st p = Inl (st', r) \<Longrightarrow> parse_frame r = Incomplete"
proof (induction env st p rule: protocol.induct)
  case (1 env st p)
  then show ?case
    by (subst (asm) protocol.simps) (auto split: parse_result.splits sum.splits)
qed

lemma incomplete_short: "parse_frame p = Incomplete \<Longrightarrow> length p < 65014"
proof (rule ccontr)
  assume i: "parse_frame p = Incomplete" and "\<not> length p < 65014"
  then obtain w e where "frame_header (bget p) (length p) = Header w e"
    "\<not> real_length w > WEBSOCKET_MAX_INBUFFER_SIZE" "length p < 2 + e + real_length w"
    using frame_header_need [of "length p" "bget p"]
    by (auto simp: parse_frame_def split: header_result.splits if_splits)
  then show False using frame_header_extra [of "bget p" "length p" w e] \<open>\<not> length p < 65014\<close>
    by (simp add: WEBSOCKET_MAX_INBUFFER_SIZE_def)
qed

subsection \<open>The receive loops follow the protocol\<close>

definition with_buf :: "bytes \<Rightarrow> nat \<Rightarrow> ws_socket \<Rightarrow> ws_socket" where
  "with_buf b n sock = sock\<lparr>websocket_buffer := b, websocket_buffer_offset := n\<rparr>"

definition map_step :: "(ws_socket \<Rightarrow> ws_socket) \<Rightarrow> frame_step \<Rightarrow> frame_step" where
  "map_step f st = (case st of Next s off \<Rightarrow> Next (f s) off | Recopy s n \<Rightarrow> Recopy (f s) n
     | Read_more s \<Rightarrow> Read_more (f s) | Return s ret \<Rightarrow> Return (f s) ret | Close_with s r \<Rightarrow> Close_with (f s) r)"

lemma map_step_simps [simp]:
  "map_step f (Next s off) = Next (f s) off" "map_step f (Recopy s n) = Recopy (f s) n"
  "map_step f (Read_more s) = Read_more (f s)" "map_step f (Return s ret) = Return (f s) ret"
  "map_step f (Close_with s r) = Close_with (f s) r"
  by (simp_all add: map_step_def)

lemma map_step_if: "map_step f (if c then x else y) = (if c then map_step f x else map_step f y)"
  by simp

lemma with_buf_fields [simp]:
  "websocket_streaming_active (with_buf b n s) = websocket_streaming_active s"
  "websocket_stream_fragmented (with_buf b n s) = websocket_stream_fragmented s"
  "websocket_fragment_start_opcode (with_buf b n s) = websocket_fragment_start_opcode s"
  "websocket_fragments_length (with_buf b n s) = websocket_fragments_length s"
  "websocket_fragment_count (with_buf b n s) = websocket_fragment_count s"
  "websocket_fragments (with_buf b n s) = websocket_fragments s"
  "websocket_buffer (with_buf b n s) = b" "websocket_buffer_offset (with_buf b n s) = n"
  "closeSocket (with_buf b n s) = closeSocket s" "input_queue (with_buf b n s) = input_queue s"
  "output_queue (with_buf b n s) = output_queue s"
  by (simp_all add: with_buf_def)

lemma with_buf_updates:
  "(with_buf b n s)\<lparr>websocket_fragments := x\<rparr> = with_buf b n (s\<lparr>websocket_fragments := x\<rparr>)"
  "(with_buf b n s)\<lparr>websocket_fragment_start_opcode := op\<rparr> = with_buf b n (s\<lparr>websocket_fragment_start_opcode := op\<rparr>)"
  "(with_buf b n s)\<lparr>websocket_fragments_length := k\<rparr> = with_buf b n (s\<lparr>websocket_fragments_length := k\<rparr>)"
  "(with_buf b n s)\<lparr>websocket_fragment_count := k\<rparr> = with_buf b n (s\<lparr>websocket_fragment_count := k\<rparr>)"
  "(with_buf b n s)\<lparr>closeSocket := c\<rparr> = with_buf b n (s\<lparr>closeSocket := c\<rparr>)"
  "(with_buf b n s)\<lparr>input_queue := q\<rparr> = with_buf b n (s\<lparr>input_queue := q\<rparr>)"
  "(with_buf b n s)\<lparr>output_queue := oq\<rparr> = with_buf b n (s\<lparr>output_queue := oq\<rparr>)"
  by (simp_all add: with_buf_def)

lemma queue_with_buf: "queue_message bin m (with_buf b n s) = with_buf b n (queue_message bin m s)"
  by (simp add: queue_message_def with_buf_updates)

lemma send_with_buf: "sendWebsocketFrame op d (with_buf b n s) = with_buf b n (sendWebsocketFrame op d s)"
  by (simp add: sendWebsocketFrame_def with_buf_updates)

lemma close_with_buf: "close_socket (with_buf b n s) r = with_buf b n (close_socket s r)"
  by (simp add: close_socket_def sendCloseFrameWithStatus_def send_with_buf with_buf_updates)

lemma data_with_buf:
  "env_handler env = None \<Longrightarrow> data_frame env w d off (with_buf b n s) = map_step (with_buf b n) (data_frame env w d off s)"
  by (simp add: data_frame_def map_step_if queue_with_buf with_buf_updates)

lemma finish_with_buf:
  "finish_fragments env off (with_buf b n s) = map_step (with_buf b n) (finish_fragments env off s)"
  by (simp add: finish_fragments_def Let_def map_step_if queue_with_buf with_buf_updates)

lemma continue_with_buf:
  "\<not> websocket_streaming_active s \<Longrightarrow>
    continue_frame env w d off (with_buf b n s) = map_step (with_buf b n) (continue_frame env w d off s)"
  by (simp add: continue_frame_def Let_def map_step_if with_buf_updates finish_with_buf if_distrib)

lemma control_with_buf:
  "control_frame w d off (with_buf b n s) = map_step (with_buf b n) (control_frame w d off s)"
  by (simp add: control_frame_def send_with_buf sendCloseFrame_def sendCloseFrameWithStatus_def with_buf_updates
      split: Opcodes.splits)

text \<open>Without a stream handler the handling of a frame does not look at the buffer.\<close>

lemma dispatch_with_buf:
  assumes "env_handler env = None" "\<not> websocket_streaming_active s"
  shows "dispatch_frame env w d off (with_buf b n s) = map_step (with_buf b n) (dispatch_frame env w d off s)"
  using assms
  by (cases "opcode w") (simp_all add: dispatch_frame_def data_with_buf continue_with_buf control_with_buf)

lemma dispatch_off:
  assumes "env_handler env = None" "\<not> websocket_streaming_active s"
  shows "dispatch_frame env w d off s =
    (case dispatch_frame env w d 0 s of Next s' off' \<Rightarrow> Next s' off | x \<Rightarrow> x)"
  using assms
  by (cases "opcode w")
    (simp_all add: dispatch_frame_def data_frame_def continue_frame_def control_frame_def finish_fragments_def Let_def)

lemma dispatch_shape:
  assumes "env_handler env = None" "\<not> websocket_streaming_active s"
  shows "(\<exists>s'. dispatch_frame env w d off s = Next s' off \<and> \<not> websocket_streaming_active s' \<and>
            (closeSocket s \<longleftrightarrow> closeSocket s')) \<or>
    (\<exists>s' ret. dispatch_frame env w d off s = Return s' ret \<and> closeSocket s') \<or>
    (\<exists>s' r. dispatch_frame env w d off s = Close_with s' r)"
  using assms
  by (cases "opcode w")
    (simp_all add: dispatch_frame_def data_frame_def continue_frame_def control_frame_def finish_fragments_def Let_def
      queue_message_def sendWebsocketFrame_def)


lemma with_buf_twice [simp]: "with_buf b n (with_buf b' n' s) = with_buf b n s"
  by (simp add: with_buf_def)

lemma with_buf_core: "with_buf (websocket_buffer s) (websocket_buffer_offset s) (core s) = s"
  by (simp add: with_buf_def core_def)

lemma core_with_buf [simp]: "core (with_buf b n s) = core s"
  by (simp add: with_buf_def core_def)

lemma core_fields [simp]: "websocket_streaming_active (core s) = websocket_streaming_active s"
  "closeSocket (core s) = closeSocket s"
  by (simp_all add: core_def)

lemma core_core [simp]: "core (core s) = core s"
  by (simp add: core_def)

lemma core_as_with_buf: "core s = with_buf [] 0 s"
  by (simp add: core_def with_buf_def)

lemma pend_with_buf [simp]: "pend (with_buf b n s) = take n b"
  by (simp add: pend_def)

lemma map_step_eq:
  "map_step f x = Next s off \<longleftrightarrow> (\<exists>s'. x = Next s' off \<and> s = f s')"
  "map_step f x = Return s ret \<longleftrightarrow> (\<exists>s'. x = Return s' ret \<and> s = f s')"
  "map_step f x = Close_with s r \<longleftrightarrow> (\<exists>s'. x = Close_with s' r \<and> s = f s')"
  by (cases x; auto)+

text \<open>One round at \<open>offset\<close> is one parse of the bytes behind it.\<close>

lemma frame_round_parse:
  fixes sock :: ws_socket and offset :: nat
  assumes h: "env_handler env = None" and o: "offset < websocket_buffer_offset sock"
    and l: "websocket_buffer_offset sock \<le> length (websocket_buffer sock)"
    and max: "WEBSOCKET_MAX_INBUFFER_SIZE \<le> length (websocket_buffer sock)"
  defines "p \<equiv> drop offset (pend sock)"
  shows "frame_round env sock offset (websocket_buffer_offset sock - offset) =
    (case parse_frame p of Incomplete \<Rightarrow> Recopy sock offset | Fails r \<Rightarrow> Close_with sock r
     | Frame w d rest \<Rightarrow> dispatch_frame env w d (websocket_buffer_offset sock - length rest) sock)"
proof -
  let ?diff = "websocket_buffer_offset sock - offset"
  have lp: "length p = ?diff" using l by (simp add: p_def pend_def)
  have "frame_header (\<lambda>i. bget (websocket_buffer sock) (offset + i)) ?diff = frame_header (bget p) ?diff"
  proof (rule frame_header_cong)
    fix i assume "i < ?diff"
    then have "offset + i < length (websocket_buffer sock)" "i < ?diff" using l by simp_all
    then show "bget (websocket_buffer sock) (offset + i) = bget p i"
      using l o by (simp add: p_def pend_def bget_def)
  qed
  note hdr = this [folded lp]
  show ?thesis
  proof (cases "frame_header (bget p) (length p)")
    case (Header w e)
    have e: "2 + e \<le> length p" using frame_header_extra [OF Header] by simp
    show ?thesis
    proof (cases "real_length w > WEBSOCKET_MAX_INBUFFER_SIZE \<or> length p < 2 + e + real_length w")
      case True
      then show ?thesis using hdr Header h max
        by (auto simp: frame_round_def parse_frame_def lp [symmetric] Let_def)
    next
      case False
      then have m: "min (real_length w) (websocket_buffer_offset sock - (offset + 2 + e)) = real_length w"
        using lp by (intro min_absorb1) linarith
      have "take (real_length w) (drop (offset + 2 + e) (websocket_buffer sock)) =
          take (real_length w) (drop (2 + e) p)"
        unfolding p_def pend_def drop_drop drop_take take_take
        using m by (simp add: add.commute add.left_commute)
      moreover have "websocket_buffer_offset sock - length (drop (2 + e + real_length w) p) =
          offset + 2 + e + real_length w"
        using False lp o by (simp only: length_drop) linarith
      ultimately show ?thesis using hdr Header h False
        by (simp add: frame_round_def parse_frame_def lp [symmetric] Let_def)
    qed
  qed (use hdr in \<open>simp_all add: frame_round_def parse_frame_def lp [symmetric]\<close>)
qed

lemma recopy_pend:
  assumes "offset \<le> websocket_buffer_offset sock" "websocket_buffer_offset sock \<le> length (websocket_buffer sock)"
  shows "\<exists>b n. recopy_buffer sock offset = with_buf b n sock \<and> length b = length (websocket_buffer sock) \<and>
    n \<le> length b \<and> take n b = drop offset (pend sock)"
proof (cases "offset > 0")
  case True
  let ?d = "websocket_buffer_offset sock - offset"
  let ?b = "take ?d (drop offset (websocket_buffer sock)) @ drop ?d (websocket_buffer sock)"
  have "recopy_buffer sock offset = with_buf ?b ?d sock" using True by (simp add: recopy_buffer_def with_buf_def Let_def)
  moreover have "length ?b = length (websocket_buffer sock)" "?d \<le> length ?b" using assms by simp_all
  moreover have "take ?d ?b = drop offset (pend sock)" using assms by (simp add: pend_def drop_take)
  ultimately show ?thesis by blast
next
  case False
  then have "recopy_buffer sock offset = with_buf (websocket_buffer sock) (websocket_buffer_offset sock) sock"
    by (simp add: recopy_buffer_def with_buf_def)
  then show ?thesis using assms False by (auto simp: pend_def)
qed

lemma dispatch_core:
  assumes "env_handler env = None" "\<not> websocket_streaming_active s" "core s = s"
    "dispatch_frame env w d off s = Next s' off'"
  shows "core s' = s'"
proof -
  have "dispatch_frame env w d off (with_buf [] 0 s) = map_step (with_buf [] 0) (Next s' off')"
    using dispatch_with_buf [OF assms(1,2)] assms(4) by simp
  moreover have "with_buf [] 0 s = s" using assms(3) by (simp add: core_as_with_buf)
  ultimately show ?thesis using assms(4) by (simp add: core_as_with_buf)
qed

lemma protocol_keeps:
  assumes "env_handler env = None"
  shows "\<not> websocket_streaming_active s \<Longrightarrow> core s = s \<Longrightarrow> protocol env s p = Inl (s', r) \<Longrightarrow>
    \<not> websocket_streaming_active s' \<and> core s' = s' \<and> closeSocket s' = closeSocket s"
  using assms
proof (induction env s p rule: protocol.induct)
  case (1 env s p)
  show ?case
  proof (cases "parse_frame p")
    case (Frame w d rest)
    with 1(4) obtain t where t: "step_core (dispatch_frame env w d 0 s) = Inl t" "protocol env t rest = Inl (s', r)"
      by (subst (asm) protocol.simps) (auto split: sum.splits)
    with dispatch_shape [OF 1(5,2), of w d 0] have n: "dispatch_frame env w d 0 s = Next t 0"
        "\<not> websocket_streaming_active t" "closeSocket t = closeSocket s"
      by (auto simp: step_core_def)
    then show ?thesis using 1(1) [OF Frame t(1)] dispatch_core [OF 1(5,2,3) n(1)] t(2) 1(5) by simp
  qed (use 1(2,3,4) in \<open>simp_all add: protocol.simps [of env s]\<close>)
qed

definition follows :: "nat \<Rightarrow> loop_result option \<Rightarrow> (ws_socket \<times> bytes) + (ws_socket \<times> int) \<Rightarrow> bool" where
  "follows L r spec \<longleftrightarrow> (case spec of
     Inl (st, rest) \<Rightarrow> \<exists>b n. r = Some (Want_data (with_buf b n st)) \<and> length b = L \<and> n \<le> L \<and> take n b = rest
   | Inr (st, ret) \<Rightarrow> \<exists>b n. r = Some (Finished (with_buf b n st) ret))"

lemma frame_loop_protocol:
  assumes h: "env_handler env = None" and "\<not> websocket_streaming_active sock"
    and "offset < websocket_buffer_offset sock"
    and "websocket_buffer_offset sock \<le> length (websocket_buffer sock)"
    and "WEBSOCKET_MAX_INBUFFER_SIZE \<le> length (websocket_buffer sock)"
  shows "follows (length (websocket_buffer sock)) (frame_loop env sock offset diff)
    (protocol env (core sock) (drop offset (pend sock)))"
  using assms(2-)
proof (induction "websocket_buffer_offset sock - offset" arbitrary: sock offset diff rule: less_induct)
  case less
  note o = less.prems(2) and l = less.prems(3)
  let ?p = "drop offset (pend sock)" and ?B = "websocket_buffer sock" and ?N = "websocket_buffer_offset sock"
  have "frame_diff sock offset diff = ?N - offset" using o by (simp add: frame_diff_def)
  note loop = frame_loop.simps [of env sock offset diff, unfolded this Let_def frame_round_parse [OF h less.prems(2-)]]
  have ws: "with_buf ?B ?N (core sock) = sock" by (rule with_buf_core)
  show ?case
  proof (cases "parse_frame ?p")
    case Incomplete
    obtain b n where "recopy_buffer sock offset = with_buf b n sock" "length b = length ?B" "n \<le> length b" "take n b = ?p"
      using recopy_pend [of offset sock] o l by auto
    moreover have "with_buf b n sock = with_buf b n (core sock)" by (simp add: core_as_with_buf)
    ultimately show ?thesis using Incomplete loop
      by (auto simp: follows_def protocol.simps)
  next
    case (Fails r)
    then show ?thesis using loop close_with_buf [of ?B ?N "core sock" r] ws
      by (auto simp: follows_def protocol.simps)
  next
    case (Frame w d rest)
    have lr: "length rest < length ?p" by (rule parse_frame_shorter [OF Frame])
    have lp: "length ?p = ?N - offset" using l by (simp add: pend_def)
    have rest: "rest = drop (?N - length rest) (pend sock)"
    proof -
      obtain k where "rest = drop k ?p" using parse_frame_rest [OF Frame] by blast
      then have k: "rest = drop (offset + k) (pend sock)" by (simp add: add.commute)
      then have "length rest = ?N - (offset + k)" using l by (simp add: pend_def)
      then show ?thesis using k l
        by (cases "offset + k \<le> ?N") (auto simp: pend_def)
    qed
    let ?off = "?N - length rest"
    have disp: "dispatch_frame env w d ?off sock =
        map_step (with_buf ?B ?N) (dispatch_frame env w d ?off (core sock))"
      using dispatch_with_buf [OF h, of "core sock" w d ?off ?B ?N] less.prems(1) ws by simp
    have d0: "dispatch_frame env w d ?off (core sock) =
        (case dispatch_frame env w d 0 (core sock) of Next s' off' \<Rightarrow> Next s' ?off | x \<Rightarrow> x)"
      using dispatch_off [OF h] less.prems(1) by simp
    from dispatch_shape [OF h, of "core sock" w d 0] less.prems(1)
    consider (go) s' where "dispatch_frame env w d 0 (core sock) = Next s' 0" "\<not> websocket_streaming_active s'"
      | (ret) s' r where "dispatch_frame env w d 0 (core sock) = Return s' r"
      | (close) s' r where "dispatch_frame env w d 0 (core sock) = Close_with s' r" by auto
    then show ?thesis
    proof cases
      case go
      let ?s = "with_buf ?B ?N s'"
      have proto: "protocol env (core sock) ?p = protocol env s' rest"
        by (subst protocol.simps) (simp add: Frame go step_core_def)
      have s'c: "core s' = s'"
        using dispatch_core [OF h, of "core sock"] go less.prems(1) by simp
      have step: "frame_loop env sock offset diff = (if ?off = ?N
          then Some (Want_data (?s\<lparr>websocket_buffer_offset := 0\<rparr>)) else frame_loop env ?s ?off (?N - offset))"
        using loop by (simp add: Frame disp d0 go)
      show ?thesis
      proof (cases "rest = []")
        case True
        have "parse_frame [] = Incomplete" by (simp add: parse_frame_def frame_header_def)
        then have "protocol env s' rest = Inl (s', [])" using True by (subst protocol.simps) simp
        moreover have "?s\<lparr>websocket_buffer_offset := 0\<rparr> = with_buf ?B 0 s'" by (simp add: with_buf_def)
        ultimately show ?thesis using step True proto
          by (auto simp: follows_def)
      next
        case False
        then have off: "?off < ?N" "offset < ?off" using lr lp o by (cases rest; simp)+
        have "follows (length ?B) (frame_loop env ?s ?off (?N - offset)) (protocol env (core ?s) (drop ?off (pend ?s)))"
          using less.hyps [of ?s ?off "?N - offset"] off go(2) l less.prems(4) by simp
        moreover have "drop ?off (pend ?s) = rest" using rest by (simp add: pend_def)
        ultimately show ?thesis using step off proto s'c by simp
      qed
    next
      case (ret s' r)
      then have "protocol env (core sock) ?p = Inr (s', r)"
        by (subst protocol.simps) (simp add: Frame step_core_def)
      then show ?thesis using loop by (auto simp: Frame disp d0 ret follows_def)
    next
      case (close s' r)
      then have "protocol env (core sock) ?p = Inr (close_socket s' r, - 1)"
        by (subst protocol.simps) (simp add: Frame step_core_def)
      then show ?thesis using loop by (auto simp: Frame disp d0 close follows_def close_with_buf)
    qed
  qed
qed


definition ws_ready :: "ws_socket \<Rightarrow> bool" where
  "ws_ready sock \<longleftrightarrow> 65014 \<le> length (websocket_buffer sock) \<and>
     websocket_buffer_offset sock \<le> length (websocket_buffer sock) \<and>
     \<not> websocket_streaming_active sock \<and> parse_frame (pend sock) = Incomplete"

lemma receive_loop_protocol:
  assumes h: "env_handler env = None" and "ws_ready sock"
  shows "case protocol env (core sock) (pend sock @ avail) of
     Inl (st, r) \<Rightarrow> \<exists>b n. receive_loop env sock avail = Some (with_buf b n st, 0, []) \<and>
        length b = length (websocket_buffer sock) \<and> n \<le> length b \<and> take n b = r
   | Inr (st, ret) \<Rightarrow> \<exists>b n unread. receive_loop env sock avail = Some (with_buf b n st, ret, unread)"
  using assms(2)
proof (induction "length avail" arbitrary: sock avail rule: less_induct)
  case less
  let ?B = "websocket_buffer sock" and ?N = "websocket_buffer_offset sock"
  have r: "65014 \<le> length ?B" "?N \<le> length ?B" "\<not> websocket_streaming_active sock"
      "parse_frame (pend sock) = Incomplete"
    using less.prems by (simp_all add: ws_ready_def)
  have ws: "with_buf ?B ?N (core sock) = sock" by (rule with_buf_core)
  have lp: "length (pend sock) = ?N" using r(2) by (simp add: pend_def)
  show ?case
  proof (cases "avail = []")
    case True
    have "receive_loop env sock avail = Some (sock, 0, [])"
      using True by (subst receive_loop.simps) simp
    moreover have "protocol env (core sock) (pend sock @ avail) = Inl (core sock, pend sock)"
      using True r(4) by (subst protocol.simps) simp
    ultimately show ?thesis using ws r(2) by (auto simp: pend_def intro!: exI [of _ ?B] exI [of _ ?N])
  next
    case False
    define m where "m = length ?B - ?N"
    have m: "0 < m" using incomplete_short [OF r(4)] lp r(1) by (simp add: m_def)
    let ?data = "take m avail"
    define s1 where "s1 = with_buf (take ?N ?B @ ?data @ drop (?N + length ?data) ?B) (?N + length ?data) sock"
    have d: "?data \<noteq> []" "length ?data \<le> m" using False m by simp_all
    then have N1: "?N + length ?data \<le> length ?B" using r(2) by (simp add: m_def)
    have s1: "length (websocket_buffer s1) = length ?B" "websocket_buffer_offset s1 = ?N + length ?data"
        "pend s1 = pend sock @ ?data" "core s1 = core sock" "\<not> websocket_streaming_active s1"
      using r(2,3) N1 by (simp_all add: s1_def) (simp add: pend_def min_def)
    have step: "receive_loop env sock avail = Option.bind (frame_loop env s1 0 0) (\<lambda>r.
                case r of Want_data sock \<Rightarrow> receive_loop env sock (drop m avail)
                | Finished sock ret \<Rightarrow> Some (sock, ret, drop m avail))"
      using d(1) by (subst receive_loop.simps) (simp add: Let_def m_def [symmetric] s1_def with_buf_def)
    have f: "follows (length ?B) (frame_loop env s1 0 0) (protocol env (core sock) (pend sock @ ?data))"
      using frame_loop_protocol [OF h s1(5), of 0 0] s1 N1 d(1) r(1)
      by (simp add: WEBSOCKET_MAX_INBUFFER_SIZE_def)
    have split: "protocol env (core sock) (pend sock @ avail) =
        (case protocol env (core sock) (pend sock @ ?data) of
           Inl (st, p) \<Rightarrow> protocol env st (p @ drop m avail) | Inr x \<Rightarrow> Inr x)"
      using protocol_append [of env "core sock" "pend sock @ ?data" "drop m avail"] by simp
    show ?thesis
    proof (cases "protocol env (core sock) (pend sock @ ?data)")
      case (Inl x)
      obtain st p where x: "x = (st, p)" by (cases x)
      from f Inl x obtain b n where b: "frame_loop env s1 0 0 = Some (Want_data (with_buf b n st))"
          "length b = length ?B" "n \<le> length ?B" "take n b = p"
        by (auto simp: follows_def)
      have k: "\<not> websocket_streaming_active st" "core st = st" "parse_frame p = Incomplete"
        using protocol_keeps [OF h, of "core sock"] protocol_stable [of env "core sock"] Inl x r(3) by auto
      have "ws_ready (with_buf b n st)" using b k r(1) by (simp add: ws_ready_def)
      with less.hyps [of "drop m avail" "with_buf b n st"] False m
      have "case protocol env st (p @ drop m avail) of
         Inl (st', r) \<Rightarrow> \<exists>b' n'. receive_loop env (with_buf b n st) (drop m avail) = Some (with_buf b' n' st', 0, []) \<and>
            length b' = length b \<and> n' \<le> length b' \<and> take n' b' = r
       | Inr (st', ret) \<Rightarrow> \<exists>b' n' unread. receive_loop env (with_buf b n st) (drop m avail) = Some (with_buf b' n' st', ret, unread)"
        using b k by (simp split: sum.splits prod.splits)
      then show ?thesis using step b Inl x split by (simp split: sum.splits prod.splits)
    next
      case (Inr x)
      obtain st ret where x: "x = (st, ret)" by (cases x)
      with f Inr obtain b n where "frame_loop env s1 0 0 = Some (Finished (with_buf b n st) ret)"
        by (auto simp: follows_def)
      then show ?thesis using step split Inr x by auto
    qed
  qed
qed


subsection \<open>The receiver as an incremental consumer\<close>

definition no_stream :: "ws_env \<Rightarrow> ws_env" where
  "no_stream env = env\<lparr>env_handler := None\<rparr>"

definition ws_feed :: "ws_env \<Rightarrow> ws_socket \<Rightarrow> bytes \<Rightarrow> ws_socket" where
  "ws_feed env sock avail =
     (if closeSocket sock then sock else fst (the (recFrameV8 (no_stream env) sock avail)))"

definition ws_inv :: "ws_socket \<Rightarrow> bool" where
  "ws_inv sock \<longleftrightarrow> closeSocket sock \<or> ws_ready sock"

definition ws_obs :: "ws_socket \<Rightarrow> ws_socket \<times> bytes" where
  "ws_obs sock = (core sock, if closeSocket sock then [] else pend sock)"

definition ws_spec :: "ws_env \<Rightarrow> ws_socket \<times> bytes \<Rightarrow> bytes \<Rightarrow> ws_socket \<times> bytes" where
  "ws_spec env = (\<lambda>(st, p) a.
     if closeSocket st then (st, p)
     else case protocol (no_stream env) st (p @ a) of Inl (st', r) \<Rightarrow> (st', r) | Inr (st', ret) \<Rightarrow> (core st', []))"

lemma protocol_closes:
  assumes "env_handler env = None"
  shows "\<not> websocket_streaming_active s \<Longrightarrow> protocol env s p = Inr (s', ret) \<Longrightarrow> closeSocket s'"
  using assms
proof (induction env s p rule: protocol.induct)
  case (1 env s p)
  show ?case
  proof (cases "parse_frame p")
    case (Fails r)
    then show ?thesis using 1(3) by (auto simp: protocol.simps [of env s p] close_socket_def)
  next
    case (Frame w d rest)
    show ?thesis
    proof (cases "step_core (dispatch_frame env w d 0 s)")
      case (Inl t)
      then have "\<not> websocket_streaming_active t"
        using dispatch_shape [OF 1(4,2), of w d 0] by (auto simp: step_core_def)
      moreover have "protocol env t rest = Inr (s', ret)"
        using 1(3) Inl Frame by (simp add: protocol.simps [of env s p])
      ultimately show ?thesis using 1(1) [OF Frame Inl _ _ 1(4)] by blast
    next
      case (Inr x)
      then have "x = (s', ret)" using 1(3) Frame by (simp add: protocol.simps [of env s p])
      with Inr dispatch_shape [OF 1(4,2), of w d 0] show ?thesis
        by (auto simp: step_core_def close_socket_def)
    qed
  qed (use 1(3) in \<open>simp add: protocol.simps [of env s p]\<close>)
qed

lemma no_stream_handler [simp]: "env_handler (no_stream env) = None"
  by (simp add: no_stream_def)

lemma ws_feed_spec:
  assumes "ws_inv s"
  shows "ws_obs (ws_feed env s a) = ws_spec env (ws_obs s) a \<and> ws_inv (ws_feed env s a)"
proof (cases "closeSocket s")
  case True
  then show ?thesis by (simp add: ws_feed_def ws_spec_def ws_obs_def ws_inv_def)
next
  case open_s: False
  then have r: "ws_ready s" using assms by (simp add: ws_inv_def)
  let ?P = "protocol (no_stream env) (core s) (pend s @ a)"
  have ns: "\<not> websocket_streaming_active s" using r by (simp add: ws_ready_def)
  have rec: "recFrameV8 (no_stream env) s a = receive_loop (no_stream env) s a"
    using ns by (simp add: recFrameV8_def)
  note loop = receive_loop_protocol [OF no_stream_handler r, of env a]
  show ?thesis
  proof (cases ?P)
    case (Inl x)
    obtain st p where x: "x = (st, p)" by (cases x)
    from loop Inl x obtain b n where b: "receive_loop (no_stream env) s a = Some (with_buf b n st, 0, [])"
        "length b = length (websocket_buffer s)" "n \<le> length b" "take n b = p" by auto
    have k: "\<not> websocket_streaming_active st" "core st = st" "\<not> closeSocket st" "parse_frame p = Incomplete"
      using protocol_keeps [OF no_stream_handler, of "core s" env] protocol_stable [of "no_stream env" "core s"]
        Inl x ns open_s by auto
    show ?thesis
      using b k r open_s Inl x rec
      by (simp add: ws_feed_def ws_obs_def ws_inv_def ws_spec_def ws_ready_def)
  next
    case (Inr x)
    obtain st ret where x: "x = (st, ret)" by (cases x)
    from loop Inr x obtain b n u where b: "receive_loop (no_stream env) s a = Some (with_buf b n st, ret, u)" by auto
    have "closeSocket st" using protocol_closes [OF no_stream_handler, of "core s" env] Inr x ns by auto
    then show ?thesis
      using b open_s Inr x rec by (simp add: ws_feed_def ws_obs_def ws_inv_def ws_spec_def)
  qed
qed

lemma ws_obs_ready:
  "ws_inv s \<Longrightarrow> ws_obs s = (st, p) \<Longrightarrow> core st = st \<and> (closeSocket st \<or> parse_frame p = Incomplete \<and> \<not> websocket_streaming_active st)"
  by (auto simp: ws_obs_def ws_inv_def ws_ready_def split: if_splits)

lemma ws_spec_append:
  assumes "\<not> websocket_streaming_active st" "core st = st"
  shows "ws_spec env (ws_spec env (st, p) a) b = ws_spec env (st, p) (a @ b)"
proof (cases "closeSocket st")
  case False
  have ap: "protocol (no_stream env) st (p @ a @ b) = (case protocol (no_stream env) st (p @ a) of
      Inl (st', r) \<Rightarrow> protocol (no_stream env) st' (r @ b) | Inr x \<Rightarrow> Inr x)"
    using protocol_append [of "no_stream env" st "p @ a" b] by simp
  show ?thesis
  proof (cases "protocol (no_stream env) st (p @ a)")
    case (Inl x)
    then show ?thesis
      using ap False protocol_keeps [OF no_stream_handler assms, of env "p @ a"]
      by (cases x) (simp add: ws_spec_def)
  next
    case (Inr x)
    then show ?thesis
      using ap False protocol_closes [OF no_stream_handler assms(1), of env "p @ a"]
      by (cases x) (simp add: ws_spec_def)
  qed
qed (simp add: ws_spec_def)

interpretation ws: chunked "ws_feed env" ws_inv "\<lambda>_. True" ws_obs for env
proof (standard, goal_cases)
  case (1 s)
  obtain st p where o: "ws_obs s = (st, p)" by fastforce
  have "ws_spec env (st, p) [] = (st, p)"
    using ws_obs_ready [OF 1 o] by (auto simp: ws_spec_def protocol.simps)
  with ws_feed_spec [OF 1, of env "[]"] o show ?case by simp
next
  case (2 s a b)
  obtain st p where o: "ws_obs s = (st, p)" by fastforce
  show ?case
  proof (cases "closeSocket s")
    case True
    then show ?thesis by (simp add: ws_feed_def)
  next
    case False
    then have "\<not> websocket_streaming_active st" "core st = st"
      using 2(1) o by (auto simp: ws_obs_def ws_inv_def ws_ready_def)
    from ws_spec_append [OF this, of env p a b] show ?thesis
      using ws_feed_spec [OF 2(1), of env a] ws_feed_spec [OF 2(1), of env "a @ b"]
        ws_feed_spec [of "ws_feed env s a" env b] o by simp
  qed
next
  case (3 s t a)
  then show ?case using ws_feed_spec [of s env a] ws_feed_spec [of t env a] by simp
next
  case (4 s a)
  then show ?case using ws_feed_spec [of s env a] by blast
qed simp


subsection \<open>Frames as a client sends them (RFC 6455)\<close>

record client_frame =
  cf_fin :: bool
  cf_opcode :: Opcodes
  cf_key :: bytes
  cf_payload :: bytes

definition client_bytes :: "client_frame \<Rightarrow> bytes" where
  "client_bytes f =
     (let n = length (cf_payload f); b0 = (if cf_fin f then 0x80 else 0) + opcode_value (cf_opcode f) in
      (if n < 126 then [b0, 0x80 + of_nat n]
       else if n < 65536 then [b0, 0x80 + 126, len_byte n 8, len_byte n 0]
       else [b0, 0x80 + 127, 0, 0, 0, 0, len_byte n 24, len_byte n 16, len_byte n 8, len_byte n 0])
      @ cf_key f @ unmask (cf_key f) 0 (cf_payload f))"

definition client_wf :: "client_frame \<Rightarrow> bool" where
  "client_wf f \<longleftrightarrow> length (cf_key f) = 4 \<and> length (cf_payload f) \<le> WEBSOCKET_MAX_INBUFFER_SIZE \<and>
     (case cf_opcode f of WSF_RESERVED n \<Rightarrow> False | _ \<Rightarrow> True)"

definition client_parsed :: "client_frame \<Rightarrow> websocket_frame" where
  "client_parsed f = \<lparr>fin = cf_fin f, opcode = cf_opcode f,
     playload_length = (if length (cf_payload f) < 126 then length (cf_payload f) else 126),
     real_length = length (cf_payload f), mask_key = cf_key f\<rparr>"

lemma length_unmask [simp]: "length (unmask key k d) = length d"
  by (simp add: unmask_def)

lemma xor_twice: "(a XOR b) XOR b = (a :: u8)"
  by (simp add: xor.assoc)

lemma unmask_unmask: "unmask key k (unmask key k d) = d"
  by (rule nth_equalityI) (simp_all add: unmask_def xor_twice)

lemma and128: "(x AND 0x80 :: u8) = 0 \<longleftrightarrow> unat x < 128"
proof -
  have p: "(0x80 :: u8) = 2 ^ 7" by simp
  have m: "bit (0x80 :: u8) n \<longleftrightarrow> n = 7" for n
    unfolding p bit_exp_iff by (auto simp: possible_bit_word)
  have "x AND 0x80 = (if bit x 7 then 0x80 else 0)"
  proof (rule bit_word_eqI)
    fix n
    show "bit (x AND 0x80) n = bit (if bit x 7 then 0x80 else 0 :: u8) n"
      unfolding bit_and_iff m by (cases "bit x 7"; cases "n = 7") (simp_all only: m if_True if_False bit_0_eq simp_thms bot_apply bot_bool_def not_False_eq_True)
  qed
  moreover have "bit x 7 \<longleftrightarrow> odd (unat x div 128)"
  proof -
    have "bit x 7 \<longleftrightarrow> bit (unat x) 7" by (simp add: bit_unsigned_iff)
    then show ?thesis by (simp add: bit_iff_odd [of "unat x"])
  qed
  moreover have "odd (unat x div 128) \<longleftrightarrow> \<not> unat x < 128"
  proof (cases "unat x < 128")
    case False
    then have "unat x div 128 = 1" using unat_u8_less [of x] by (simp add: div_nat_eqI)
    then show ?thesis using False by simp
  qed simp
  ultimately show ?thesis by simp
qed

lemma unat_and127: "unat (x AND 0x7F :: u8) = unat x mod 128"
proof -
  have "x AND 0x7F = take_bit 7 x" by (simp add: take_bit_eq_mask mask_numeral)
  then show ?thesis by (simp only: unsigned_take_bit_eq) (simp add: take_bit_eq_mod)
qed

lemma unat_second_byte: "n < 128 \<Longrightarrow> unat (0x80 + of_nat n :: u8) = 128 + n"
  by (simp add: unat_word_ariths unat_of_nat)

lemma first_byte:
  fixes f :: bool
  assumes "case op of WSF_RESERVED n \<Rightarrow> False | _ \<Rightarrow> True"
  defines "b \<equiv> (if f then 0x80 else 0) + opcode_value op :: u8"
  shows "b AND 0x70 = 0" "(b AND 0x80 \<noteq> 0) = f" "opcode_of (b AND 0x0F) = op"
  using assms(1) by (cases op; cases f; simp add: b_def opcode_value_def opcode_of_def)+

lemma unat_len_byte: "unat (len_byte n sh) = n div 2 ^ sh mod 256"
  by (simp add: len_byte_def unat_of_nat)

lemma bget_Cons [simp]: "bget (x # xs) 0 = x" "bget (x # xs) (Suc i) = bget xs i"
    "bget (x # xs) (numeral k) = bget xs (pred_numeral k)"
  by (simp_all add: bget_def numeral_eq_Suc)

lemma client_header:
  assumes "client_wf f"
  shows "frame_header (bget (client_bytes f @ q)) (length (client_bytes f @ q)) =
    Header (client_parsed f) (length (client_bytes f) - 2 - length (cf_payload f))"
proof -
  let ?n = "length (cf_payload f)"
  obtain k0 k1 k2 k3 where k: "cf_key f = [k0, k1, k2, k3]"
    using assms by (auto simp: client_wf_def length_Suc_conv numeral_eq_Suc)
  have n: "?n < 65536" using assms by (simp add: client_wf_def WEBSOCKET_MAX_INBUFFER_SIZE_def)
  define b0 where "b0 = (if cf_fin f then 0x80 else 0) + opcode_value (cf_opcode f)"
  have op: "case cf_opcode f of WSF_RESERVED n \<Rightarrow> False | _ \<Rightarrow> True" using assms by (simp add: client_wf_def)
  note b = first_byte [OF op, of "cf_fin f", folded b0_def]
  show ?thesis
  proof (cases "?n < 126")
    case True
    have c: "client_bytes f = b0 # (0x80 + of_nat ?n) # k0 # k1 # k2 # k3 # unmask (cf_key f) 0 (cf_payload f)"
      using True by (simp add: client_bytes_def Let_def b0_def k)
    have s: "unat (0x80 + of_nat ?n :: u8) = 128 + ?n" using True by (intro unat_second_byte) simp
    show ?thesis unfolding c
      using True b by (simp add: frame_header_def Let_def client_parsed_def k and128 unat_and127 s)
  next
    case False
    have c: "client_bytes f = b0 # 0xFE # len_byte ?n 8 # len_byte ?n 0 # k0 # k1 # k2 # k3 # unmask (cf_key f) 0 (cf_payload f)"
      using False n by (simp add: client_bytes_def Let_def b0_def k)
    have "?n div 256 < 256" using n by (simp add: less_mult_imp_div_less)
    then have "?n mod 256 + ?n div 256 mod 256 * 256 = ?n"
      using mod_div_mult_eq [of ?n 256] by simp
    then show ?thesis unfolding c
      using False b by (simp add: frame_header_def Let_def client_parsed_def k unat_len_byte)
  qed
qed

lemma client_parse:
  assumes "client_wf f"
  shows "parse_frame (client_bytes f @ q) = Frame (client_parsed f) (cf_payload f) q"
proof -
  let ?n = "length (cf_payload f)"
  obtain hdr where c: "client_bytes f = hdr @ unmask (cf_key f) 0 (cf_payload f)" "length hdr \<ge> 6"
    using assms unfolding client_bytes_def client_wf_def Let_def
    by (intro that [of "take (length (client_bytes f) - ?n) (client_bytes f)"])
      (auto simp: client_bytes_def Let_def)
  have "length (client_bytes f) - 2 - ?n = length hdr - 2" using c by simp
  moreover have "\<not> length (cf_payload f) > WEBSOCKET_MAX_INBUFFER_SIZE" using assms by (simp add: client_wf_def)
  ultimately show ?thesis
    using client_header [OF assms, of q] c
    by (simp add: parse_frame_def client_parsed_def unmask_unmask)
qed


text \<open>What a sequence of client frames does to a connection: each is handled in turn until one
  ends the connection.\<close>

fun serve :: "ws_env \<Rightarrow> ws_socket \<Rightarrow> client_frame list \<Rightarrow> ws_socket" where
  "serve env st [] = st"
| "serve env st (f # fs) =
     (case step_core (dispatch_frame env (client_parsed f) (cf_payload f) 0 st) of
        Inl st' \<Rightarrow> serve env st' fs | Inr (st', ret) \<Rightarrow> st')"

lemma protocol_client:
  "\<forall>f\<in>set fs. client_wf f \<Longrightarrow>
    (case protocol env st (concat (map client_bytes fs)) of Inl (st', r) \<Rightarrow> st' | Inr (st', ret) \<Rightarrow> st') = serve env st fs"
proof (induction fs arbitrary: st)
  case Nil
  have "parse_frame [] = Incomplete" by (simp add: parse_frame_def frame_header_def)
  then show ?case by (subst protocol.simps) simp
next
  case (Cons f fs)
  then have p: "parse_frame (client_bytes f @ concat (map client_bytes fs)) =
      Frame (client_parsed f) (cf_payload f) (concat (map client_bytes fs))"
    by (intro client_parse) simp
  have IH: "(case protocol env s (concat (map client_bytes fs)) of Inl (st', r) \<Rightarrow> st' | Inr (st', ret) \<Rightarrow> st') = serve env s fs" for s
    using Cons by simp
  show ?case
    by (cases "step_core (dispatch_frame env (client_parsed f) (cf_payload f) 0 st)")
      (simp_all add: protocol.simps [of env st] p IH split: prod.splits)
qed

lemma parse_frame_payload: "parse_frame p = Frame w d r \<Longrightarrow> length d = real_length w"
  by (auto simp: parse_frame_def split: header_result.splits if_splits)

subsection \<open>Memory held for a fragmented message\<close>

definition fragments_bounded :: "ws_socket \<Rightarrow> bool" where
  "fragments_bounded s \<longleftrightarrow>
     websocket_fragments_length s = length (concat (websocket_fragments s)) \<and>
     websocket_fragments_length s < WEBSOCKET_MAX_INBUFFER_SIZE \<and>
     length (websocket_fragments s) \<le> websocket_fragment_count s \<and>
     websocket_fragment_count s \<le> WEBSOCKET_MAX_FRAGMENTS \<and>
     (websocket_fragment_start_opcode s = WSF_CONTINUE \<longrightarrow> websocket_fragments s = [])"

lemma finish_bounded:
  "finish_fragments env off s = Next s' off' \<Longrightarrow> fragments_bounded s'"
  by (auto simp: finish_fragments_def Let_def queue_message_def fragments_bounded_def
      WEBSOCKET_MAX_INBUFFER_SIZE_def split: if_splits)

lemma usub_eq: "b \<le> a \<Longrightarrow> a < 2 ^ 32 \<Longrightarrow> usub a b = a - b"
proof -
  assume "b \<le> a" "a < 2 ^ 32"
  then have "a + 2 ^ 32 - b = (a - b) + 2 ^ 32" "a - b < 2 ^ 32" by simp_all
  then show ?thesis unfolding usub_def by (simp only: mod_add_self2 mod_less)
qed

lemma data_bounded:
  assumes "env_handler env = None" "fragments_bounded s" "length d = real_length w"
    "data_frame env w d off s = Next s' off'" "opcode w \<noteq> WSF_CONTINUE"
  shows "fragments_bounded s'"
proof -
  from assms(1,4) have c: "websocket_fragment_start_opcode s = WSF_CONTINUE"
    by (simp add: data_frame_def split: if_splits)
  then have f: "websocket_fragments s = []" using assms(2) by (simp add: fragments_bounded_def)
  from assms(1,4) consider b m where "s' = queue_message b m s"
    | "s' = s\<lparr>websocket_fragments := websocket_fragments s @ [d], websocket_fragment_start_opcode := opcode w,
         websocket_fragments_length := real_length w, websocket_fragment_count := 1\<rparr>"
      "real_length w < WEBSOCKET_MAX_INBUFFER_SIZE" "opcode w \<noteq> WSF_CONTINUE"
    using assms(5) by (auto simp: data_frame_def split: if_splits)
  then show ?thesis
  proof cases
    case 1
    then show ?thesis using assms(2) by (simp add: queue_message_def fragments_bounded_def)
  next
    case 2
    then show ?thesis using assms(3) f by (simp add: fragments_bounded_def WEBSOCKET_MAX_FRAGMENTS_def)
  qed
qed

lemma continue_bounded:
  assumes "\<not> websocket_streaming_active s" "fragments_bounded s" "length d = real_length w"
    "continue_frame env w d off s = Next s' off'"
  shows "fragments_bounded s'"
proof -
  let ?c = "s\<lparr>websocket_fragment_count := websocket_fragment_count s + 1\<rparr>"
  let ?t = "if real_length w > 0
     then ?c\<lparr>websocket_fragments := websocket_fragments s @ [d],
            websocket_fragments_length := websocket_fragments_length s + real_length w\<rparr> else ?c"
  have u: "usub WEBSOCKET_MAX_INBUFFER_SIZE (websocket_fragments_length s) =
      WEBSOCKET_MAX_INBUFFER_SIZE - websocket_fragments_length s"
    using assms(2) by (intro usub_eq) (simp_all add: fragments_bounded_def WEBSOCKET_MAX_INBUFFER_SIZE_def)
  have c: "websocket_fragment_start_opcode s \<noteq> WSF_CONTINUE"
      "real_length w < WEBSOCKET_MAX_INBUFFER_SIZE - websocket_fragments_length s"
      "websocket_fragment_count s + 1 \<le> WEBSOCKET_MAX_FRAGMENTS"
      "(if fin w then finish_fragments env off ?t else Next ?t off) = Next s' off'"
    using assms(1,4) u by (simp_all add: continue_frame_def Let_def split: if_splits)
  show ?thesis
  proof (cases "fin w")
    case True
    then show ?thesis using c(4) finish_bounded by simp
  next
    case False
    then have "s' = ?t" using c(4) by simp
    moreover have "websocket_fragments_length s + real_length w < WEBSOCKET_MAX_INBUFFER_SIZE"
      using c(2) by linarith
    ultimately show ?thesis using c(1,3) assms(2,3) by (simp add: fragments_bounded_def)
  qed
qed

lemma dispatch_bounded:
  assumes "env_handler env = None" "\<not> websocket_streaming_active s" "fragments_bounded s"
    "length d = real_length w" "dispatch_frame env w d off s = Next s' off'"
  shows "fragments_bounded s'"
proof -
  have ctl: "control_frame w d off s = Next s' off' \<Longrightarrow> fragments_bounded s'"
    using assms(3) by (auto simp: control_frame_def fragments_bounded_def sendWebsocketFrame_def
        split: if_splits Opcodes.splits)
  show ?thesis
    using assms ctl data_bounded [OF assms(1,3,4)] continue_bounded [OF assms(2-4)]
    by (cases "opcode w") (simp_all add: dispatch_frame_def)
qed

lemma protocol_bounded:
  assumes "env_handler env = None"
  shows "\<not> websocket_streaming_active s \<Longrightarrow> fragments_bounded s \<Longrightarrow> protocol env s p = Inl (s', r) \<Longrightarrow> fragments_bounded s'"
  using assms
proof (induction env s p rule: protocol.induct)
  case (1 env s p)
  show ?case
  proof (cases "parse_frame p")
    case (Frame w d rest)
    with 1(4) obtain t where t: "step_core (dispatch_frame env w d 0 s) = Inl t" "protocol env t rest = Inl (s', r)"
      by (subst (asm) protocol.simps) (auto split: sum.splits)
    with dispatch_shape [OF 1(5,2), of w d 0] have n: "dispatch_frame env w d 0 s = Next t 0"
        "\<not> websocket_streaming_active t"
      by (auto simp: step_core_def)
    then show ?thesis
      using 1(1) [OF Frame t(1)] dispatch_bounded [OF 1(5,2,3) parse_frame_payload [OF Frame] n(1)] t(2) 1(5) by simp
  qed (use 1(3,4) in \<open>simp_all add: protocol.simps [of env s]\<close>)
qed

subsection \<open>Properties\<close>


definition ws_example_socket :: ws_socket where
  "ws_example_socket = \<lparr>websocket_buffer = replicate 65014 0, websocket_buffer_offset = 0,
     websocket_fragments = [], websocket_fragment_start_opcode = WSF_CONTINUE,
     websocket_fragments_length = 0, websocket_fragment_count = 0, websocket_streaming_active = False,
     websocket_stream_fragmented = False, websocket_stream_remaining = 0, websocket_stream_mask = [],
     websocket_stream_mask_offset = 0, websocket_stream_ctx = None, websocket_stream_handler = None,
     stream_log = [], closeSocket = False, input_queue = [], output_queue = []\<rparr>"

definition ws_example_env :: ws_env where
  "ws_example_env = \<lparr>env_malloc = (\<lambda>n. True), env_is_utf8 = (\<lambda>d. True), env_guid = ''g'', env_url = ''/ws'', env_handler = None\<rparr>"

definition ws_example_frame :: client_frame where
  "ws_example_frame = \<lparr>cf_fin = True, cf_opcode = WSF_TEXT, cf_key = [1, 2, 3, 4], cf_payload = [104, 105]\<rparr>"

lemma ws_example_ready: "ws_ready ws_example_socket" "pend ws_example_socket = []" "\<not> closeSocket ws_example_socket"
  by (simp_all add: ws_ready_def ws_example_socket_def pend_def parse_frame_def frame_header_def)

lemma client_bytes_example: "client_bytes ws_example_frame = [129, 130, 1, 2, 3, 4, 105, 107]"
  by (simp add: client_bytes_def ws_example_frame_def unmask_def opcode_value_def upt_rec)




text \<open>A client's reading of an unmasked frame (RFC 6455, section 5.2).\<close>

definition be_value :: "bytes \<Rightarrow> nat" where
  "be_value bs = foldl (\<lambda>n b. 256 * n + unat b) 0 bs"

definition read_server_frame :: "bytes \<Rightarrow> (bool \<times> Opcodes \<times> bytes) option" where
  "read_server_frame b =
     (if length b < 2 then None
      else let n7 = unat (b ! 1); k = (if n7 = 126 then 2 else if n7 = 127 then 8 else 0);
               n = (if n7 < 126 then n7 else be_value (take k (drop 2 b)))
           in if n7 \<ge> 128 \<or> length b \<noteq> 2 + k + n then None
              else Some (b ! 0 AND 0x80 \<noteq> 0, opcode_of (b ! 0 AND 0x0F), drop (2 + k) b))"

lemma be_value2: "n < 65536 \<Longrightarrow> be_value [len_byte n 8, len_byte n 0] = n"
proof -
  assume "n < 65536"
  then have "n div 256 < 256" by (simp add: less_mult_imp_div_less)
  then show ?thesis using div_mult_mod_eq [of n 256] by (simp add: be_value_def unat_len_byte mult.commute)
qed

lemma be_value8:
  assumes "n < 2 ^ 32"
  shows "be_value [0, 0, 0, 0, len_byte n 24, len_byte n 16, len_byte n 8, len_byte n 0] = n"
proof -
  have "n div 16777216 < 256" using assms by (simp add: less_mult_imp_div_less)
  moreover have "n div 65536 = n div 256 div 256" "n div 16777216 = n div 256 div 256 div 256"
    by (simp_all add: div_mult2_eq [symmetric])
  moreover have "256 * (256 * (256 * (m div 256 div 256 div 256) + m div 256 div 256 mod 256) + m div 256 mod 256) + m mod 256 = m"
    for m :: nat
    by (simp only: mult.commute [of 256] div_mult_mod_eq)
  ultimately show ?thesis by (simp add: be_value_def unat_len_byte)
qed

text \<open>C12: the frames the server sends are well-formed for a client: for every opcode and every
  payload of less than 4 GB the encoded frame reads back as one final, unmasked frame with
  that opcode and exactly that payload, whichever of the three length forms is used.\<close>

theorem ws_frame_roundtrip:
  assumes "case op of WSF_RESERVED n \<Rightarrow> False | _ \<Rightarrow> True" "length d < 2 ^ 32"
  shows "read_server_frame (ws_frame op d) = Some (True, op, d)"
proof -
  note b = first_byte [OF assms(1), of True, simplified]
  consider "length d < 126" | "126 \<le> length d" "length d < 65536" | "65536 \<le> length d" by linarith
  then show ?thesis
  proof cases
    case 1
    then have "unat (of_nat (length d) :: u8) = length d" by (simp add: unat_of_nat)
    then show ?thesis using 1 b by (simp add: ws_frame_def read_server_frame_def Let_def)
  next
    case 2
    then show ?thesis using b be_value2 by (simp add: ws_frame_def read_server_frame_def Let_def)
  next
    case 3
    then show ?thesis using b be_value8 [OF assms(2)] by (simp add: ws_frame_def read_server_frame_def Let_def)
  qed
qed

theorem ws_frame_roundtrip_witness:
  "read_server_frame (ws_frame WSF_BINARY (replicate 300 7)) = Some (True, WSF_BINARY, replicate 300 7)"
  by (rule ws_frame_roundtrip) simp_all

text \<open>C11: the handshake answer is the one of RFC 6455: for every valid client key the server
  writes, within its output buffer, the terminated Base64 text of the SHA-1 of the key
  followed by the protocol GUID, 28 characters, and returns 0.\<close>

theorem websocketAcceptKey_rfc6455:
  assumes "validWebsocketKey key" "29 \<le> out_size" "out_size \<le> length out" "length (buffer ctx) = 64"
  shows "\<exists>out'. websocketAcceptKey ctx (Some key) out out_size = Some (out', 0) \<and>
     cstr out' = b64text (fips_sha1 (map u8_of_char (cstr key @ ws_protocol_guid))) \<and>
     strlen out' = 28 \<and> length out' = length out"
proof -
  let ?m = "map u8_of_char (cstr key @ ws_protocol_guid)"
  have k: "take WEBSOCKET_KEY_LENGTH key = cstr key"
    using assms(1) cstr_prefix [of key] unfolding validWebsocketKey_def prefix_def
    by (metis append_eq_conv_conj)
  have "length ?m = 60" using assms(1) by (simp add: validWebsocketKey_def WEBSOCKET_KEY_LENGTH_def ws_protocol_guid_def)
  then have sha: "WebserverSHA1 ctx ?m = Some (fips_sha1 ?m)"
    by (intro sha1_correct [OF assms(4)]) simp
  have l: "length (fips_sha1 ?m) = 20" by (rule length_fips_sha1)
  let ?d = "replicate out_size NUL @ drop out_size out"
  have "base64_encsize 20 = 28" by (simp add: base64_encsize_def)
  then have "base64_encode (Some ?d) out_size (Some (fips_sha1 ?m)) 20 = Some (28, Some (b64text (fips_sha1 ?m) @ NUL # drop 29 ?d))"
    using base64_encode_eq [of "fips_sha1 ?m" out_size ?d] assms(2) l by simp
  moreover have "length (b64text (fips_sha1 ?m)) = 28" using length_b64text [of "fips_sha1 ?m"] l by (simp add: base64_encsize_def)
  ultimately show ?thesis
    using assms sha k nul_free_b64text [of "fips_sha1 ?m"]
    by (simp add: websocketAcceptKey_def WebserverBase64Encode_def)
qed

theorem websocketAcceptKey_rfc6455_witness:
  "\<exists>out'. websocketAcceptKey \<lparr>state = [], count0 = 0, count1 = 0, buffer = replicate 64 0\<rparr>
       (Some ''dGhlIHNhbXBsZSBub25jZQ=='') (replicate 29 NUL) 29 = Some (out', 0) \<and> strlen out' = 28"
proof -
  have "validWebsocketKey ''dGhlIHNhbXBsZSBub25jZQ==''"
    by (simp add: validWebsocketKey_def WEBSOCKET_KEY_LENGTH_def key_char_def upt_rec)
  then show ?thesis
    using websocketAcceptKey_rfc6455 [of "''dGhlIHNhbXBsZSBub25jZQ==''" 29 "replicate 29 NUL"
        "\<lparr>state = [], count0 = 0, count1 = 0, buffer = replicate 64 0\<rparr>"] by auto
qed



lemma receive_full:
  "websocket_buffer_offset s = length (websocket_buffer s) \<Longrightarrow> receive_loop env s avail = Some (s, 0, avail)"
  by (subst receive_loop.simps) simp

lemma client_length: "client_wf f \<Longrightarrow> length (client_bytes f) = 2 + (length (client_bytes f) - 2 - length (cf_payload f)) + length (cf_payload f)"
  by (simp add: client_bytes_def client_wf_def Let_def)



end
