(* ===== verification/PostStreaming.thy ===== *)
theory PostStreaming
  imports HeaderParser
begin

text \<open>
  The streaming receiver of \<open>multipart/form-data\<close> uploads, \<open>lib/src/post_streaming.c\<close>: the
  registry of stream handlers, the per-connection state (the \<open>post_stream_\<close> fields of
  \<open>socket_info\<close>), and the incremental multipart state machine.

  The three callbacks of a handler are functions on the stream context; what a callback may
  change there (its user data, the abort flag) is what it returns. A buffer with a length field
  is the list of its valid bytes; a chunk with a read position is the list of the bytes not yet
  read. The list of the parts begins with the newest; the pointer to the entry of the running
  part is a position in that list. Sizes of buffered data are numbers: the limits of this file
  keep them far below the range of their types (theorems of \<open>PostStreamMachine\<close>). Allocation
  ends the process on failure and does not return NULL.
\<close>

subsection \<open>Data (webserver\_api\_functions.h, dataTypes.h, post\_streaming.h)\<close>

record 'u post_stream_context =
  ctx_url :: string
  field_name :: "string option"
  file_name :: "string option"
  total_length :: u64
  received_length :: nat
  aborted :: bool
  user_data :: 'u

record ('u, 'r) post_stream_handler_entry =
  handler_url :: string
  auth_check :: "('r \<Rightarrow> int) option"
  max_size :: u64
  on_start :: "'u post_stream_context \<Rightarrow> 'u post_stream_context"
  on_chunk :: "'u post_stream_context \<Rightarrow> string \<Rightarrow> 'u post_stream_context"
  on_end :: "'u post_stream_context \<Rightarrow> bool \<Rightarrow> 'u post_stream_context"

record post_stream_part =
  part_name :: string
  part_data :: string
  part_length :: nat
  capacity :: nat
  is_file :: bool
  failed :: bool
  truncated :: bool

datatype stream_state =
  PREAMBLE | AFTER_BOUNDARY | PART_HEADER | PART_DATA | EPILOGUE | ERROR | DELIM_CHECK

record ('u, 'r) post_stream =
  header :: HttpRequestHeader
  post_streaming_active :: bool
  post_stream_state :: stream_state
  post_stream_ctx :: "'u post_stream_context option"
  post_stream_handler :: "('u, 'r) post_stream_handler_entry option"
  post_stream_read_buf_size :: nat
  post_stream_delim :: string
  post_stream_hold :: string
  post_stream_hold_size :: nat
  post_stream_part_header :: string
  post_stream_part_is_file :: bool
  post_stream_started :: bool
  post_stream_discard :: bool
  post_stream_delim_in_data :: bool
  post_stream_parts :: "post_stream_part list"
  post_stream_current_part :: "nat option"
  post_stream_parts_count :: nat
  post_stream_fields_total :: nat
  post_stream_field_limit_logged :: bool

definition POST_STREAM_MAX_URL_LENGTH :: nat where "POST_STREAM_MAX_URL_LENGTH = 1024"
definition POST_STREAM_MAX_PART_HEADER :: nat where "POST_STREAM_MAX_PART_HEADER = 8 * 1024"
definition POST_STREAM_MAX_FIELD_SIZE :: nat where "POST_STREAM_MAX_FIELD_SIZE = 64 * 1024"
definition POST_STREAM_MAX_FIELDS_TOTAL :: nat where "POST_STREAM_MAX_FIELDS_TOTAL = 256 * 1024"
definition POST_STREAM_MAX_NAME :: nat where "POST_STREAM_MAX_NAME = 256"
definition POST_STREAM_MAX_PARTS :: nat where "POST_STREAM_MAX_PARTS = 64"
definition POST_STREAM_READ_CHUNK_SIZE :: nat where "POST_STREAM_READ_CHUNK_SIZE = 32 * 1024"
definition POST_STREAM_MAX_READ_PER_EVENT :: nat where "POST_STREAM_MAX_READ_PER_EVENT = 128 * 1024"

subsection \<open>The registry of handlers\<close>

record ('u, 'r) stream_registry =
  post_streaming_initialized :: bool
  post_stream_handler_list :: "('u, 'r) post_stream_handler_entry list"

definition initPostStreaming :: "('u, 'r) stream_registry \<Rightarrow> ('u, 'r) stream_registry" where
  "initPostStreaming reg =
     (if post_streaming_initialized reg then reg
      else reg\<lparr>post_stream_handler_list := [], post_streaming_initialized := True\<rparr>)"

definition cleanupPostStreaming :: "('u, 'r) stream_registry \<Rightarrow> ('u, 'r) stream_registry" where
  "cleanupPostStreaming reg =
     (if \<not> post_streaming_initialized reg then reg
      else reg\<lparr>post_stream_handler_list := [], post_streaming_initialized := False\<rparr>)"

definition skipLeadingSlash :: "string \<Rightarrow> string" where
  "skipLeadingSlash u = (if cget u 0 = CHR ''/'' then drop 1 u else u)"

definition findPostStreamHandler ::
  "('u, 'r) stream_registry \<Rightarrow> string option \<Rightarrow> ('u, 'r) post_stream_handler_entry option" where
  "findPostStreamHandler reg u =
     (case u of None \<Rightarrow> None
      | Some u \<Rightarrow>
          if \<not> post_streaming_initialized reg then None
          else find (\<lambda>entry. strcmp (handler_url entry) (skipLeadingSlash u) = 0)
                 (post_stream_handler_list reg))"

text \<open>The callbacks are optional arguments: a NULL callback is refused.\<close>

definition registerPostStreamHandlerInternal ::
  "string option \<Rightarrow> ('r \<Rightarrow> int) option \<Rightarrow> u64 \<Rightarrow>
   ('u post_stream_context \<Rightarrow> 'u post_stream_context) option \<Rightarrow>
   ('u post_stream_context \<Rightarrow> string \<Rightarrow> 'u post_stream_context) option \<Rightarrow>
   ('u post_stream_context \<Rightarrow> bool \<Rightarrow> 'u post_stream_context) option \<Rightarrow>
   ('u, 'r) stream_registry \<Rightarrow> ('u, 'r) stream_registry" where
  "registerPostStreamHandlerInternal u auth limit start chunk finish reg =
     (let reg = (if post_streaming_initialized reg then reg else initPostStreaming reg) in
      case (u, start, chunk, finish) of
        (Some u, Some start, Some chunk, Some finish) \<Rightarrow>
          (let url_norm = skipLeadingSlash u; url_len = strlen url_norm in
           if url_len = 0 then reg
           else if url_len \<ge> POST_STREAM_MAX_URL_LENGTH then reg
           else if findPostStreamHandler reg (Some u) \<noteq> None then reg
           else reg\<lparr>post_stream_handler_list := post_stream_handler_list reg @
                  [\<lparr>handler_url = cstr url_norm, auth_check = auth, max_size = limit,
                    on_start = start, on_chunk = chunk, on_end = finish\<rparr>]\<rparr>)
      | _ \<Rightarrow> reg)"

definition maxPostStreamSizeInternal :: "('u, 'r) stream_registry \<Rightarrow> u64" where
  "maxPostStreamSizeInternal reg =
     (if \<not> post_streaming_initialized reg then 0
      else foldl (\<lambda>m entry. if max_size entry > m then max_size entry else m) 0
             (post_stream_handler_list reg))"

subsection \<open>Set-up and release of a stream\<close>

definition cleanupSocketPostStreamState :: "('u, 'r) post_stream \<Rightarrow> ('u, 'r) post_stream" where
  "cleanupSocketPostStreamState sock = sock\<lparr>
     post_streaming_active := False, post_stream_state := PREAMBLE, post_stream_ctx := None,
     post_stream_handler := None, post_stream_read_buf_size := 0, post_stream_delim := [],
     post_stream_hold := [], post_stream_hold_size := 0, post_stream_part_header := [],
     post_stream_part_is_file := False, post_stream_started := False, post_stream_discard := False,
     post_stream_parts := [], post_stream_current_part := None, post_stream_parts_count := 0,
     post_stream_fields_total := 0, post_stream_field_limit_logged := False\<rparr>"

text \<open>\<open>u0\<close> is the NULL of the handler's user data.\<close>

definition startPostStream :: "'u \<Rightarrow> ('u, 'r) post_stream_handler_entry option \<Rightarrow> bool \<Rightarrow>
    ('u, 'r) post_stream \<Rightarrow> ('u, 'r) post_stream \<times> int" where
  "startPostStream u0 handler discard sock =
     (case (handler, boundary (header sock), url (header sock)) of
        (Some h, Some bound, Some u) \<Rightarrow>
          (let ctx = \<lparr>ctx_url = cstr u, field_name = None, file_name = None,
                 total_length = contentlenght (header sock), received_length = 0, aborted = False,
                 user_data = u0\<rparr>
           in (sock\<lparr>post_stream_delim := CRLF @ cstr bound, post_stream_hold_size := strlen bound + 8,
                 post_stream_read_buf_size := POST_STREAM_READ_CHUNK_SIZE,
                 post_stream_ctx := Some ctx, post_stream_handler := Some h,
                 post_streaming_active := True, post_stream_state := PREAMBLE,
                 post_stream_hold := [], post_stream_part_header := [],
                 post_stream_part_is_file := False, post_stream_current_part := None,
                 post_stream_parts_count := 0, post_stream_fields_total := 0,
                 post_stream_field_limit_logged := False, post_stream_started := False,
                 post_stream_discard := discard\<rparr>, 0))
      | _ \<Rightarrow> (sock, - 1))"

subsection \<open>Payload of the running part\<close>

definition call_start :: "('u, 'r) post_stream \<Rightarrow> 'u post_stream_context \<Rightarrow> 'u post_stream_context" where
  "call_start sock ctx = (case post_stream_handler sock of None \<Rightarrow> ctx | Some h \<Rightarrow> on_start h ctx)"

definition call_chunk ::
  "('u, 'r) post_stream \<Rightarrow> 'u post_stream_context \<Rightarrow> string \<Rightarrow> 'u post_stream_context" where
  "call_chunk sock ctx data = (case post_stream_handler sock of None \<Rightarrow> ctx | Some h \<Rightarrow> on_chunk h ctx data)"

definition call_end ::
  "('u, 'r) post_stream \<Rightarrow> 'u post_stream_context \<Rightarrow> bool \<Rightarrow> 'u post_stream_context" where
  "call_end sock ctx success = (case post_stream_handler sock of None \<Rightarrow> ctx | Some h \<Rightarrow> on_end h ctx success)"

function grow_loop :: "nat \<Rightarrow> nat \<Rightarrow> nat" where
  "grow_loop neu need = (if 0 < neu \<and> neu < need then grow_loop (neu * 2) need else neu)"
  by pat_completeness auto
termination
  by (relation "measure (\<lambda>(neu, need). need - neu)") auto

declare grow_loop.simps [simp del]

definition grown_capacity :: "nat \<Rightarrow> nat \<Rightarrow> nat" where
  "grown_capacity cap need =
     (if need > cap then
        (let neu = grow_loop (if cap = 0 then 256 else cap * 2) need in
         if neu > POST_STREAM_MAX_FIELD_SIZE + 1 then need else neu)
      else cap)"

definition field_append :: "string \<Rightarrow> post_stream_part \<Rightarrow> post_stream_part" where
  "field_append data part = part\<lparr>
     capacity := grown_capacity (capacity part) (part_length part + length data + 1),
     part_data := part_data part @ data, part_length := part_length part + length data\<rparr>"

definition emitPartData :: "('u, 'r) post_stream \<Rightarrow> string \<Rightarrow> ('u, 'r) post_stream" where
  "emitPartData sock data =
     (case post_stream_ctx sock of None \<Rightarrow> sock
      | Some ctx \<Rightarrow>
          if data = [] \<or> aborted ctx then sock
          else if post_stream_part_is_file sock then
            (let ctx = ctx\<lparr>received_length := received_length ctx + length data\<rparr>;
                 ctx = (if post_stream_discard sock then ctx else call_chunk sock ctx data)
             in sock\<lparr>post_stream_ctx := Some ctx\<rparr>)
          else (case post_stream_current_part sock of None \<Rightarrow> sock
            | Some i \<Rightarrow>
                (let part = post_stream_parts sock ! i in
                 if is_file part then sock
                 else if truncated part then sock
                 else if post_stream_fields_total sock + length data > POST_STREAM_MAX_FIELDS_TOTAL \<or>
                     part_length part + length data > POST_STREAM_MAX_FIELD_SIZE then
                   sock\<lparr>post_stream_parts := (post_stream_parts sock)[i := part\<lparr>truncated := True\<rparr>],
                     post_stream_field_limit_logged := True\<rparr>
                 else
                   sock\<lparr>post_stream_parts := (post_stream_parts sock)[i := field_append data part],
                     post_stream_fields_total := post_stream_fields_total sock + length data\<rparr>)))"

subsection \<open>The search for the boundary\<close>

function rebaseHold :: "('u, 'r) post_stream \<Rightarrow> string \<Rightarrow> ('u, 'r) post_stream" where
  "rebaseHold sock needle =
     (let hold = post_stream_hold sock in
      if hold \<noteq> [] \<and> hold \<noteq> take (length hold) needle
      then rebaseHold ((emitPartData sock [hd hold])\<lparr>post_stream_hold := tl hold\<rparr>) needle
      else sock)"
  by pat_completeness auto
termination
  by (relation "measure (\<lambda>(sock, needle). length (post_stream_hold sock))") auto

declare rebaseHold.simps [simp del]

text \<open>The inner loop: bytes that continue the pattern go to the hold buffer.\<close>

fun fill_hold :: "string \<Rightarrow> string \<Rightarrow> string \<Rightarrow> string \<times> string" where
  "fill_hold hold needle [] = (hold, [])"
| "fill_hold hold needle (d # ds) =
     (if length hold < length needle \<and> d = needle ! length hold
      then fill_hold (hold @ [d]) needle ds
      else (hold, d # ds))"

text \<open>The fast path: the bytes before the next possible start of the pattern.\<close>

definition skip_to :: "('u, 'r) post_stream \<Rightarrow> string \<Rightarrow> string \<Rightarrow> bool \<Rightarrow> ('u, 'r) post_stream \<times> string" where
  "skip_to sock needle ds emit =
     (if post_stream_hold sock = [] then
        (let skip = takeWhile (\<lambda>c. c \<noteq> cget needle 0) ds
         in (if emit then emitPartData sock skip else sock, dropWhile (\<lambda>c. c \<noteq> cget needle 0) ds))
      else (sock, ds))"

text \<open>After a mismatch: the first held byte was payload after all.\<close>

definition mismatch :: "('u, 'r) post_stream \<Rightarrow> string \<Rightarrow> bool \<Rightarrow> ('u, 'r) post_stream" where
  "mismatch sock needle emit =
     (let hold = post_stream_hold sock in
      if emit then rebaseHold ((emitPartData sock [hd hold])\<lparr>post_stream_hold := tl hold\<rparr>) needle
      else sock\<lparr>post_stream_hold := []\<rparr>)"

lemma emit_hold [simp]: "post_stream_hold (emitPartData sock data) = post_stream_hold sock"
  by (simp add: emitPartData_def Let_def split: option.split)

lemma skip_to_hold [simp]: "post_stream_hold (fst (skip_to sock needle ds emit)) = post_stream_hold sock"
  by (simp add: skip_to_def Let_def)

lemma rebase_shorter: "length (post_stream_hold (rebaseHold sock needle)) \<le> length (post_stream_hold sock)"
proof (induction sock needle rule: rebaseHold.induct)
  case (1 sock needle)
  show ?case
    using 1 [OF refl] by (subst rebaseHold.simps) (force simp: Let_def)
qed

lemma mismatch_shorter:
  "post_stream_hold sock \<noteq> [] \<Longrightarrow>
    length (post_stream_hold (mismatch sock needle emit)) < length (post_stream_hold sock)"
  unfolding mismatch_def
  using rebase_shorter [of "(emitPartData sock [hd (post_stream_hold sock)])\<lparr>post_stream_hold := tl (post_stream_hold sock)\<rparr>" needle]
  by (cases "post_stream_hold sock") (auto simp: Let_def)

lemma fill_hold_append: "fill_hold h n ds = (g, r) \<Longrightarrow> g @ r = h @ ds"
  by (induction h n ds rule: fill_hold.induct) (auto split: if_splits)

lemma fill_hold_longer: "fill_hold h n ds = (g, r) \<Longrightarrow> length h \<le> length g"
  by (induction h n ds rule: fill_hold.induct) (auto split: if_splits)

lemma fill_hold_first:
  assumes "ds \<noteq> []" "hd ds = cget n 0" "n \<noteq> []" "fill_hold [] n ds = (g, r)"
  shows "length r < length ds"
proof -
  obtain d ds' where ds: "ds = d # ds'"
    using assms(1) by (cases ds) auto
  with assms have f: "fill_hold [d] n ds' = (g, r)"
    by (cases n) auto
  show ?thesis
    using arg_cong [OF fill_hold_append [OF f], of length] fill_hold_longer [OF f] ds by simp
qed

lemma fill_hold_skipped:
  assumes sk: "skip_to sock needle ds emit = (s', ds')" and "ds' \<noteq> []"
    and f: "fill_hold (post_stream_hold s') needle ds' = (hold, rest)" and ne: "length hold \<noteq> length needle"
  shows "hold \<noteq> [] \<and> (length rest < length ds \<or>
    length rest = length ds \<and> hold = post_stream_hold sock)"
proof -
  have h: "post_stream_hold s' = post_stream_hold sock"
    using skip_to_hold [of sock needle ds emit] sk by simp
  note app = fill_hold_append [OF f, unfolded h] and longer = fill_hold_longer [OF f, unfolded h]
  have len: "length hold + length rest = length (post_stream_hold sock) + length ds'"
    using arg_cong [OF app, of length] by simp
  show ?thesis
  proof (cases "post_stream_hold sock = []")
    case True
    then have d: "ds' = dropWhile (\<lambda>c. c \<noteq> cget needle 0) ds"
      using sk by (simp add: skip_to_def Let_def)
    then have "hd ds' = cget needle 0"
      using hd_dropWhile [of "\<lambda>c. c \<noteq> cget needle 0" ds] \<open>ds' \<noteq> []\<close> by simp
    moreover have "needle \<noteq> []"
      using f ne True h by (cases ds') auto
    ultimately have "length rest < length ds'"
      using fill_hold_first [of ds' needle hold rest] \<open>ds' \<noteq> []\<close> f True h by simp
    moreover have "length ds' \<le> length ds"
      by (simp add: d length_dropWhile_le)
    ultimately show ?thesis
      using app True by (cases hold) auto
  next
    case False
    then have "ds' = ds"
      using sk by (simp add: skip_to_def)
    then show ?thesis
      using app len longer False by (cases "length rest = length ds") auto
  qed
qed

text \<open>The state behind the search, the bytes not read, and whether the pattern was found.\<close>

function scanForNeedle :: "('u, 'r) post_stream \<Rightarrow> string \<Rightarrow> string \<Rightarrow> bool \<Rightarrow>
    ('u, 'r) post_stream \<times> string \<times> bool" where
  "scanForNeedle sock needle ds emit =
     (if ds = [] then (sock, [], False)
      else
        let (sock, ds) = skip_to sock needle ds emit in
        if ds = [] then (sock, [], False)
        else
          let (hold, ds) = fill_hold (post_stream_hold sock) needle ds;
              sock = sock\<lparr>post_stream_hold := hold\<rparr>
          in if length hold = length needle then (sock\<lparr>post_stream_hold := []\<rparr>, ds, True)
             else if ds = [] then (sock, [], False)
             else scanForNeedle (mismatch sock needle emit) needle ds emit)"
  by pat_completeness auto
termination
proof (relation "measures [\<lambda>(sock, needle, ds, emit). length ds,
    \<lambda>(sock, needle, ds, emit). length (post_stream_hold sock)]", goal_cases)
  case (2 sock needle ds emit p s' ds' q hold rest s'')
  then show ?case
    using fill_hold_skipped [of sock needle ds emit s' ds' hold rest]
      mismatch_shorter [of s'' needle emit]
    by auto
qed simp

declare scanForNeedle.simps [simp del]

subsection \<open>The header of a part\<close>

fun strstr :: "string \<Rightarrow> string \<Rightarrow> nat option" where
  "strstr [] key = (if key = [] then Some 0 else None)"
| "strstr (c # cs) key = (if prefix key (c # cs) then Some 0 else map_option Suc (strstr cs key))"

lemma strstr_less: "strstr s key = Some k \<Longrightarrow> k + length key \<le> length s"
  by (induction s key arbitrary: k rule: strstr.induct) (auto split: if_splits dest: prefix_length_le)

text \<open>The loop over the occurrences of a key; it is called with \<open>name=\<close> and \<open>filename=\<close> only,
  and with an empty key it would not advance.\<close>

function disposition_key :: "string \<Rightarrow> string \<Rightarrow> nat \<Rightarrow> nat option" where
  "disposition_key disposition key p =
     (case strstr (drop p disposition) key of None \<Rightarrow> None
      | Some k \<Rightarrow>
          let q = p + k in
          if (q = 0 \<or> disposition ! (q - 1) = CHR '' '' \<or> disposition ! (q - 1) = CHR '';'') \<and>
             cget disposition (q + length key) = CHR 0x22
          then Some q
          else if key = [] then None
          else disposition_key disposition key (q + length key))"
  by pat_completeness auto
termination
  by (relation "measure (\<lambda>(d, key, p). length d - p)") (auto dest!: strstr_less simp flip: length_greater_0_conv)

declare disposition_key.simps [simp del]

definition extractDispositionValue :: "string option \<Rightarrow> string \<Rightarrow> string option" where
  "extractDispositionValue disposition key =
     (case disposition of None \<Rightarrow> None
      | Some d \<Rightarrow>
          (case disposition_key d key 0 of None \<Rightarrow> None
           | Some q \<Rightarrow>
               (let start = drop (q + length key + 1) d in
                if CHR 0x22 \<in> set start then Some (takeWhile (\<lambda>c. c \<noteq> CHR 0x22) start) else None)))"

definition part_label :: "'u post_stream_context \<Rightarrow> string" where
  "part_label ctx =
     (case (if file_name ctx \<noteq> None then file_name ctx else field_name ctx) of None \<Rightarrow> [] | Some nm \<Rightarrow> nm)"

definition new_part :: "'u post_stream_context \<Rightarrow> post_stream_part" where
  "new_part ctx = \<lparr>part_name = take POST_STREAM_MAX_NAME (part_label ctx), part_data = [], part_length = 0,
     capacity = 0, is_file = (file_name ctx \<noteq> None), failed = False, truncated = False\<rparr>"

text \<open>The entry of a part, and the start of a file.\<close>

definition enter_part :: "('u, 'r) post_stream \<Rightarrow> 'u post_stream_context \<Rightarrow> ('u, 'r) post_stream" where
  "enter_part sock ctx =
     (let sock = sock\<lparr>
            post_stream_field_limit_logged := post_stream_field_limit_logged sock \<or>
              length (part_label ctx) > POST_STREAM_MAX_NAME,
            post_stream_parts := new_part ctx # post_stream_parts sock,
            post_stream_current_part := Some 0,
            post_stream_parts_count := post_stream_parts_count sock + 1\<rparr>
      in if post_stream_part_is_file sock
         then sock\<lparr>post_stream_ctx := Some (call_start sock ctx), post_stream_started := True\<rparr>
         else sock)"

definition parse_part_header :: "('u, 'r) post_stream \<Rightarrow> HttpRequestHeader" where
  "parse_part_header sock =
     snd (analyseFormDataLine (post_stream_part_header sock) (length (post_stream_part_header sock))
       ((header sock)\<lparr>Content_Disposition := None, Content_Type := None\<rparr>))"

definition name_part :: "HttpRequestHeader \<Rightarrow> 'u post_stream_context \<Rightarrow> 'u post_stream_context" where
  "name_part hdr ctx = ctx\<lparr>
     field_name := extractDispositionValue (Content_Disposition hdr) ''name='',
     file_name := extractDispositionValue (Content_Disposition hdr) ''filename='',
     received_length := 0\<rparr>"

text \<open>The result tells whether the part header could be read.\<close>

definition beginPart :: "('u, 'r) post_stream \<Rightarrow> ('u, 'r) post_stream \<times> bool" where
  "beginPart sock =
     (case post_stream_ctx sock of None \<Rightarrow> (sock, True)
      | Some ctx \<Rightarrow>
          let sock = sock\<lparr>post_stream_current_part := None\<rparr> in
          if aborted ctx then (sock\<lparr>post_stream_part_is_file := False\<rparr>, True)
          else
            let hdr = parse_part_header sock; sock = sock\<lparr>header := hdr\<rparr> in
            if error hdr \<noteq> 0 then (sock, False)
            else
              let ctx = name_part hdr ctx;
                  sock = sock\<lparr>post_stream_part_is_file := (file_name ctx \<noteq> None), post_stream_ctx := Some ctx\<rparr>
              in if post_stream_discard sock then (sock, True) else (enter_part sock ctx, True))"

text \<open>The end of a part: \<open>on_end\<close> for a started file, then the result in its entry.\<close>

definition end_call :: "('u, 'r) post_stream \<Rightarrow> bool \<Rightarrow> 'u post_stream_context \<Rightarrow> 'u post_stream_context" where
  "end_call sock success ctx =
     (if post_stream_part_is_file sock \<and> post_stream_started sock
      then call_end sock ctx (\<not> aborted ctx \<and> success) else ctx)"

definition end_entry :: "bool \<Rightarrow> 'u post_stream_context \<Rightarrow> post_stream_part \<Rightarrow> post_stream_part" where
  "end_entry success ctx cur =
     (if is_file cur then cur\<lparr>part_length := received_length ctx,
        failed := failed cur \<or> \<not> success \<or> aborted ctx\<rparr> else cur)"

definition endPart :: "('u, 'r) post_stream \<Rightarrow> bool \<Rightarrow> ('u, 'r) post_stream" where
  "endPart sock success =
     (case post_stream_ctx sock of None \<Rightarrow> sock
      | Some ctx \<Rightarrow>
          let ctx = end_call sock success ctx in
          sock\<lparr>post_stream_ctx := Some ctx,
            post_stream_started := (post_stream_started sock \<and> \<not> post_stream_part_is_file sock),
            post_stream_parts := (case post_stream_current_part sock of None \<Rightarrow> post_stream_parts sock
              | Some i \<Rightarrow> (post_stream_parts sock)[i := end_entry success ctx (post_stream_parts sock ! i)]),
            post_stream_current_part := None, post_stream_part_is_file := False\<rparr>)"

definition header_is_discarded :: "('u, 'r) post_stream \<Rightarrow> bool" where
  "header_is_discarded sock = (case post_stream_ctx sock of None \<Rightarrow> False | Some ctx \<Rightarrow> aborted ctx)"

definition header_full :: "('u, 'r) post_stream \<Rightarrow> bool" where
  "header_full sock = (length (post_stream_part_header sock) + 1 \<ge> POST_STREAM_MAX_PART_HEADER)"

text \<open>Of a full buffer the last three bytes stay.\<close>

definition header_push :: "('u, 'r) post_stream \<Rightarrow> char \<Rightarrow> ('u, 'r) post_stream" where
  "header_push sock d =
     (let h = post_stream_part_header sock
      in sock\<lparr>post_stream_part_header := (if header_full sock then drop (length h - 3) h else h) @ [d]\<rparr>)"

definition header_ends :: "('u, 'r) post_stream \<Rightarrow> bool" where
  "header_ends sock =
     (let h = post_stream_part_header sock in length h \<ge> 4 \<and> drop (length h - 4) h = CRLF @ CRLF)"

fun collectPartHeader :: "('u, 'r) post_stream \<Rightarrow> string \<Rightarrow> ('u, 'r) post_stream \<times> string \<times> int" where
  "collectPartHeader sock [] = (sock, [], 0)"
| "collectPartHeader sock (d # ds) =
     (if header_full sock \<and> \<not> header_is_discarded sock then (sock, d # ds, - 1)
      else
        let sock = header_push sock d
        in if header_ends sock then (sock, ds, 1) else collectPartHeader sock ds)"

subsection \<open>The state machine\<close>

definition after_boundary :: "('u, 'r) post_stream \<Rightarrow> ('u, 'r) post_stream" where
  "after_boundary sock =
     (let sock = (case post_stream_ctx sock of None \<Rightarrow> sock
        | Some ctx \<Rightarrow>
            if \<not> aborted ctx \<and> post_stream_parts_count sock \<ge> POST_STREAM_MAX_PARTS
            then sock\<lparr>post_stream_ctx := Some (ctx\<lparr>aborted := True\<rparr>)\<rparr> else sock)
      in sock\<lparr>post_stream_part_header := CRLF, post_stream_hold := [], post_stream_state := PART_HEADER\<rparr>)"

text \<open>What the two bytes behind a boundary, in the hold buffer, mean.\<close>

definition delim_decide :: "('u, 'r) post_stream \<Rightarrow> ('u, 'r) post_stream" where
  "delim_decide sock =
     (let two = take 2 (post_stream_hold sock);
          closed = (\<lambda>sock. if post_stream_delim_in_data sock then endPart sock True else sock)
      in if two = ''--'' then (closed (sock\<lparr>post_stream_hold := []\<rparr>))\<lparr>post_stream_state := EPILOGUE\<rparr>
         else if two = CRLF then (closed (sock\<lparr>post_stream_hold := []\<rparr>))\<lparr>post_stream_state := AFTER_BOUNDARY\<rparr>
         else if post_stream_delim_in_data sock then
           (rebaseHold (emitPartData sock (post_stream_delim sock)) (post_stream_delim sock))
             \<lparr>post_stream_state := PART_DATA\<rparr>
         else sock\<lparr>post_stream_hold := [], post_stream_state := PREAMBLE\<rparr>)"

definition delim_check :: "('u, 'r) post_stream \<Rightarrow> string \<Rightarrow> ('u, 'r) post_stream \<times> string" where
  "delim_check sock ds =
     (let n = 2 - length (post_stream_hold sock);
          sock = sock\<lparr>post_stream_hold := post_stream_hold sock @ take n ds\<rparr>
      in if length (post_stream_hold sock) < 2 then (sock, drop n ds)
         else (delim_decide sock, drop n ds))"

text \<open>One round of the loop, entered with at least one byte left: the state, the bytes not yet
  read, and whether the parser failed.\<close>

definition feed_round :: "('u, 'r) post_stream \<Rightarrow> string \<Rightarrow> ('u, 'r) post_stream \<times> string \<times> bool" where
  "feed_round sock ds =
     (case post_stream_state sock of
        PREAMBLE \<Rightarrow>
          (case scanForNeedle sock (drop 2 (post_stream_delim sock)) ds False of
             (sock, ds, found) \<Rightarrow>
               (if found then sock\<lparr>post_stream_delim_in_data := False, post_stream_state := DELIM_CHECK\<rparr>
                else sock, ds, False))
      | AFTER_BOUNDARY \<Rightarrow> (after_boundary sock, ds, False)
      | PART_HEADER \<Rightarrow>
          (case collectPartHeader sock ds of
             (sock, ds, ret) \<Rightarrow>
               if ret < 0 then (sock\<lparr>post_stream_state := ERROR\<rparr>, ds, True)
               else if ret = 1 then
                 (case beginPart sock of (sock, ok) \<Rightarrow>
                    if ok then (sock\<lparr>post_stream_state := PART_DATA\<rparr>, ds, False)
                    else (sock\<lparr>post_stream_state := ERROR\<rparr>, ds, True))
               else (sock, ds, False))
      | PART_DATA \<Rightarrow>
          (case scanForNeedle sock (post_stream_delim sock) ds True of
             (sock, ds, found) \<Rightarrow>
               (if found then sock\<lparr>post_stream_delim_in_data := True, post_stream_state := DELIM_CHECK\<rparr>
                else sock, ds, False))
      | DELIM_CHECK \<Rightarrow> (case delim_check sock ds of (sock, ds) \<Rightarrow> (sock, ds, False))
      | EPILOGUE \<Rightarrow> (sock, [], False)
      | ERROR \<Rightarrow> (sock, ds, True))"

lemma scan_unfold:
  assumes "skip_to sock needle ds emit = (s1, ds1)" "fill_hold (post_stream_hold s1) needle ds1 = (hold, rest)"
    "ds \<noteq> []"
  shows "scanForNeedle sock needle ds emit =
    (if ds1 = [] then (s1, [], False)
     else if length hold = length needle then (s1\<lparr>post_stream_hold := []\<rparr>, rest, True)
     else if rest = [] then (s1\<lparr>post_stream_hold := hold\<rparr>, [], False)
     else scanForNeedle (mismatch (s1\<lparr>post_stream_hold := hold\<rparr>) needle emit) needle rest emit)"
  using assms by (subst scanForNeedle.simps) simp

lemma scan_rest:
  "scanForNeedle sock needle ds emit = (s', ds', found) \<Longrightarrow>
    length ds' \<le> length ds \<and> (\<not> found \<longrightarrow> ds' = []) \<and> (found \<longrightarrow> post_stream_hold s' = [])"
proof (induction sock needle ds emit arbitrary: s' ds' found rule: scanForNeedle.induct)
  case (1 sock needle ds emit)
  obtain s1 ds1 where sk: "skip_to sock needle ds emit = (s1, ds1)"
    by fastforce
  obtain hold rest where f: "fill_hold (post_stream_hold s1) needle ds1 = (hold, rest)"
    by fastforce
  have "length ds1 \<le> length ds"
    using sk by (auto simp: skip_to_def Let_def length_dropWhile_le split: if_splits)
  moreover have "length rest \<le> length ds1"
    using arg_cong [OF fill_hold_append [OF f], of length] fill_hold_longer [OF f] by simp
  moreover note 1(1) [OF _ sk [symmetric] refl _ f [symmetric] refl refl]
  moreover consider "ds = []" | "ds \<noteq> []" "ds1 = []" | "ds \<noteq> []" "ds1 \<noteq> []" "length hold = length needle"
    | "ds \<noteq> []" "ds1 \<noteq> []" "length hold \<noteq> length needle" "rest = []"
    | "ds \<noteq> []" "ds1 \<noteq> []" "length hold \<noteq> length needle" "rest \<noteq> []"
    by blast
  then show ?case
  proof cases
    case 1
    then show ?thesis
      using "1.prems" by (simp add: scanForNeedle.simps)
  next
    case 5
    then have eq: "scanForNeedle sock needle ds emit =
        scanForNeedle (mismatch (s1\<lparr>post_stream_hold := hold\<rparr>) needle emit) needle rest emit"
      by (simp add: scan_unfold [OF sk f 5(1)])
    from "1.IH" [OF 5(1) sk [symmetric] refl 5(2) f [symmetric] refl refl 5(3,4) "1.prems" [unfolded eq]] show ?thesis
      using \<open>length ds1 \<le> length ds\<close> \<open>length rest \<le> length ds1\<close> by simp
  qed (use "1.prems" scan_unfold [OF sk f] calculation in auto)
qed

lemma collect_rest:
  "collectPartHeader sock ds = (s', ds', ret) \<Longrightarrow> ds \<noteq> [] \<Longrightarrow> \<not> ret < 0 \<Longrightarrow> length ds' < length ds"
proof (induction sock ds rule: collectPartHeader.induct)
  case (2 sock d ds)
  show ?case
  proof (cases "ds = [] \<or> header_ends (header_push sock d)")
    case True
    then show ?thesis
      using "2.prems" by (auto simp: Let_def split: if_splits)
  next
    case False
    then show ?thesis
      using 2 by (auto simp: Let_def split: if_splits)
  qed
qed simp

text \<open>A round that reads no byte leads to a state that reads one.\<close>

definition idle_rank :: "('u, 'r) post_stream \<Rightarrow> nat" where
  "idle_rank sock =
     (case post_stream_state sock of
        DELIM_CHECK \<Rightarrow> (if length (post_stream_hold sock) < 2 then 0 else 3)
      | AFTER_BOUNDARY \<Rightarrow> 2
      | _ \<Rightarrow> 1)"

lemma idle_rank_le: "idle_rank sock \<le> 3"
  by (simp add: idle_rank_def split: stream_state.split)

lemma delim_decide_rank: "idle_rank (delim_decide sock) < 3"
  by (simp add: delim_decide_def idle_rank_def Let_def)

lemma feed_round_rank:
  assumes "feed_round sock ds = (s', ds', False)" "ds \<noteq> []"
  shows "4 * length ds' + idle_rank s' < 4 * length ds + idle_rank sock"
proof -
  have shorter: ?thesis if "length ds' < length ds"
    using that idle_rank_le [of s'] by linarith
  have scanned: ?thesis if "post_stream_state sock = PREAMBLE \<or> post_stream_state sock = PART_DATA"
  proof -
    from that assms obtain needle emit s1 found where
      sc: "scanForNeedle sock needle ds emit = (s1, ds', found)" and
      s': "found \<Longrightarrow> post_stream_state s' = DELIM_CHECK \<and> post_stream_hold s' = post_stream_hold s1"
      by (auto simp: feed_round_def split: prod.splits)
    from scan_rest [OF sc] s' that show ?thesis
      using shorter assms(2) by (cases found) (auto simp: idle_rank_def)
  qed
  consider "post_stream_state sock = PREAMBLE \<or> post_stream_state sock = PART_DATA"
    | "post_stream_state sock = DELIM_CHECK" | "post_stream_state sock = PART_HEADER"
    | "post_stream_state sock = AFTER_BOUNDARY" | "post_stream_state sock = EPILOGUE"
    | "post_stream_state sock = ERROR"
    by (cases "post_stream_state sock") auto
  then show ?thesis
  proof cases
    case 1
    then show ?thesis by (rule scanned)
  next
    case 2
    then have "ds' = drop (2 - length (post_stream_hold sock)) ds"
      and "\<not> length (post_stream_hold sock) < 2 \<longrightarrow> idle_rank s' < 3"
      using assms(1) delim_decide_rank
      by (auto simp: feed_round_def delim_check_def Let_def split: prod.splits if_splits)
    moreover have "length ds' < length ds" if "length (post_stream_hold sock) < 2"
      using that assms(2) calculation(1) by (cases ds) simp_all
    ultimately show ?thesis
      using shorter 2 by (cases "length (post_stream_hold sock) < 2") (auto simp: idle_rank_def)
  next
    case 3
    then obtain s1 ret where c: "collectPartHeader sock ds = (s1, ds', ret)" "\<not> ret < 0"
      using assms(1) by (auto simp: feed_round_def split: prod.splits if_splits)
    show ?thesis
      using shorter collect_rest [OF c(1) assms(2) c(2)] .
  qed (use assms in \<open>auto simp: feed_round_def idle_rank_def after_boundary_def Let_def\<close>)
qed

function feed_loop :: "('u, 'r) post_stream \<Rightarrow> string \<Rightarrow> ('u, 'r) post_stream \<times> bool" where
  "feed_loop sock ds =
     (if ds = [] then (sock, False)
      else (case feed_round sock ds of (sock, ds, err) \<Rightarrow>
              if err then (sock, True) else feed_loop sock ds))"
  by pat_completeness auto
termination
  by (relation "measure (\<lambda>(sock, ds). 4 * length ds + idle_rank sock)")
    (simp_all, metis feed_round_rank)

declare feed_loop.simps [simp del]

definition postStreamFinish :: "('u, 'r) post_stream \<Rightarrow> bool \<Rightarrow> ('u, 'r) post_stream" where
  "postStreamFinish sock success =
     (if \<not> post_streaming_active sock then sock
      else if post_stream_started sock then endPart sock success else sock)"

definition postStreamFeed :: "('u, 'r) post_stream \<Rightarrow> string \<Rightarrow> ('u, 'r) post_stream \<times> int" where
  "postStreamFeed sock data =
     (if \<not> post_streaming_active sock \<or> post_stream_ctx sock = None then (sock, - 1)
      else
        let hdr = header sock;
            sock = sock\<lparr>header := hdr\<lparr>post_buffer_pos := post_buffer_pos hdr + of_nat (length data)\<rparr>\<rparr>
        in case feed_loop sock data of (sock, err) \<Rightarrow>
          if err then (sock, - 1)
          else if ucast (post_buffer_pos (header sock)) \<ge> contentlenght (header sock) then
            (if post_stream_state sock \<noteq> EPILOGUE then (postStreamFinish sock False, - 1) else (sock, 1))
          else (sock, 0))"

subsection \<open>The files of the request\<close>

record upload_file_info =
  upload_name :: string
  upload_data :: "string option"
  upload_length :: nat

definition keep_part :: "('u, 'r) post_stream \<Rightarrow> post_stream_part \<Rightarrow> bool" where
  "keep_part sock part = (is_file part \<and> \<not> post_stream_discard sock \<and> \<not> (is_file part \<and> failed part) \<and>
     \<not> truncated part)"

definition file_info :: "post_stream_part \<Rightarrow> upload_file_info" where
  "file_info part = \<lparr>upload_name = part_name part,
     upload_data = (if capacity part = 0 then None else Some (part_data part)),
     upload_length = part_length part\<rparr>"

definition postStreamFillUploadInfo :: "('u, 'r) post_stream \<Rightarrow> upload_file_info list \<Rightarrow>
    ('u, 'r) post_stream \<times> upload_file_info list" where
  "postStreamFillUploadInfo sock upload_files =
     (if \<not> post_streaming_active sock then (sock, upload_files)
      else (sock\<lparr>post_stream_parts := [], post_stream_current_part := None, post_stream_parts_count := 0\<rparr>,
            upload_files @ map file_info (filter (keep_part sock) (rev (post_stream_parts sock)))))"

definition PostStreamAbort :: "'u post_stream_context \<Rightarrow> 'u post_stream_context" where
  "PostStreamAbort ctx = ctx\<lparr>aborted := True\<rparr>"

definition PostStreamSetUserData :: "'u post_stream_context \<Rightarrow> 'u \<Rightarrow> 'u post_stream_context" where
  "PostStreamSetUserData ctx u = ctx\<lparr>user_data := u\<rparr>"

end
