(* ===== verification/PostStreamMachine.thy ===== *)
theory PostStreamMachine
  imports PostStreaming
begin

text \<open>
  The multipart state machine of \<open>PostStreaming\<close> does not depend on how the body is cut into
  chunks. What a chunk boundary can change is only what is buffered for form fields: a field
  is cut off at the chunk that exceeds a limit, and those buffers never leave the stream
  (\<open>postStreamFillUploadInfo\<close> reports files only). \<open>core\<close> is the state without them and without
  the count of the bytes received, which is followed separately.
\<close>

subsection \<open>The state that chunk boundaries cannot change\<close>

definition blank :: "post_stream_part \<Rightarrow> post_stream_part" where
  "blank p = (if is_file p then p
     else p\<lparr>part_data := [], part_length := 0, capacity := 0, truncated := False\<rparr>)"

definition at_zero :: "HttpRequestHeader \<Rightarrow> HttpRequestHeader" where
  "at_zero hdr = hdr\<lparr>post_buffer_pos := 0\<rparr>"

definition core :: "('u, 'r) post_stream \<Rightarrow> ('u, 'r) post_stream" where
  "core s = s\<lparr>header := at_zero (header s), post_stream_parts := map blank (post_stream_parts s), post_stream_fields_total := 0,
     post_stream_field_limit_logged := False\<rparr>"

lemma blank_fields [simp]: "is_file (blank p) = is_file p" "part_name (blank p) = part_name p"
    "failed (blank p) = failed p" "blank (blank p) = blank p"
  by (simp_all add: blank_def)

lemma blank_file [simp]: "is_file p \<Longrightarrow> blank p = p"
  by (simp add: blank_def)

lemma blank_update:
  "\<not> is_file p \<Longrightarrow> blank (p\<lparr>truncated := b\<rparr>) = blank p"
  "\<not> is_file p \<Longrightarrow> blank (field_append d p) = blank p"
  by (simp_all add: blank_def field_append_def)

lemma at_zero_simps [simp]: "at_zero (hdr\<lparr>post_buffer_pos := p\<rparr>) = at_zero hdr" "at_zero (at_zero hdr) = at_zero hdr"
  by (simp_all add: at_zero_def)

lemma stream_core_fields [simp]:
  "header (core s) = at_zero (header s)" "post_streaming_active (core s) = post_streaming_active s"
  "post_stream_state (core s) = post_stream_state s" "post_stream_ctx (core s) = post_stream_ctx s"
  "post_stream_handler (core s) = post_stream_handler s" "post_stream_delim (core s) = post_stream_delim s"
  "post_stream_hold (core s) = post_stream_hold s" "post_stream_part_header (core s) = post_stream_part_header s"
  "post_stream_part_is_file (core s) = post_stream_part_is_file s"
  "post_stream_started (core s) = post_stream_started s" "post_stream_discard (core s) = post_stream_discard s"
  "post_stream_delim_in_data (core s) = post_stream_delim_in_data s"
  "post_stream_current_part (core s) = post_stream_current_part s"
  "post_stream_parts_count (core s) = post_stream_parts_count s"
  "post_stream_parts (core s) = map blank (post_stream_parts s)"
  by (simp_all add: core_def)

lemma stream_core_core [simp]: "core (core s) = core s"
  by (simp add: core_def)

lemma core_updates [simp]:
  "core (s\<lparr>header := a\<rparr>) = (core s)\<lparr>header := at_zero a\<rparr>"
  "core (s\<lparr>post_stream_state := st\<rparr>) = (core s)\<lparr>post_stream_state := st\<rparr>"
  "core (s\<lparr>post_stream_ctx := c\<rparr>) = (core s)\<lparr>post_stream_ctx := c\<rparr>"
  "core (s\<lparr>post_stream_hold := h\<rparr>) = (core s)\<lparr>post_stream_hold := h\<rparr>"
  "core (s\<lparr>post_stream_part_header := h\<rparr>) = (core s)\<lparr>post_stream_part_header := h\<rparr>"
  "core (s\<lparr>post_stream_part_is_file := b\<rparr>) = (core s)\<lparr>post_stream_part_is_file := b\<rparr>"
  "core (s\<lparr>post_stream_started := b\<rparr>) = (core s)\<lparr>post_stream_started := b\<rparr>"
  "core (s\<lparr>post_stream_delim_in_data := b\<rparr>) = (core s)\<lparr>post_stream_delim_in_data := b\<rparr>"
  "core (s\<lparr>post_stream_current_part := p\<rparr>) = (core s)\<lparr>post_stream_current_part := p\<rparr>"
  "core (s\<lparr>post_stream_parts_count := k\<rparr>) = (core s)\<lparr>post_stream_parts_count := k\<rparr>"
  "core (s\<lparr>post_stream_parts := ps\<rparr>) = (core s)\<lparr>post_stream_parts := map blank ps\<rparr>"
  "core (s\<lparr>post_stream_fields_total := k\<rparr>) = core s"
  "core (s\<lparr>post_stream_field_limit_logged := b\<rparr>) = core s"
  by (simp_all add: core_def)

lemma core_eqD:
  assumes "core s = core t"
  shows "at_zero (header s) = at_zero (header t)" "post_streaming_active s = post_streaming_active t"
    "post_stream_state s = post_stream_state t" "post_stream_ctx s = post_stream_ctx t"
    "post_stream_handler s = post_stream_handler t" "post_stream_delim s = post_stream_delim t"
    "post_stream_hold s = post_stream_hold t" "post_stream_part_header s = post_stream_part_header t"
    "post_stream_part_is_file s = post_stream_part_is_file t"
    "post_stream_started s = post_stream_started t" "post_stream_discard s = post_stream_discard t"
    "post_stream_delim_in_data s = post_stream_delim_in_data t"
    "post_stream_current_part s = post_stream_current_part t"
    "post_stream_parts_count s = post_stream_parts_count t"
    "map blank (post_stream_parts s) = map blank (post_stream_parts t)"
  using arg_cong [OF assms, of header] arg_cong [OF assms, of post_streaming_active]
    arg_cong [OF assms, of post_stream_state] arg_cong [OF assms, of post_stream_ctx]
    arg_cong [OF assms, of post_stream_handler] arg_cong [OF assms, of post_stream_delim]
    arg_cong [OF assms, of post_stream_hold] arg_cong [OF assms, of post_stream_part_header]
    arg_cong [OF assms, of post_stream_part_is_file] arg_cong [OF assms, of post_stream_started]
    arg_cong [OF assms, of post_stream_discard] arg_cong [OF assms, of post_stream_delim_in_data]
    arg_cong [OF assms, of post_stream_current_part] arg_cong [OF assms, of post_stream_parts_count]
    arg_cong [OF assms, of post_stream_parts]
  by simp_all

subsection \<open>Payload\<close>

text \<open>What \<open>emitPartData\<close> does to the core: the bytes of a file go to the context.\<close>

definition receive_chunk :: "('u, 'r) post_stream \<Rightarrow> 'u post_stream_context \<Rightarrow> string \<Rightarrow> 'u post_stream_context" where
  "receive_chunk s ctx d =
     (let ctx = ctx\<lparr>received_length := received_length ctx + length d\<rparr>
      in if post_stream_discard s then ctx else call_chunk s ctx d)"

definition emit_file :: "('u, 'r) post_stream \<Rightarrow> string \<Rightarrow> ('u, 'r) post_stream" where
  "emit_file s d =
     (case post_stream_ctx s of None \<Rightarrow> s
      | Some ctx \<Rightarrow>
          if d = [] \<or> aborted ctx \<or> \<not> post_stream_part_is_file s then s
          else s\<lparr>post_stream_ctx := Some (receive_chunk s ctx d)\<rparr>)"

lemma receive_chunk_core: "receive_chunk (core s) = receive_chunk s"
  by (simp add: receive_chunk_def call_chunk_def fun_eq_iff Let_def)

lemma map_blank_update:
  "\<not> is_file (xs ! i) \<Longrightarrow> blank y = blank (xs ! i) \<Longrightarrow> map blank (xs[i := y]) = map blank xs"
  by (metis list_update_id map_update)

lemma core_emit: "core (emitPartData s d) = emit_file (core s) d"
  by (auto simp: emitPartData_def emit_file_def Let_def receive_chunk_core map_blank_update blank_update
      core_def receive_chunk_def call_chunk_def split: option.split)

lemma emit_keeps [simp]:
  "header (emitPartData s d) = header s" "post_streaming_active (emitPartData s d) = post_streaming_active s"
  "post_stream_state (emitPartData s d) = post_stream_state s"
  "post_stream_handler (emitPartData s d) = post_stream_handler s"
  "post_stream_delim (emitPartData s d) = post_stream_delim s"
  "post_stream_part_header (emitPartData s d) = post_stream_part_header s"
  "post_stream_part_is_file (emitPartData s d) = post_stream_part_is_file s"
  "post_stream_started (emitPartData s d) = post_stream_started s"
  "post_stream_discard (emitPartData s d) = post_stream_discard s"
  "post_stream_delim_in_data (emitPartData s d) = post_stream_delim_in_data s"
  "post_stream_current_part (emitPartData s d) = post_stream_current_part s"
  "post_stream_parts_count (emitPartData s d) = post_stream_parts_count s"
  "length (post_stream_parts (emitPartData s d)) = length (post_stream_parts s)"
  by (simp_all add: emitPartData_def Let_def split: option.split)

lemma emit_cong: "core s = core t \<Longrightarrow> core (emitPartData s d) = core (emitPartData t d)"
  by (simp add: core_emit)

lemma emit_Nil [simp]: "emitPartData s [] = s"
  by (simp add: emitPartData_def split: option.split)

text \<open>
  The contract of a handler that stores what it is given: a chunk extends its user data, and it
  does not matter in how many pieces the bytes arrive. It may abort in \<open>on_start\<close> and \<open>on_end\<close>.
\<close>

definition stores_with :: "('u \<Rightarrow> string \<Rightarrow> 'u) \<Rightarrow> ('u, 'r) post_stream_handler_entry \<Rightarrow> bool" where
  "stores_with write h \<longleftrightarrow>
     on_chunk h = (\<lambda>ctx d. ctx\<lparr>user_data := write (user_data ctx) d\<rparr>) \<and>
     (\<forall>u a b. write (write u a) b = write u (a @ b))"

definition storing :: "('u, 'r) post_stream \<Rightarrow> bool" where
  "storing s \<longleftrightarrow> (\<exists>write h. post_stream_handler s = Some h \<and> stores_with write h)"

lemma emit_file_append: "storing s \<Longrightarrow> emit_file (emit_file s a) b = emit_file s (a @ b)"
  by (auto simp: storing_def stores_with_def emit_file_def receive_chunk_def call_chunk_def Let_def
      split: option.split)

lemma storing_core [simp]: "storing (core s) \<longleftrightarrow> storing s"
  by (simp add: storing_def)

lemma emit_append:
  "storing s \<Longrightarrow> core (emitPartData (emitPartData s a) b) = core (emitPartData s (a @ b))"
  by (simp add: core_emit emit_file_append)

subsection \<open>The search\<close>

text \<open>The part of the state that payload and search leave alone.\<close>

definition frame :: "('u, 'r) post_stream \<Rightarrow> ('u, 'r) post_stream" where
  "frame s = s\<lparr>post_stream_hold := [], post_stream_ctx := None, post_stream_parts := [],
     post_stream_fields_total := 0, post_stream_field_limit_logged := False\<rparr>"

lemma frame_emit [simp]: "frame (emitPartData s d) = frame s"
  by (simp add: emitPartData_def frame_def Let_def split: option.split)

lemma frame_updates [simp]: "frame (s\<lparr>post_stream_hold := h\<rparr>) = frame s"
  by (simp add: frame_def)

lemma frame_eqD:
  assumes "frame s = frame t"
  shows "header s = header t" "post_streaming_active s = post_streaming_active t"
    "post_stream_state s = post_stream_state t" "post_stream_handler s = post_stream_handler t"
    "post_stream_delim s = post_stream_delim t" "post_stream_part_header s = post_stream_part_header t"
    "post_stream_hold_size s = post_stream_hold_size t"
    "post_stream_part_is_file s = post_stream_part_is_file t"
    "post_stream_started s = post_stream_started t" "post_stream_discard s = post_stream_discard t"
    "post_stream_delim_in_data s = post_stream_delim_in_data t"
    "post_stream_current_part s = post_stream_current_part t"
    "post_stream_parts_count s = post_stream_parts_count t"
  using arg_cong [OF assms, of header] arg_cong [OF assms, of post_streaming_active]
    arg_cong [OF assms, of post_stream_state] arg_cong [OF assms, of post_stream_hold_size]
    arg_cong [OF assms, of post_stream_handler] arg_cong [OF assms, of post_stream_delim]
    arg_cong [OF assms, of post_stream_part_header]
    arg_cong [OF assms, of post_stream_part_is_file] arg_cong [OF assms, of post_stream_started]
    arg_cong [OF assms, of post_stream_discard] arg_cong [OF assms, of post_stream_delim_in_data]
    arg_cong [OF assms, of post_stream_current_part] arg_cong [OF assms, of post_stream_parts_count]
  by (simp_all add: frame_def)

lemma rebase_stop:
  "post_stream_hold s = take (length (post_stream_hold s)) n \<Longrightarrow> rebaseHold s n = s"
  by (subst rebaseHold.simps) (simp add: Let_def)

lemma rebase_step:
  assumes "post_stream_hold s = c # h" "c # h \<noteq> take (length (c # h)) n"
  shows "rebaseHold s n = rebaseHold ((emitPartData s [c])\<lparr>post_stream_hold := h\<rparr>) n"
  using assms by (subst rebaseHold.simps) (simp add: Let_def)

lemma rebase_cases:
  obtains (stop) "post_stream_hold s = take (length (post_stream_hold s)) n" "rebaseHold s n = s"
  | (step) c h where "post_stream_hold s = c # h" "c # h \<noteq> take (length (c # h)) n"
    "rebaseHold s n = rebaseHold ((emitPartData s [c])\<lparr>post_stream_hold := h\<rparr>) n"
  using rebase_stop [of s n] rebase_step [of s _ _ n] by (cases "post_stream_hold s") auto

lemma frame_rebase [simp]: "frame (rebaseHold s n) = frame s"
proof (induction "length (post_stream_hold s)" arbitrary: s)
  case 0
  then show ?case by (simp add: rebase_stop)
next
  case (Suc k)
  show ?case
    by (rule rebase_cases [of s n]) (use Suc in auto)
qed

lemma rebase_cong: "core s = core t \<Longrightarrow> core (rebaseHold s n) = core (rebaseHold t n)"
proof (induction "length (post_stream_hold s)" arbitrary: s t)
  case 0
  then show ?case
    using core_eqD(7) [OF "0.prems"] by (simp add: rebase_stop)
next
  case (Suc k)
  note hold = core_eqD(7) [OF Suc.prems]
  show ?case
  proof (rule rebase_cases [of s n])
    fix c h
    assume st: "post_stream_hold s = c # h" "c # h \<noteq> take (length (c # h)) n"
      "rebaseHold s n = rebaseHold ((emitPartData s [c])\<lparr>post_stream_hold := h\<rparr>) n"
    have "core ((emitPartData s [c])\<lparr>post_stream_hold := h\<rparr>) = core ((emitPartData t [c])\<lparr>post_stream_hold := h\<rparr>)"
      using emit_cong [OF Suc.prems] by simp
    with Suc.hyps st show ?thesis
      using rebase_step [of t c h n] hold by simp
  qed (use Suc.prems hold rebase_stop in metis)
qed

lemma mismatch_cong: "core s = core t \<Longrightarrow> core (mismatch s n e) = core (mismatch t n e)"
  using core_eqD(7) [of s t] emit_cong [of s t "[hd (post_stream_hold t)]"]
  by (auto simp: mismatch_def Let_def intro!: rebase_cong)

lemma frame_mismatch [simp]: "frame (mismatch s n e) = frame s"
  by (simp add: mismatch_def Let_def)

lemma skip_cong:
  "core s = core t \<Longrightarrow> core (fst (skip_to s n ds e)) = core (fst (skip_to t n ds e)) \<and>
    snd (skip_to s n ds e) = snd (skip_to t n ds e)"
  using core_eqD(7) [of s t] emit_cong [of s t] by (auto simp: skip_to_def Let_def)

lemma frame_skip [simp]: "frame (fst (skip_to s n ds e)) = frame s"
  by (simp add: skip_to_def Let_def)

text \<open>Induction over the rounds of the search, with the round's intermediate results named.\<close>

lemma scan_induct [case_names empty skipped found out mismatch]:
  assumes empty: "\<And>s. P s []"
    and skipped: "\<And>s ds s1. \<lbrakk>ds \<noteq> []; skip_to s n ds e = (s1, [])\<rbrakk> \<Longrightarrow> P s ds"
    and found: "\<And>s ds s1 ds1 hold rest. \<lbrakk>ds \<noteq> []; skip_to s n ds e = (s1, ds1); ds1 \<noteq> [];
        fill_hold (post_stream_hold s1) n ds1 = (hold, rest); length hold = length n\<rbrakk> \<Longrightarrow> P s ds"
    and out: "\<And>s ds s1 ds1 hold. \<lbrakk>ds \<noteq> []; skip_to s n ds e = (s1, ds1); ds1 \<noteq> [];
        fill_hold (post_stream_hold s1) n ds1 = (hold, []); length hold \<noteq> length n\<rbrakk> \<Longrightarrow> P s ds"
    and mismatch: "\<And>s ds s1 ds1 hold rest. \<lbrakk>ds \<noteq> []; skip_to s n ds e = (s1, ds1); ds1 \<noteq> [];
        fill_hold (post_stream_hold s1) n ds1 = (hold, rest); length hold \<noteq> length n; rest \<noteq> [];
        P (mismatch (s1\<lparr>post_stream_hold := hold\<rparr>) n e) rest\<rbrakk> \<Longrightarrow> P s ds"
  shows "P s ds"
proof -
  have "m = n \<Longrightarrow> e' = e \<Longrightarrow> P s ds" for s m ds e'
  proof (induction s m ds e' rule: scanForNeedle.induct)
    case (1 s m ds e')
    obtain s1 ds1 where sk: "skip_to s n ds e = (s1, ds1)"
      by fastforce
    obtain hold rest where f: "fill_hold (post_stream_hold s1) n ds1 = (hold, rest)"
      by fastforce
    have sk': "(s1, ds1) = skip_to s m ds e'" and f': "(hold, rest) = fill_hold (post_stream_hold s1) m ds1"
      using sk f "1.prems" by simp_all
    note IH = "1.IH" [OF _ sk' refl _ f' refl refl _ _ "1.prems"]
    consider "ds = []" | "ds \<noteq> []" "ds1 = []" | "ds \<noteq> []" "ds1 \<noteq> []" "length hold = length n"
      | "ds \<noteq> []" "ds1 \<noteq> []" "length hold \<noteq> length n" "rest = []"
      | "ds \<noteq> []" "ds1 \<noteq> []" "length hold \<noteq> length n" "rest \<noteq> []"
      by blast
    then show ?case
    proof cases
      case 1
      with empty show ?thesis by simp
    next
      case 2
      with skipped [of ds s s1] sk show ?thesis by simp
    next
      case 3
      from found [OF 3(1) sk 3(2) f 3(3)] show ?thesis .
    next
      case 4
      with out [OF 4(1) sk 4(2), of hold] f show ?thesis by simp
    next
      case 5
      then have "P (mismatch (s1\<lparr>post_stream_hold := hold\<rparr>) n e) rest"
        using IH "1.prems" by simp
      with mismatch [OF 5(1) sk 5(2) f 5(3,4)] show ?thesis .
    qed
  qed
  then show ?thesis by blast
qed

lemma scan_empty [simp]: "scanForNeedle s n [] e = (s, [], False)"
  by (simp add: scanForNeedle.simps)

lemma frame_scan: "frame (fst (scanForNeedle s n ds e)) = frame s"
proof (induction s ds rule: scan_induct [where n = n and e = e])
  case (skipped s ds s1)
  then show ?case
    using scan_unfold [OF skipped(2) surjective_pairing skipped(1)] frame_skip [of s n ds e] by simp
next
  case (found s ds s1 ds1 hold rest)
  then show ?case
    using scan_unfold [OF found(2,4,1)] frame_skip [of s n ds e] by simp
next
  case (out s ds s1 ds1 hold)
  then show ?case
    using scan_unfold [OF out(2,4,1)] frame_skip [of s n ds e] by simp
next
  case (mismatch s ds s1 ds1 hold rest)
  then show ?case
    using scan_unfold [OF mismatch(2,4,1)] frame_skip [of s n ds e] by simp
qed simp

lemma scan_cong:
  "core s = core t \<Longrightarrow>
    core (fst (scanForNeedle s n ds e)) = core (fst (scanForNeedle t n ds e)) \<and>
    snd (scanForNeedle s n ds e) = snd (scanForNeedle t n ds e)"
proof (induction s ds arbitrary: t rule: scan_induct [where n = n and e = e])
  case (skipped s ds s1)
  obtain t1 where t: "skip_to t n ds e = (t1, [])" "core s1 = core t1"
    using skip_cong [OF skipped(3), of n ds e] skipped(2) by (cases "skip_to t n ds e") auto
  then show ?case
    using scan_unfold [OF skipped(2) surjective_pairing skipped(1)]
      scan_unfold [OF t(1) surjective_pairing skipped(1)] by simp
next
  case (found s ds s1 ds1 hold rest)
  obtain t1 where t: "skip_to t n ds e = (t1, ds1)" "core s1 = core t1"
    using skip_cong [OF found(6), of n ds e] found(2) by (cases "skip_to t n ds e") auto
  with found show ?case
    using scan_unfold [OF found(2,4,1)] scan_unfold [OF t(1) _ found(1), of hold rest] core_eqD(7) [OF t(2)]
    by simp
next
  case (out s ds s1 ds1 hold)
  obtain t1 where t: "skip_to t n ds e = (t1, ds1)" "core s1 = core t1"
    using skip_cong [OF out(6), of n ds e] out(2) by (cases "skip_to t n ds e") auto
  with out show ?case
    using scan_unfold [OF out(2,4,1)] scan_unfold [OF t(1) _ out(1), of hold "[]"] core_eqD(7) [OF t(2)]
    by simp
next
  case (mismatch s ds s1 ds1 hold rest)
  obtain t1 where t: "skip_to t n ds e = (t1, ds1)" "core s1 = core t1"
    using skip_cong [OF mismatch(8), of n ds e] mismatch(2) by (cases "skip_to t n ds e") auto
  have "core (mismatch (s1\<lparr>post_stream_hold := hold\<rparr>) n e) = core (mismatch (t1\<lparr>post_stream_hold := hold\<rparr>) n e)"
    by (rule mismatch_cong) (simp add: t(2))
  from mismatch(7) [OF this] show ?case
    using scan_unfold [OF mismatch(2,4,1)] scan_unfold [OF t(1) _ mismatch(1), of hold rest] core_eqD(7) [OF t(2)]
      mismatch(3-6) by simp
qed simp

text \<open>A search over two pieces, one after the other.\<close>

lemma storing_frame: "frame s = frame t \<Longrightarrow> storing s \<longleftrightarrow> storing t"
  using frame_eqD(4) [of s t] by (simp add: storing_def)

lemma fill_append:
  "fill_hold h n a = (g, r) \<Longrightarrow> fill_hold h n (a @ b) = (if r = [] then fill_hold g n b else (g, r @ b))"
  by (induction h n a rule: fill_hold.induct) (auto split: if_splits)

lemma fill_full: "length n \<le> length h \<Longrightarrow> fill_hold h n b = (h, b)"
  by (cases b) auto

lemma skip_append:
  "skip_to s n a e = (s1, a1) \<Longrightarrow> a1 \<noteq> [] \<Longrightarrow> skip_to s n (a @ b) e = (s1, a1 @ b)"
  by (auto simp: skip_to_def Let_def dropWhile_append dropWhile_eq_Nil_conv takeWhile_append split: if_splits)

lemma skip_all:
  assumes "storing s" "skip_to s n a e = (s1, [])" "a \<noteq> []"
  shows "core (fst (skip_to s n (a @ b) e)) = core (fst (skip_to s1 n b e)) \<and>
    snd (skip_to s n (a @ b) e) = snd (skip_to s1 n b e)"
proof -
  have hold: "post_stream_hold s = []" and all: "\<forall>c \<in> set a. c \<noteq> cget n 0"
    using assms(2,3) by (auto simp: skip_to_def Let_def split: if_splits)
  have s1: "s1 = (if e then emitPartData s a else s)"
    using assms(2) hold all by (auto simp: skip_to_def Let_def takeWhile_eq_all_conv [THEN iffD2])
  show ?thesis
    using hold all emit_append [OF assms(1), of a] s1
    by (simp add: skip_to_def Let_def takeWhile_append2 dropWhile_append2)
qed

lemma scan_skip_cong:
  assumes "skip_to s n ds e = (s1, r)" "skip_to t n ds' e = (t1, r)" "ds \<noteq> []" "ds' \<noteq> []" "core s1 = core t1"
  shows "core (fst (scanForNeedle s n ds e)) = core (fst (scanForNeedle t n ds' e)) \<and>
    snd (scanForNeedle s n ds e) = snd (scanForNeedle t n ds' e)"
proof -
  obtain hold rest where f: "fill_hold (post_stream_hold s1) n r = (hold, rest)"
    by fastforce
  then have f': "fill_hold (post_stream_hold t1) n r = (hold, rest)"
    using core_eqD(7) [OF assms(5)] by simp
  have "core (mismatch (s1\<lparr>post_stream_hold := hold\<rparr>) n e) = core (mismatch (t1\<lparr>post_stream_hold := hold\<rparr>) n e)"
    by (rule mismatch_cong) (simp add: assms(5))
  note c = scan_cong [OF this, of n rest e]
  show ?thesis
    unfolding scan_unfold [OF assms(1) f assms(3)] scan_unfold [OF assms(2) f' assms(4)]
    using assms(5) c by simp
qed

lemma scan_append:
  "storing s \<Longrightarrow> scanForNeedle s n a e = (s', r, f) \<Longrightarrow>
    (if f then core (fst (scanForNeedle s n (a @ b) e)) = core s' \<and>
        snd (scanForNeedle s n (a @ b) e) = (r @ b, True)
     else core (fst (scanForNeedle s n (a @ b) e)) = core (fst (scanForNeedle s' n b e)) \<and>
        snd (scanForNeedle s n (a @ b) e) = snd (scanForNeedle s' n b e))"
proof (induction s a rule: scan_induct [where n = n and e = e])
  case (skipped s ds s1)
  have s': "s' = s1" "\<not> f"
    using skipped(4) scan_unfold [OF skipped(2) surjective_pairing skipped(1)] by simp_all
  have r: "r = []"
    using scan_rest [OF skipped(4)] s' by simp
  show ?case
  proof (cases "b = []")
    case True
    with skipped(4) s' r show ?thesis by simp
  next
    case False
    note sk = skip_all [OF skipped(3,2,1), of b]
    obtain u x t where "skip_to s n (ds @ b) e = (u, x)" "skip_to s1 n b e = (t, x)" "core u = core t"
      using sk by (cases "skip_to s n (ds @ b) e"; cases "skip_to s1 n b e") auto
    from scan_skip_cong [OF this(1,2) _ False this(3)] show ?thesis
      using s' False by simp
  qed
next
  case (found s ds s1 ds1 hold rest)
  note sk = skip_append [OF found(2,3), of b]
  have "fill_hold (post_stream_hold s1) n (ds1 @ b) = (hold, rest @ b)"
    using fill_append [OF found(4), of b] fill_full [of n hold b] found(5) by simp
  from scan_unfold [OF sk this] scan_unfold [OF found(2,4,1)] show ?case
    using found(1,3,5,7) by simp
next
  case (out s ds s1 ds1 hold)
  have s': "s' = s1\<lparr>post_stream_hold := hold\<rparr>" "\<not> f" "r = []"
    using out(3,5,7) scan_unfold [OF out(2,4,1)] by simp_all
  have hold: "hold \<noteq> []"
    using fill_hold_skipped [OF out(2,3,4,5)] by simp
  obtain g x where g: "fill_hold hold n b = (g, x)"
    by fastforce
  have f: "fill_hold (post_stream_hold s1) n (ds1 @ b) = (g, x)"
    using fill_append [OF out(4), of b] g by simp
  show ?case
  proof (cases "b = []")
    case True
    with out(7) s' show ?thesis by simp
  next
    case False
    have "skip_to s' n b e = (s', b)"
      using hold by (simp add: skip_to_def s')
    then have "scanForNeedle s' n b e = scanForNeedle s n (ds @ b) e"
      using scan_unfold [of s' n b e s' b g x] scan_unfold [OF skip_append [OF out(2,3), of b] f] g False out(1,3)
      by (simp add: s')
    then show ?thesis
      using s' by simp
  qed
next
  case (mismatch s ds s1 ds1 hold rest)
  note sk = skip_append [OF mismatch(2,3), of b]
  have f: "fill_hold (post_stream_hold s1) n (ds1 @ b) = (hold, rest @ b)"
    using fill_append [OF mismatch(4), of b] mismatch(6) by simp
  let ?m = "mismatch (s1\<lparr>post_stream_hold := hold\<rparr>) n e"
  have st: "storing ?m"
    using mismatch(8) storing_frame [of ?m s] frame_skip [of s n ds e] mismatch(2) by simp
  have eq: "scanForNeedle s n ds e = scanForNeedle ?m n rest e"
    using scan_unfold [OF mismatch(2,4,1)] mismatch(3,5,6) by simp
  have eq': "scanForNeedle s n (ds @ b) e = scanForNeedle ?m n (rest @ b) e"
    using scan_unfold [OF sk f] mismatch(1,3,5,6) by simp
  show ?case
    using mismatch(7) [OF st mismatch(9) [unfolded eq]] unfolding eq' .
qed simp

subsection \<open>The other transitions\<close>

lemma call_cong: "post_stream_handler s = post_stream_handler t \<Longrightarrow>
    call_start s = call_start t \<and> call_chunk s = call_chunk t \<and> call_end s = call_end t"
  by (simp add: call_start_def call_chunk_def call_end_def fun_eq_iff)

lemma blank_new_part [simp]: "blank (new_part ctx) = new_part ctx"
  by (simp add: blank_def new_part_def)

lemma enter_cong:
  assumes "core s = core t"
  shows "core (enter_part s ctx) = core (enter_part t ctx)"
  unfolding enter_part_def Let_def call_start_def
  by (simp add: assms core_eqD [OF assms])

lemma at_zero_eqD:
  "at_zero a = at_zero b \<Longrightarrow> error a = error b"
  "at_zero a = at_zero b \<Longrightarrow> Content_Disposition a = Content_Disposition b"
  "at_zero a = at_zero b \<Longrightarrow> contentlenght a = contentlenght b"
  unfolding at_zero_def by (drule arg_cong [of _ _ error] arg_cong [of _ _ Content_Disposition]
      arg_cong [of _ _ contentlenght]; simp; fail)+

lemma at_zero_updates:
  "at_zero (hdr\<lparr>error := e\<rparr>) = (at_zero hdr)\<lparr>error := e\<rparr>"
  "at_zero (hdr\<lparr>Content_Disposition := v\<rparr>) = (at_zero hdr)\<lparr>Content_Disposition := v\<rparr>"
  "at_zero (hdr\<lparr>Content_Type := v\<rparr>) = (at_zero hdr)\<lparr>Content_Type := v\<rparr>"
  by (rule HttpRequestHeader.equality; simp add: at_zero_def)+

lemma analyse_at_zero:
  "snd (analyse_form_loop off l n (at_zero hdr)) = at_zero (snd (analyse_form_loop off l n hdr))"
proof (induction off l n hdr rule: analyse_form_loop.induct)
  case (1 off l n hdr)
  show ?case
    using 1 unfolding analyse_form_loop.simps [of off l n hdr] analyse_form_loop.simps [of off l n "at_zero hdr"]
    by (auto simp: at_zero_updates split: option.split)
qed

lemma parse_cong:
  assumes "at_zero (header s) = at_zero (header t)" "post_stream_part_header s = post_stream_part_header t"
  shows "at_zero (parse_part_header s) = at_zero (parse_part_header t)"
proof -
  have "at_zero (parse_part_header u) = snd (analyse_form_loop 0 (post_stream_part_header u)
      (length (post_stream_part_header u))
      ((at_zero (header u))\<lparr>Content_Disposition := None, Content_Type := None\<rparr>))" for u :: "('u, 'r) post_stream"
    unfolding parse_part_header_def analyseFormDataLine_def analyse_at_zero [symmetric] at_zero_updates ..
  then show ?thesis
    using assms by metis
qed

definition named_part :: "HttpRequestHeader \<Rightarrow> 'u post_stream_context \<Rightarrow> ('u, 'r) post_stream \<Rightarrow> ('u, 'r) post_stream" where
  "named_part hdr ctx s = s\<lparr>post_stream_current_part := None, header := hdr,
     post_stream_part_is_file := (file_name ctx \<noteq> None), post_stream_ctx := Some ctx\<rparr>"

lemma begin_eq:
  assumes "post_stream_ctx s = Some ctx" "parse_part_header (s\<lparr>post_stream_current_part := None\<rparr>) = hdr"
  shows "beginPart s =
    (if aborted ctx then (s\<lparr>post_stream_current_part := None, post_stream_part_is_file := False\<rparr>, True)
     else if error hdr \<noteq> 0 then (s\<lparr>post_stream_current_part := None, header := hdr\<rparr>, False)
     else if post_stream_discard s then (named_part hdr (name_part hdr ctx) s, True)
     else (enter_part (named_part hdr (name_part hdr ctx) s) (name_part hdr ctx), True))"
  unfolding beginPart_def Let_def named_part_def assms(2) by (simp add: assms(1))

lemma named_cong:
  "core s = core t \<Longrightarrow> at_zero h = at_zero k \<Longrightarrow> core (named_part h ctx s) = core (named_part k ctx t)"
  by (simp add: named_part_def)

lemma begin_cong:
  assumes "core s = core t"
  shows "core (fst (beginPart s)) = core (fst (beginPart t)) \<and> snd (beginPart s) = snd (beginPart t)"
proof (cases "post_stream_ctx t")
  case None
  then show ?thesis
    using assms core_eqD(4) [OF assms] by (simp add: beginPart_def)
next
  case (Some ctx)
  then have S: "post_stream_ctx s = Some ctx"
    using core_eqD(4) [OF assms] by simp
  obtain hs ht where hs: "parse_part_header (s\<lparr>post_stream_current_part := None\<rparr>) = hs"
    and ht: "parse_part_header (t\<lparr>post_stream_current_part := None\<rparr>) = ht"
    by blast
  have h: "at_zero hs = at_zero ht"
    unfolding hs [symmetric] ht [symmetric] by (rule parse_cong) (simp_all add: core_eqD [OF assms])
  have c: "name_part hs ctx = name_part ht ctx"
    by (simp add: name_part_def at_zero_eqD(2) [OF h])
  note n = named_cong [OF assms h, of "name_part ht ctx"]
  show ?thesis
    unfolding begin_eq [OF S hs] begin_eq [OF Some ht] c at_zero_eqD(1) [OF h] core_eqD(11) [OF assms]
    using assms h n enter_cong [OF n, of "name_part ht ctx"] by simp
qed

lemma end_entry_blank: "end_entry ok ctx (blank p) = blank (end_entry ok ctx p)"
  by (simp add: end_entry_def blank_def)

lemma end_entries_blank:
  "map blank (xs[i := end_entry ok ctx (xs ! i)]) = (map blank xs)[i := end_entry ok ctx (map blank xs ! i)]"
  by (cases "i < length xs") (simp_all add: map_update end_entry_blank not_less list_update_beyond)

lemma end_call_core [simp]: "end_call (core s) = end_call s"
  by (simp add: end_call_def call_end_def fun_eq_iff)

lemma core_end: "core (endPart s success) = endPart (core s) success"
  by (cases "post_stream_ctx s"; cases "post_stream_current_part s")
    (simp_all add: endPart_def Let_def end_entries_blank)

lemma end_cong: "core s = core t \<Longrightarrow> core (endPart s success) = core (endPart t success)"
  by (simp add: core_end)

lemma core_after: "core (after_boundary s) = after_boundary (core s)"
  by (cases "post_stream_ctx s") (simp_all add: after_boundary_def Let_def)

lemma after_cong: "core s = core t \<Longrightarrow> core (after_boundary s) = core (after_boundary t)"
  by (simp add: core_after)

lemma decide_cong:
  assumes "core s = core t"
  shows "core (delim_decide s) = core (delim_decide t)"
proof -
  have "core (rebaseHold (emitPartData s d) d) = core (rebaseHold (emitPartData t d) d)" for d
    by (intro rebase_cong emit_cong assms)
  moreover have "core (endPart (s\<lparr>post_stream_hold := []\<rparr>) True) = core (endPart (t\<lparr>post_stream_hold := []\<rparr>) True)"
    by (rule end_cong) (simp add: assms)
  ultimately show ?thesis
    using assms by (simp add: delim_decide_def Let_def core_eqD [OF assms])
qed

lemma check_cong:
  assumes "core s = core t"
  shows "core (fst (delim_check s ds)) = core (fst (delim_check t ds)) \<and> snd (delim_check s ds) = snd (delim_check t ds)"
proof -
  have "core (delim_decide (s\<lparr>post_stream_hold := h\<rparr>)) = core (delim_decide (t\<lparr>post_stream_hold := h\<rparr>))" for h
    by (rule decide_cong) (simp add: assms)
  then show ?thesis
    using assms by (simp add: delim_check_def Let_def core_eqD [OF assms])
qed

lemma core_push: "core (header_push s d) = header_push (core s) d"
  by (simp add: header_push_def header_full_def Let_def)

lemma push_cong: "core s = core t \<Longrightarrow> core (header_push s d) = core (header_push t d)"
  by (simp add: core_push)

lemma collect_cong:
  "core s = core t \<Longrightarrow> core (fst (collectPartHeader s ds)) = core (fst (collectPartHeader t ds)) \<and>
    snd (collectPartHeader s ds) = snd (collectPartHeader t ds)"
proof (induction ds arbitrary: s t)
  case (Cons d ds)
  note p = push_cong [OF Cons.prems, of d]
  have "header_ends (header_push s d) = header_ends (header_push t d)"
    using core_eqD(8) [OF p] by (simp add: header_ends_def)
  moreover have "header_full s = header_full t" "header_is_discarded s = header_is_discarded t"
    using core_eqD [OF Cons.prems] by (simp_all add: header_full_def header_is_discarded_def)
  ultimately show ?case
    using Cons.prems p Cons.IH [OF p] by (simp add: Let_def)
qed simp

lemma collect_append:
  "collectPartHeader s a = (s', r, ret) \<Longrightarrow>
    (if ret = 0 then r = [] \<and> collectPartHeader s (a @ b) = collectPartHeader s' b
     else collectPartHeader s (a @ b) = (s', r @ b, ret))"
  by (induction s a rule: collectPartHeader.induct) (auto simp: Let_def split: if_splits)

lemma round_cong:
  assumes "core s = core t"
  shows "core (fst (feed_round s ds)) = core (fst (feed_round t ds)) \<and> snd (feed_round s ds) = snd (feed_round t ds)"
proof (cases "post_stream_state s")
  case PART_HEADER
  obtain s1 t1 r ret where c: "collectPartHeader s ds = (s1, r, ret)" "collectPartHeader t ds = (t1, r, ret)"
      "core s1 = core t1"
    using collect_cong [OF assms, of ds]
    by (cases "collectPartHeader s ds"; cases "collectPartHeader t ds") auto
  obtain s2 t2 ok where "beginPart s1 = (s2, ok)" "beginPart t1 = (t2, ok)" "core s2 = core t2"
    using begin_cong [OF c(3)] by (cases "beginPart s1"; cases "beginPart t1") auto
  with c PART_HEADER core_eqD(3) [OF assms] show ?thesis
    by (simp add: feed_round_def)
next
  case PREAMBLE
  let ?n = "drop 2 (post_stream_delim t)"
  obtain s1 t1 r f where "scanForNeedle s ?n ds False = (s1, r, f)" "scanForNeedle t ?n ds False = (t1, r, f)"
      "core s1 = core t1"
    using scan_cong [OF assms, of ?n ds False]
    by (cases "scanForNeedle s ?n ds False"; cases "scanForNeedle t ?n ds False") auto
  with PREAMBLE core_eqD(3,6) [OF assms] show ?thesis
    by (simp add: feed_round_def)
next
  case PART_DATA
  let ?n = "post_stream_delim t"
  obtain s1 t1 r f where "scanForNeedle s ?n ds True = (s1, r, f)" "scanForNeedle t ?n ds True = (t1, r, f)"
      "core s1 = core t1"
    using scan_cong [OF assms, of ?n ds True]
    by (cases "scanForNeedle s ?n ds True"; cases "scanForNeedle t ?n ds True") auto
  with PART_DATA core_eqD(3,6) [OF assms] show ?thesis
    by (simp add: feed_round_def)
next
  case DELIM_CHECK
  with core_eqD(3) [OF assms] check_cong [OF assms, of ds] show ?thesis
    by (simp add: feed_round_def case_prod_unfold)
next
  case AFTER_BOUNDARY
  with core_eqD(3) [OF assms] after_cong [OF assms] show ?thesis
    by (simp add: feed_round_def)
qed (use assms core_eqD(3) [OF assms] in \<open>simp_all add: feed_round_def\<close>)

subsection \<open>The loop over two pieces\<close>

lemma handler_kept:
  "post_stream_handler (rebaseHold s n) = post_stream_handler s"
  "post_stream_handler (fst (scanForNeedle s n ds e)) = post_stream_handler s"
  by (rule frame_eqD(4), simp add: frame_scan)+

lemma handler_end [simp]: "post_stream_handler (endPart s ok) = post_stream_handler s"
  by (simp add: endPart_def Let_def split: option.split)

lemma handler_begin [simp]: "post_stream_handler (fst (beginPart s)) = post_stream_handler s"
  by (simp add: beginPart_def enter_part_def Let_def split: option.split)

lemma collect_state: "post_stream_state (fst (collectPartHeader s ds)) = post_stream_state s"
  by (induction s ds rule: collectPartHeader.induct) (simp_all add: Let_def header_push_def)

lemma handler_collect [simp]: "post_stream_handler (fst (collectPartHeader s ds)) = post_stream_handler s"
  by (induction s ds rule: collectPartHeader.induct) (simp_all add: Let_def header_push_def)

lemma handler_after [simp]: "post_stream_handler (after_boundary s) = post_stream_handler s"
  by (simp add: after_boundary_def Let_def split: option.split)

lemma handler_decide [simp]: "post_stream_handler (delim_decide s) = post_stream_handler s"
  by (simp add: delim_decide_def Let_def handler_kept)

lemma handler_round: "post_stream_handler (fst (feed_round s ds)) = post_stream_handler s"
proof (cases "post_stream_state s")
  case PART_HEADER
  obtain s1 r ret where c: "collectPartHeader s ds = (s1, r, ret)"
    using prod_cases3 by blast
  obtain s2 ok where b: "beginPart s1 = (s2, ok)"
    by fastforce
  show ?thesis
    using PART_HEADER handler_collect [of s ds] handler_begin [of s1]
    by (simp add: feed_round_def c b)
qed (use handler_kept(2) in \<open>simp_all add: feed_round_def delim_check_def Let_def case_prod_unfold\<close>)

text \<open>A round over two pieces either is done within the first or goes on in the second.\<close>

lemma round_append:
  assumes st: "storing s" and a: "a \<noteq> []" and b: "b \<noteq> []" and r: "feed_round s a = (s', r, err)"
  shows "(core (fst (feed_round s (a @ b))) = core s' \<and> snd (feed_round s (a @ b)) = (r @ b, err)) \<or>
    (r = [] \<and> \<not> err \<and> core (fst (feed_round s (a @ b))) = core (fst (feed_round s' b)) \<and>
      snd (feed_round s (a @ b)) = snd (feed_round s' b))"
proof (cases "post_stream_state s")
  case PREAMBLE
  let ?n = "drop 2 (post_stream_delim s)"
  obtain s1 x f where sc: "scanForNeedle s ?n a False = (s1, x, f)"
    using prod_cases3 by blast
  have fr: "frame s1 = frame s"
    using frame_scan [of s ?n a False] sc by simp
  show ?thesis
    using scan_append [OF st sc, of b] scan_rest [OF sc] r PREAMBLE frame_eqD(3,5) [OF fr]
    by (cases f) (auto simp: feed_round_def sc case_prod_unfold)
next
  case PART_DATA
  let ?n = "post_stream_delim s"
  obtain s1 x f where sc: "scanForNeedle s ?n a True = (s1, x, f)"
    using prod_cases3 by blast
  have fr: "frame s1 = frame s"
    using frame_scan [of s ?n a True] sc by simp
  show ?thesis
    using scan_append [OF st sc, of b] scan_rest [OF sc] r PART_DATA frame_eqD(3,5) [OF fr]
    by (cases f) (auto simp: feed_round_def sc case_prod_unfold)
next
  case PART_HEADER
  obtain s1 x ret where c: "collectPartHeader s a = (s1, x, ret)"
    using prod_cases3 by blast
  have st1: "post_stream_state s1 = PART_HEADER"
    using collect_state [of s a] c PART_HEADER by simp
  show ?thesis
  proof (cases "ret = 0")
    case True
    then have "s' = s1" "r = []" "\<not> err"
      using r PART_HEADER c collect_append [OF c, of b] by (simp_all add: feed_round_def)
    moreover have "feed_round s (a @ b) = feed_round s1 b"
      using collect_append [OF c, of b] True PART_HEADER st1 by (simp add: feed_round_def)
    ultimately show ?thesis by simp
  next
    case False
    obtain s2 ok where g: "beginPart s1 = (s2, ok)"
      by fastforce
    have "collectPartHeader s (a @ b) = (s1, x @ b, ret)"
      using collect_append [OF c, of b] False by simp
    then have "feed_round s (a @ b) = (s', r @ b, err)"
      using r PART_HEADER by (auto simp: feed_round_def c g split: if_splits)
    then show ?thesis by simp
  qed
next
  case DELIM_CHECK
  then show ?thesis
    using r b by (cases "length (post_stream_hold s) + length a < 2")
      (auto simp: feed_round_def delim_check_def Let_def case_prod_unfold)
qed (use r a b in \<open>auto simp: feed_round_def\<close>)

lemma loop_unfold:
  "ds \<noteq> [] \<Longrightarrow> feed_loop s ds = (let r = feed_round s ds in
     if snd (snd r) then (fst r, True) else feed_loop (fst r) (fst (snd r)))"
  by (subst feed_loop.simps) (simp add: case_prod_unfold Let_def)

lemma loop_Nil [simp]: "feed_loop s [] = (s, False)"
  by (simp add: feed_loop.simps)

lemma loop_cong:
  "core s = core t \<Longrightarrow> core (fst (feed_loop s ds)) = core (fst (feed_loop t ds)) \<and>
    snd (feed_loop s ds) = snd (feed_loop t ds)"
proof (induction s ds arbitrary: t rule: feed_loop.induct)
  case (1 s ds)
  show ?case
  proof (cases "ds = []")
    case True
    with "1.prems" show ?thesis by simp
  next
    case False
    obtain s' r err where r: "feed_round s ds = (s', r, err)"
      using prod_cases3 by blast
    obtain t' where t: "feed_round t ds = (t', r, err)" "core s' = core t'"
      using round_cong [OF "1.prems", of ds] r by (cases "feed_round t ds") auto
    show ?thesis
      using "1.IH" [OF False r [symmetric] refl _ t(2)] t r False by (simp add: loop_unfold Let_def)
  qed
qed

lemma storing_round: "feed_round s ds = (s', r, err) \<Longrightarrow> storing s' \<longleftrightarrow> storing s"
  using handler_round [of s ds] by (simp add: storing_def)

lemma loop_append:
  "storing s \<Longrightarrow> feed_loop s a = (s', err) \<Longrightarrow>
    (if err then core (fst (feed_loop s (a @ b))) = core s' \<and> snd (feed_loop s (a @ b))
     else core (fst (feed_loop s (a @ b))) = core (fst (feed_loop s' b)) \<and>
        snd (feed_loop s (a @ b)) = snd (feed_loop s' b))"
proof (induction s a arbitrary: s' err rule: feed_loop.induct)
  case (1 s a)
  consider "a = []" | "b = []" | "a \<noteq> []" "b \<noteq> []"
    by blast
  then show ?case
  proof cases
    case 3
    obtain s1 r e where r: "feed_round s a = (s1, r, e)"
      using prod_cases3 by blast
    have st: "storing s1"
      using storing_round [OF r] "1.prems"(1) by simp
    obtain t1 x f where t: "feed_round s (a @ b) = (t1, x, f)"
      using prod_cases3 by blast
    have lp: "feed_loop s (a @ b) = (if f then (t1, True) else feed_loop t1 x)"
      using 3 t by (simp add: loop_unfold Let_def)
    have la: "feed_loop s a = (if e then (s1, True) else feed_loop s1 r)"
      using 3 r by (simp add: loop_unfold Let_def)
    note IH = "1.IH" [OF 3(1) r [symmetric] refl _ st]
    from round_append [OF "1.prems"(1) 3 r] t
    consider (within) "core t1 = core s1" "x = r @ b" "f = e"
      | (more) "r = []" "\<not> e" "core t1 = core (fst (feed_round s1 b))" "(x, f) = snd (feed_round s1 b)"
      by auto
    then show ?thesis
    proof cases
      case within
      show ?thesis
      proof (cases e)
        case True
        with lp la "1.prems"(2) within show ?thesis by auto
      next
        case False
        then have "feed_loop s1 r = (s', err)"
          using la "1.prems"(2) by simp
        from IH [OF False this] show ?thesis
          using loop_cong [OF within(1), of x] lp False within by simp
      qed
    next
      case more
      have "feed_loop s1 b = (let r = feed_round s1 b in
          if snd (snd r) then (fst r, True) else feed_loop (fst r) (fst (snd r)))"
        using 3 by (simp add: loop_unfold)
      then show ?thesis
        using lp la "1.prems"(2) more loop_cong [OF more(3), of x]
        by (cases "feed_round s1 b") (auto simp: Let_def)
    qed
  qed (use "1.prems" in auto)
qed

end
