(* ===== verification/PostStreamUpload.thy ===== *)
theory PostStreamUpload
  imports PostStreamMachine
begin

text \<open>
  What an upload delivers. The body of a \<open>multipart/form-data\<close> request, cut into chunks in any
  way, gives the handler the files it holds; no division into chunks is observable; what a
  request can make the server buffer is bounded; and the callbacks of a handler come in order,
  whatever the body and whatever the handler does.
\<close>

subsection \<open>Feeding in chunks\<close>

text \<open>The caller feeds chunks until the machine is done or fails (\<open>handlePostStreamData\<close>).\<close>

fun stream_run :: "('u, 'r) post_stream \<Rightarrow> string list \<Rightarrow> ('u, 'r) post_stream \<times> int" where
  "stream_run s [] = (s, 0)"
| "stream_run s (c # cs) =
     (case postStreamFeed s c of (s', r) \<Rightarrow> if r = 0 then stream_run s' cs else (s', r))"

abbreviation pos_of :: "('u, 'r) post_stream \<Rightarrow> u32" where
  "pos_of s \<equiv> post_buffer_pos (header s)"

abbreviation length_of :: "('u, 'r) post_stream \<Rightarrow> u64" where
  "length_of s \<equiv> contentlenght (header s)"

definition advance :: "nat \<Rightarrow> ('u, 'r) post_stream \<Rightarrow> ('u, 'r) post_stream" where
  "advance n s = s\<lparr>header := (header s)\<lparr>post_buffer_pos := pos_of s + of_nat n\<rparr>\<rparr>"

lemma core_advance [simp]: "core (advance n s) = core s"
  by (simp add: advance_def core_def)

lemma advance_fields [simp]: "pos_of (advance n s) = pos_of s + of_nat n" "length_of (advance n s) = length_of s"
    "post_stream_ctx (advance n s) = post_stream_ctx s" "post_stream_handler (advance n s) = post_stream_handler s"
    "post_streaming_active (advance n s) = post_streaming_active s"
  by (simp_all add: advance_def)

lemma storing_advance [simp]: "storing (advance n s) \<longleftrightarrow> storing s"
  by (simp add: storing_def)

lemma analyse_pos: "post_buffer_pos (snd (analyse_form_loop off l n hdr)) = post_buffer_pos hdr \<and>
    contentlenght (snd (analyse_form_loop off l n hdr)) = contentlenght hdr"
proof (induction off l n hdr rule: analyse_form_loop.induct)
  case (1 off l n hdr)
  show ?case
    using 1 unfolding analyse_form_loop.simps [of off l n hdr] by (auto split: option.split)
qed

text \<open>Facts that hold of every transition but the search: the position, and that the stream stays open.\<close>

definition opened :: "('u, 'r) post_stream \<Rightarrow> bool" where
  "opened s \<longleftrightarrow> post_streaming_active s \<and> post_stream_ctx s \<noteq> None"

lemma opened_emit [simp]: "opened (emitPartData s d) = opened s"
  by (simp add: opened_def emitPartData_def Let_def split: option.split)

lemma opened_hold [simp]: "opened (s\<lparr>post_stream_hold := h\<rparr>) = opened s"
  "opened (s\<lparr>post_stream_state := st\<rparr>) = opened s"
  "opened (s\<lparr>post_stream_delim_in_data := d\<rparr>) = opened s"
  "opened (s\<lparr>post_stream_part_header := ph\<rparr>) = opened s"
  by (simp_all add: opened_def)

lemma opened_rebase [simp]: "opened (rebaseHold s n) = opened s"
proof (induction "length (post_stream_hold s)" arbitrary: s)
  case 0
  then show ?case by (simp add: rebase_stop)
next
  case (Suc k)
  show ?case
    by (rule rebase_cases [of s n]) (use Suc in auto)
qed

lemma opened_skip [simp]: "opened (fst (skip_to s n ds e)) = opened s"
  by (simp add: skip_to_def Let_def)

lemma opened_mismatch [simp]: "opened (mismatch s n e) = opened s"
  by (simp add: mismatch_def Let_def)

lemma opened_scan [simp]: "opened (fst (scanForNeedle s n ds e)) = opened s"
proof (induction s ds rule: scan_induct [where n = n and e = e])
  case (skipped s ds s1)
  then show ?case
    using scan_unfold [OF skipped(2) surjective_pairing skipped(1)] opened_skip [of s n ds e] by simp
next
  case (found s ds s1 ds1 hold rest)
  then show ?case
    using scan_unfold [OF found(2,4,1)] opened_skip [of s n ds e] by simp
next
  case (out s ds s1 ds1 hold)
  then show ?case
    using scan_unfold [OF out(2,4,1)] opened_skip [of s n ds e] by simp
next
  case (mismatch s ds s1 ds1 hold rest)
  then show ?case
    using scan_unfold [OF mismatch(2,4,1)] opened_skip [of s n ds e] by simp
qed simp

lemma scan_header [simp]: "header (fst (scanForNeedle s n ds e)) = header s"
  by (rule frame_eqD(1) [OF frame_scan])

lemma opened_end [simp]: "opened (endPart s ok) = opened s"
  by (simp add: endPart_def opened_def Let_def split: option.split)

lemma pos_end [simp]: "header (endPart s ok) = header s"
  by (simp add: endPart_def Let_def split: option.split)

lemma opened_enter [simp]: "opened s \<Longrightarrow> opened (enter_part s ctx)" "header (enter_part s ctx) = header s"
  by (auto simp: enter_part_def opened_def Let_def)

lemma opened_named [simp]: "opened s \<Longrightarrow> opened (named_part h c s)" "header (named_part h c s) = h"
  by (auto simp: named_part_def opened_def)

lemma parse_pos: "post_buffer_pos (parse_part_header s) = pos_of s \<and> contentlenght (parse_part_header s) = length_of s"
  by (simp add: parse_part_header_def analyseFormDataLine_def analyse_pos)

lemma begin_opened:
  assumes "opened s"
  shows "opened (fst (beginPart s)) \<and> pos_of (fst (beginPart s)) = pos_of s \<and>
    length_of (fst (beginPart s)) = length_of s"
proof -
  obtain ctx where c: "post_stream_ctx s = Some ctx"
    using assms by (auto simp: opened_def)
  show ?thesis
    unfolding begin_eq [OF c refl]
    using assms parse_pos [of "s\<lparr>post_stream_current_part := None\<rparr>"] by (simp add: opened_def [of "_ \<lparr>header := _\<rparr>"] opened_def [of "_ \<lparr>post_stream_part_is_file := _\<rparr>"] opened_def [of s])
qed

lemma collect_opened [simp]:
  "opened (fst (collectPartHeader s ds)) = opened s" "header (fst (collectPartHeader s ds)) = header s"
  by (induction s ds rule: collectPartHeader.induct) (simp_all add: Let_def header_push_def)

lemma after_opened [simp]: "opened (after_boundary s) = opened s" "header (after_boundary s) = header s"
  by (simp_all add: after_boundary_def opened_def Let_def split: option.split)

lemma decide_opened [simp]: "opened (delim_decide s) = opened s" "header (delim_decide s) = header s"
  using frame_eqD(1) [OF frame_rebase [of "emitPartData s (post_stream_delim s)" "post_stream_delim s"]]
  by (simp_all add: delim_decide_def Let_def)

lemma round_opened:
  assumes "opened s"
  shows "opened (fst (feed_round s ds)) \<and> pos_of (fst (feed_round s ds)) = pos_of s \<and>
    length_of (fst (feed_round s ds)) = length_of s"
proof (cases "post_stream_state s")
  case PART_HEADER
  obtain s1 r ret where c: "collectPartHeader s ds = (s1, r, ret)"
    using prod_cases3 by blast
  obtain s2 ok where b: "beginPart s1 = (s2, ok)"
    by fastforce
  show ?thesis
    using PART_HEADER collect_opened [of s ds] begin_opened [of s1] assms
    by (simp add: feed_round_def c b)
qed (use assms in \<open>simp_all add: feed_round_def delim_check_def Let_def case_prod_unfold\<close>)

lemma loop_opened: "opened s \<Longrightarrow> opened (fst (feed_loop s ds)) \<and> pos_of (fst (feed_loop s ds)) = pos_of s \<and>
    length_of (fst (feed_loop s ds)) = length_of s"
proof (induction s ds rule: feed_loop.induct)
  case (1 s ds)
  obtain s' r err where r: "feed_round s ds = (s', r, err)"
    using prod_cases3 by blast
  show ?case
    using "1.IH" [OF _ r [symmetric] refl] round_opened [OF "1.prems", of ds] r "1.prems"
    by (cases "ds = []") (auto simp: loop_unfold Let_def)
qed

lemma loop_handler: "post_stream_handler (fst (feed_loop s ds)) = post_stream_handler s"
proof (induction s ds rule: feed_loop.induct)
  case (1 s ds)
  obtain s' r err where r: "feed_round s ds = (s', r, err)"
    using prod_cases3 by blast
  show ?case
    using "1.IH" [OF _ r [symmetric] refl] handler_round [of s ds] r
    by (cases "ds = []") (auto simp: loop_unfold Let_def)
qed

lemma feed_eq:
  assumes "opened s"
  shows "postStreamFeed s d =
    (let (s', err) = feed_loop (advance (length d) s) d in
     if err then (s', - 1)
     else if length_of s \<le> ucast (pos_of s + of_nat (length d)) then
       (if post_stream_state s' = EPILOGUE then (s', 1) else (postStreamFinish s' False, - 1))
     else (s', 0))"
  using assms loop_opened [of "advance (length d) s" d]
  by (auto simp: postStreamFeed_def opened_def advance_def Let_def case_prod_unfold)

lemma finish_cong: "core s = core t \<Longrightarrow> core (postStreamFinish s ok) = core (postStreamFinish t ok)"
  using end_cong [of s t ok] core_eqD(2,10) [of s t] by (simp add: postStreamFinish_def)

lemma feed_append:
  assumes "opened s" "storing s" and short: "length_of s > ucast (pos_of s + of_nat (length a))"
    and a: "postStreamFeed s a = (s', r)"
  shows "if r = 0 then opened s' \<and> storing s' \<and> pos_of s' = pos_of s + of_nat (length a) \<and> length_of s' = length_of s \<and>
      core (fst (postStreamFeed s (a @ b))) = core (fst (postStreamFeed s' b)) \<and>
      snd (postStreamFeed s (a @ b)) = snd (postStreamFeed s' b)
    else core (fst (postStreamFeed s (a @ b))) = core s' \<and> snd (postStreamFeed s (a @ b)) = r"
proof -
  obtain s1 err where l: "feed_loop (advance (length a) s) a = (s1, err)"
    by fastforce
  have o: "opened (advance (length a) s)" "storing (advance (length a) s)"
    using assms(1,2) by (simp_all add: opened_def)
  have s1: "opened s1" "pos_of s1 = pos_of s + of_nat (length a)" "length_of s1 = length_of s" "storing s1"
    using loop_opened [OF o(1), of a] l loop_handler [of "advance (length a) s" a] assms(2)
    by (simp_all add: storing_def)
  have s': "s' = s1" "r = (if err then - 1 else 0)"
    using a l short by (auto simp: feed_eq [OF assms(1)] Let_def not_le [symmetric] split: if_splits)
  let ?ab = "feed_loop (advance (length (a @ b)) s) (a @ b)" and ?b = "feed_loop (advance (length b) s1) b"
  have c: "core (fst ?ab) = core (fst (feed_loop (advance (length a) s) (a @ b))) \<and>
      snd ?ab = snd (feed_loop (advance (length a) s) (a @ b))"
    by (rule loop_cong) simp
  have d: "core (fst ?b) = core (fst (feed_loop s1 b)) \<and> snd ?b = snd (feed_loop s1 b)"
    by (rule loop_cong) simp
  show ?thesis
  proof (cases err)
    case True
    then show ?thesis
      using loop_append [OF o(2) l, of b] c s' by (simp add: feed_eq [OF assms(1)] case_prod_unfold Let_def)
  next
    case False
    then have e: "core (fst ?ab) = core (fst ?b)" "snd ?ab = snd ?b"
      using loop_append [OF o(2) l, of b] c d by simp_all
    have "snd (postStreamFeed s (a @ b)) = snd (postStreamFeed s1 b)"
      "core (fst (postStreamFeed s (a @ b))) = core (fst (postStreamFeed s1 b))"
      using e finish_cong [OF e(1)] core_eqD(3) [OF e(1)] s1
      by (simp_all add: feed_eq [OF assms(1)] feed_eq [OF s1(1)] case_prod_unfold Let_def add.assoc)
    then show ?thesis
      using s1 s' False by simp
  qed
qed

text \<open>Until the last byte of the body is read, the count of the bytes received does not wrap.\<close>

lemma pos_add:
  assumes "unat (p :: u32) + n < 2 ^ 32"
  shows "unat (ucast (p + of_nat n) :: u64) = unat p + n"
proof -
  have "unat (p + of_nat n) = unat p + n"
    using assms by (simp add: unat_word_ariths unat_of_nat)
  then show ?thesis
    using assms by (simp add: unsigned_ucast_eq take_bit_nat_eq_self)
qed

lemma stream_run_eq:
  "opened s \<Longrightarrow> storing s \<Longrightarrow> cs \<noteq> [] \<Longrightarrow> [] \<notin> set cs \<Longrightarrow>
    unat (pos_of s) + length (concat cs) \<le> unat (length_of s) \<Longrightarrow> unat (length_of s) < 2 ^ 32 \<Longrightarrow>
    core (fst (stream_run s cs)) = core (fst (postStreamFeed s (concat cs))) \<and>
    snd (stream_run s cs) = snd (postStreamFeed s (concat cs))"
proof (induction cs arbitrary: s)
  case (Cons c cs)
  show ?case
  proof (cases "cs = []")
    case True
    then show ?thesis by (simp add: case_prod_unfold)
  next
    case False
    then have pos: "length (concat cs) > 0"
      using Cons.prems(4) by (cases cs) auto
    have short: "ucast (pos_of s + of_nat (length c)) < length_of s"
      using pos_add [of "pos_of s" "length c"] Cons.prems(5,6) pos
      by (simp add: word_less_nat_alt del: length_greater_0_conv length_concat)
    obtain s' r where f: "postStreamFeed s c = (s', r)"
      by fastforce
    note fa = feed_append [OF Cons.prems(1,2) short f, of "concat cs"]
    show ?thesis
    proof (cases "r = 0")
      case True
      have p: "unat (pos_of s') = unat (pos_of s) + length c"
        using fa True Cons.prems(5,6) by (simp add: unat_word_ariths unat_of_nat)
      have "core (fst (stream_run s' cs)) = core (fst (postStreamFeed s' (concat cs))) \<and>
          snd (stream_run s' cs) = snd (postStreamFeed s' (concat cs))"
        by (rule Cons.IH) (use fa True False p Cons.prems in auto)
      then show ?thesis
        using fa f True by simp
    next
      case False
      then show ?thesis
        using fa f by simp
    qed
  qed
qed simp

subsection \<open>The search finds the first boundary\<close>

lemma take_prefix_iff: "g = take (length g) n \<longleftrightarrow> prefix g n"
  by (metis append_eq_conv_conj prefix_def take_is_prefix)

lemma strstr_prefix: "prefix n w \<Longrightarrow> strstr w n = Some 0"
  by (cases w) auto

lemma strstr_drop:
  "\<forall>j<m. \<not> prefix n (drop j w) \<Longrightarrow> m \<le> length w \<Longrightarrow> strstr w n = map_option ((+) m) (strstr (drop m w) n)"
proof (induction m arbitrary: w)
  case 0
  then show ?case by (simp add: option.map_ident)
next
  case (Suc m)
  then obtain c cs where w: "w = c # cs"
    by (cases w) auto
  have "\<forall>j<m. \<not> prefix n (drop j cs)"
    using Suc.prems(1) w by (metis Suc_less_eq drop_Suc_Cons)
  moreover have "\<not> prefix n w"
    using Suc.prems(1) by (metis drop0 zero_less_Suc)
  ultimately show ?case
    using Suc.IH [of cs] Suc.prems(2) w by (simp add: option.map_comp comp_def)
qed

lemma strstr_short: "length w < length n \<Longrightarrow> strstr w n = None"
  using strstr_less [of w n] by (cases "strstr w n") force+

lemma emit_with_hold:
  "core (emitPartData (s\<lparr>post_stream_hold := h\<rparr>) d) = (core (emitPartData s d))\<lparr>post_stream_hold := h\<rparr>"
  unfolding core_emit by (auto simp: emit_file_def receive_chunk_def call_chunk_def Let_def split: option.split)

lemma rebase_eq:
  "storing s \<Longrightarrow> \<exists>e g. post_stream_hold s = e @ g \<and> prefix g n \<and>
    core (rebaseHold s n) = core ((emitPartData s e)\<lparr>post_stream_hold := g\<rparr>) \<and>
    (\<forall>j<length e. \<not> prefix (drop j (e @ g)) n)"
proof (induction "length (post_stream_hold s)" arbitrary: s)
  case 0
  then show ?case
    by (intro exI [of _ "[]"]) (simp add: rebase_stop core_def)
next
  case (Suc k)
  show ?case
  proof (rule rebase_cases [of s n])
    assume "post_stream_hold s = take (length (post_stream_hold s)) n" "rebaseHold s n = s"
    then show ?thesis
      by (intro exI [of _ "[]"] exI [of _ "post_stream_hold s"])
        (simp add: core_def take_prefix_iff [symmetric])
  next
    fix c h
    assume st: "post_stream_hold s = c # h" "c # h \<noteq> take (length (c # h)) n"
      "rebaseHold s n = rebaseHold ((emitPartData s [c])\<lparr>post_stream_hold := h\<rparr>) n"
    let ?t = "(emitPartData s [c])\<lparr>post_stream_hold := h\<rparr>"
    have "storing ?t"
      using Suc.prems by (simp add: storing_def)
    then obtain e g where eg: "h = e @ g" "prefix g n" "core (rebaseHold ?t n) = core ((emitPartData ?t e)\<lparr>post_stream_hold := g\<rparr>)"
        "\<forall>j<length e. \<not> prefix (drop j (e @ g)) n"
      using Suc.hyps(1) [of ?t] Suc.hyps(2) st(1) by auto
    have np: "\<not> prefix (c # h) n"
      using st(2) take_prefix_iff [of "c # h" n] by simp
    have "core (emitPartData ?t e) = (core (emitPartData (emitPartData s [c]) e))\<lparr>post_stream_hold := h\<rparr>"
      by (rule emit_with_hold)
    then have "core (rebaseHold s n) = core ((emitPartData s (c # e))\<lparr>post_stream_hold := g\<rparr>)"
      using st(3) eg(3) emit_append [OF Suc.prems, of "[c]" e] by simp
    moreover have "\<forall>j<length (c # e). \<not> prefix (drop j ((c # e) @ g)) n"
      using np eg(1,4) by (auto simp: less_Suc_eq_0_disj)
    ultimately show ?thesis
      using st(1) eg(1,2) by (intro exI [of _ "c # e"] exI [of _ g]) simp
  qed
qed

lemma fill_prefix: "fill_hold h n ds = (g, r) \<Longrightarrow> prefix h n \<Longrightarrow> prefix g n \<and> (length g < length n \<longrightarrow> r = [] \<or> hd r \<noteq> n ! length g)"
proof (induction h n ds rule: fill_hold.induct)
  case (2 h n d ds)
  have "prefix (h @ [n ! length h]) n" if "length h < length n"
    using that "2.prems"(2) by (metis append_eq_conv_conj prefix_def take_Suc_conv_app_nth take_is_prefix)
  with 2 show ?case by (auto split: if_splits)
qed simp

lemma skip_eq:
  assumes "skip_to s n ds True = (s1, ds1)" "n \<noteq> []"
  shows "\<exists>sk. post_stream_hold s @ ds = sk @ post_stream_hold s @ ds1 \<and> core s1 = core (emitPartData s sk) \<and>
    (\<forall>j<length sk. \<not> prefix n (drop j (sk @ post_stream_hold s @ ds1)))"
proof (cases "post_stream_hold s = []")
  case True
  let ?P = "\<lambda>c. c \<noteq> cget n 0"
  have eqs: "s1 = emitPartData s (takeWhile ?P ds)" "ds1 = dropWhile ?P ds"
    using assms(1) True by (simp_all add: skip_to_def Let_def)
  have "\<not> prefix n (drop j (takeWhile ?P ds @ ds1))" if j: "j < length (takeWhile ?P ds)" for j
  proof
    assume p: "prefix n (drop j (takeWhile ?P ds @ ds1))"
    have "hd (drop j (takeWhile ?P ds @ ds1)) = takeWhile ?P ds ! j"
      using j by (simp add: hd_drop_conv_nth nth_append)
    moreover have "hd (drop j (takeWhile ?P ds @ ds1)) = cget n 0"
      using p assms(2) by (cases n; cases "drop j (takeWhile ?P ds @ ds1)") auto
    ultimately show False
      using j nth_mem [OF j] set_takeWhileD by fastforce
  qed
  then show ?thesis
    using True eqs by (intro exI [of _ "takeWhile ?P ds"]) simp
next
  case False
  then show ?thesis
    using assms(1) by (intro exI [of _ "[]"]) (simp add: skip_to_def)
qed

text \<open>After a mismatch no occurrence begins before the bytes that stay in the hold buffer.\<close>

lemma mismatch_eq:
  assumes "storing s" "post_stream_hold s = hold" "hold \<noteq> []" "prefix hold n" "length hold < length n"
    "rest \<noteq> []" "hd rest \<noteq> n ! length hold"
  shows "\<exists>e g. hold = e @ g \<and> e \<noteq> [] \<and> prefix g n \<and>
    core (mismatch s n True) = core ((emitPartData s e)\<lparr>post_stream_hold := g\<rparr>) \<and>
    (\<forall>j<length e. \<not> prefix n (drop j (hold @ rest)))"
proof -
  obtain c h where ch: "hold = c # h"
    using assms(3) by (cases hold) auto
  let ?t = "(emitPartData s [c])\<lparr>post_stream_hold := h\<rparr>"
  have st: "storing ?t"
    using assms(1) by (simp add: storing_def)
  from rebase_eq [OF this, of n] obtain e g where eg: "h = e @ g" "prefix g n"
      "core (rebaseHold ?t n) = core ((emitPartData ?t e)\<lparr>post_stream_hold := g\<rparr>)"
      "\<forall>j<length e. \<not> prefix (drop j (e @ g)) n"
    by auto
  have m: "core (mismatch s n True) = core ((emitPartData s (c # e))\<lparr>post_stream_hold := g\<rparr>)"
    using eg(3) assms(2) ch emit_append [OF assms(1), of "[c]" e]
    by (simp add: mismatch_def Let_def emit_with_hold)
  have "\<not> prefix n (drop j (hold @ rest))" if j: "j < length (c # e)" for j
  proof
    assume p: "prefix n (drop j (hold @ rest))"
    have "j \<le> length hold"
      using j ch eg(1) by simp
    then have dj: "drop j (hold @ rest) = drop j hold @ rest"
      by simp
    have le: "length (drop j hold) < length n"
      using assms(5) by simp
    have pn: "prefix (drop j hold) n"
      using p le unfolding dj by (metis less_imp_le prefixI prefix_length_prefix)
    show False
    proof (cases j)
      case 0
      have "n ! length hold = hd rest"
        using p assms(5,6) unfolding 0 by (cases rest) (auto simp: prefix_def nth_append dest: arg_cong [of _ _ "\<lambda>l. l ! length hold"])
      with assms(7) show False by simp
    next
      case (Suc i)
      with eg(4) pn ch eg(1) j show False by simp
    qed
  qed
  with m eg(1,2) ch show ?thesis
    by (intro exI [of _ "c # e"] exI [of _ g]) simp
qed

lemma scan_finds:
  "storing s \<Longrightarrow> prefix (post_stream_hold s) n \<Longrightarrow> length (post_stream_hold s) < length n \<Longrightarrow>
    strstr (post_stream_hold s @ ds) n = Some k \<Longrightarrow>
    \<exists>s'. scanForNeedle s n ds True = (s', drop (k + length n) (post_stream_hold s @ ds), True) \<and>
      core s' = core ((emitPartData s (take k (post_stream_hold s @ ds)))\<lparr>post_stream_hold := []\<rparr>)"
proof (induction s ds arbitrary: k rule: scan_induct [where n = n and e = True])
  case (empty s)
  then show ?case
    using strstr_short [of "post_stream_hold s" n] by simp
next
  case (skipped s ds s1)
  then have "n \<noteq> []" "post_stream_hold s = []"
    by (auto simp: skip_to_def split: if_splits)
  with skip_eq [OF skipped(2)] obtain sk where "ds = sk" "\<forall>j<length sk. \<not> prefix n (drop j sk)"
    by auto
  with skipped(6) strstr_drop [of "length ds" n ds] \<open>n \<noteq> []\<close> \<open>post_stream_hold s = []\<close> show ?case
    by simp
next
  case (found s ds s1 ds1 hold rest)
  have n: "n \<noteq> []" and h1: "post_stream_hold s1 = post_stream_hold s"
    using found(8) skip_to_hold [of s n ds True] found(2) by auto
  obtain sk where sk: "post_stream_hold s @ ds = sk @ post_stream_hold s @ ds1" "core s1 = core (emitPartData s sk)"
      "\<forall>j<length sk. \<not> prefix n (drop j (sk @ post_stream_hold s @ ds1))"
    using skip_eq [OF found(2) n] by blast
  have "prefix hold n"
    using fill_prefix [OF found(4)] found(7) h1 by simp
  then have "hold = n"
    using found(5) by (simp add: take_prefix_iff [symmetric])
  then have w: "post_stream_hold s @ ds1 = n @ rest"
    using fill_hold_append [OF found(4)] h1 by simp
  have "k = length sk"
    using found(9) strstr_drop [OF sk(3)] strstr_prefix [of n "n @ rest"] unfolding sk(1) by (simp add: w)
  then show ?case
    using scan_unfold [OF found(2,4,1)] found(3,5) sk(2) unfolding sk(1) w by simp
next
  case (out s ds s1 ds1 hold)
  have n: "n \<noteq> []" and h1: "post_stream_hold s1 = post_stream_hold s"
    using out(8) skip_to_hold [of s n ds True] out(2) by auto
  obtain sk where sk: "post_stream_hold s @ ds = sk @ post_stream_hold s @ ds1"
      "\<forall>j<length sk. \<not> prefix n (drop j (sk @ post_stream_hold s @ ds1))"
    using skip_eq [OF out(2) n] by blast
  have "length hold < length n"
    using fill_prefix [OF out(4)] out(5,7) h1 prefix_length_le [of hold n] by force
  then have "strstr (post_stream_hold s @ ds1) n = None"
    using strstr_short fill_hold_append [OF out(4)] h1 by simp
  then show ?case
    using out(9) strstr_drop [OF sk(2)] unfolding sk(1) by simp
next
  case (mismatch s ds s1 ds1 hold rest)
  have n: "n \<noteq> []" and h1: "post_stream_hold s1 = post_stream_hold s"
    using mismatch(10) skip_to_hold [of s n ds True] mismatch(2) by auto
  obtain sk where sk: "post_stream_hold s @ ds = sk @ post_stream_hold s @ ds1" "core s1 = core (emitPartData s sk)"
      "\<forall>j<length sk. \<not> prefix n (drop j (sk @ post_stream_hold s @ ds1))"
    using skip_eq [OF mismatch(2) n] by blast
  have hold: "hold \<noteq> []" "prefix hold n" "length hold < length n" "hd rest \<noteq> n ! length hold"
    using fill_hold_skipped [OF mismatch(2-5)] fill_prefix [OF mismatch(4)] mismatch(5,6,9) h1
      prefix_length_le [of hold n] by auto
  have w: "post_stream_hold s @ ds1 = hold @ rest"
    using fill_hold_append [OF mismatch(4)] h1 by simp
  let ?s1 = "s1\<lparr>post_stream_hold := hold\<rparr>"
  have st: "storing ?s1" "storing s1"
    using mismatch(8) storing_frame [of s1 s] frame_skip [of s n ds True] mismatch(2) by (simp_all add: storing_def)
  obtain e g where eg: "hold = e @ g" "e \<noteq> []" "prefix g n"
      "core (mismatch ?s1 n True) = core ((emitPartData ?s1 e)\<lparr>post_stream_hold := g\<rparr>)"
      "\<forall>j<length e. \<not> prefix n (drop j (hold @ rest))"
    using mismatch_eq [OF st(1) _ hold(1-3) mismatch(6) hold(4)] by auto
  let ?m = "PostStreaming.mismatch ?s1 n True"
  have hm: "post_stream_hold ?m = g"
    using core_eqD(7) [OF eg(4)] by simp
  obtain k' where k': "strstr (g @ rest) n = Some k'" "k = length sk + (length e + k')"
    using mismatch(11) strstr_drop [OF sk(3)] strstr_drop [OF eg(5)] eg(1) unfolding sk(1) w
    by (cases "strstr (g @ rest) n") auto
  let ?X = "take k' (g @ rest)"
  have "storing ?m" "length g < length n"
    using st(1) storing_frame [of ?m ?s1] hold(3) eg(1) by simp_all
  then obtain s' where s': "scanForNeedle ?m n rest True = (s', drop (k' + length n) (g @ rest), True)"
      "core s' = core ((emitPartData ?m ?X)\<lparr>post_stream_hold := []\<rparr>)"
    using mismatch(7) [of k'] k'(1) eg(3) hm by auto
  have "core (emitPartData ?m ?X) = (core (emitPartData (emitPartData ?s1 e) ?X))\<lparr>post_stream_hold := g\<rparr>"
    using emit_cong [OF eg(4), of ?X] by (simp add: emit_with_hold)
  also have "core (emitPartData (emitPartData ?s1 e) ?X) = (core (emitPartData s1 (e @ ?X)))\<lparr>post_stream_hold := hold\<rparr>"
    using emit_append [OF st(1), of e ?X] emit_with_hold [where s = s1 and h = hold and d = "e @ ?X"] by simp
  also have "core (emitPartData s1 (e @ ?X)) = core (emitPartData s (sk @ e @ ?X))"
    using emit_cong [OF sk(2), of "e @ ?X"] emit_append [OF mismatch(8), of sk "e @ ?X"] by simp
  finally have "core s' = core ((emitPartData s (take k (post_stream_hold s @ ds)))\<lparr>post_stream_hold := []\<rparr>)"
    using s'(2) unfolding sk(1) w by (simp add: k'(2) eg(1))
  moreover have "drop (k + length n) (post_stream_hold s @ ds) = drop (k' + length n) (g @ rest)"
    unfolding sk(1) w by (simp add: k'(2) eg(1))
  then have "scanForNeedle s n ds True = (s', drop (k + length n) (post_stream_hold s @ ds), True)"
    using scan_unfold [OF mismatch(2,4,1)] mismatch(3,5,6) s'(1) by simp
  ultimately show ?case by blast
qed

end
