(* ===== verification/PostStreamDelivery.thy ===== *)
theory PostStreamDelivery
  imports PostStreamUpload
begin

text \<open>
  The round trip of an upload: a body written from a list of form fields and files, as a
  browser writes it, is read back by the streaming receiver in any division into chunks. Its
  lemmas follow the machine through one part: the boundary, the part header, the payload up to
  the next boundary.
\<close>

subsection \<open>Bodies\<close>

datatype form_part = Field string string | File string string string

fun disposition_of :: "form_part \<Rightarrow> string" where
  "disposition_of (Field name val) = ''form-data; name='' @ [CHR 0x22] @ name @ [CHR 0x22]"
| "disposition_of (File name fname content) =
     ''form-data; name='' @ [CHR 0x22] @ name @ [CHR 0x22] @ ''; filename='' @ [CHR 0x22] @ fname @ [CHR 0x22]"

fun content_of :: "form_part \<Rightarrow> string" where
  "content_of (Field name val) = val"
| "content_of (File name fname content) = content"

definition part_text :: "string \<Rightarrow> form_part \<Rightarrow> string" where
  "part_text bound p = CRLF @ ''Content-Disposition: '' @ disposition_of p @ CRLF @ CRLF @
     content_of p @ CRLF @ bound"

definition multipart_body :: "string \<Rightarrow> form_part list \<Rightarrow> string \<Rightarrow> string" where
  "multipart_body bound ps epilogue = bound @ concat (map (part_text bound) ps) @ ''--'' @ epilogue"

text \<open>A name is written without a quote, an equals sign, a line end or a NUL byte.\<close>

definition ok_name :: "string \<Rightarrow> bool" where
  "ok_name nm \<longleftrightarrow> list_all (\<lambda>c. c \<noteq> CHR 0x22 \<and> c \<noteq> CHR ''='' \<and> c \<noteq> CR \<and> c \<noteq> LF \<and> c \<noteq> NUL) nm \<and>
     length nm \<le> 2048"

fun ok_names :: "form_part \<Rightarrow> bool" where
  "ok_names (Field name val) = ok_name name"
| "ok_names (File name fname content) = (ok_name name \<and> ok_name fname)"

definition ok_form :: "string \<Rightarrow> form_part \<Rightarrow> bool" where
  "ok_form bound p \<longleftrightarrow> ok_names p \<and> \<not> sublist (CRLF @ bound) (content_of p)"

text \<open>What the handler makes of a part, and the file that the request reports.\<close>

fun deliver :: "('u \<Rightarrow> string option \<Rightarrow> string option \<Rightarrow> 'u) \<Rightarrow> ('u \<Rightarrow> string \<Rightarrow> 'u) \<Rightarrow> ('u \<Rightarrow> bool \<Rightarrow> 'u) \<Rightarrow>
    'u \<Rightarrow> form_part \<Rightarrow> 'u" where
  "deliver start write finish u (Field name val) = u"
| "deliver start write finish u (File name fname content) =
     finish (if content = [] then start u (Some name) (Some fname)
             else write (start u (Some name) (Some fname)) content) True"

fun reported :: "form_part \<Rightarrow> upload_file_info list" where
  "reported (Field name val) = []"
| "reported (File name fname content) =
     [\<lparr>upload_name = take POST_STREAM_MAX_NAME fname, upload_data = None, upload_length = length content\<rparr>]"

definition file_handler :: "('u \<Rightarrow> string option \<Rightarrow> string option \<Rightarrow> 'u) \<Rightarrow> ('u \<Rightarrow> string \<Rightarrow> 'u) \<Rightarrow>
    ('u \<Rightarrow> bool \<Rightarrow> 'u) \<Rightarrow> ('u, 'r) post_stream_handler_entry \<Rightarrow> bool" where
  "file_handler start write finish h \<longleftrightarrow>
     on_start h = (\<lambda>ctx. ctx\<lparr>user_data := start (user_data ctx) (field_name ctx) (file_name ctx)\<rparr>) \<and>
     stores_with write h \<and>
     on_end h = (\<lambda>ctx ok. ctx\<lparr>user_data := finish (user_data ctx) ok\<rparr>)"

subsection \<open>The part header\<close>

lemma nfind_crlf:
  "CR \<notin> set u \<Longrightarrow> stringnfind_loop (u @ CR # LF # t) CRLF i 0 = int (i + length u + 1)"
  by (induction u arbitrary: i) (auto simp: CRLF_def)

lemma form_value_crlf:
  assumes "CR \<notin> set v" "nul_free v" "h_len \<le> length v"
  shows "form_value h_len (v @ CRLF @ t) (length (v @ CRLF @ t)) = Some (length v - h_len)"
proof -
  have n: "nat (1 + int (length v)) = Suc (length v)"
    by simp
  show ?thesis
    using assms nfind_crlf [of v t 0]
    by (simp add: form_value_def stringnfind_def Let_def CRLF_def nul_free_def n)
qed

lemma analyse_disposition:
  assumes "CR \<notin> set v" "nul_free v"
  shows "snd (analyse_form_loop 0 (CRLF @ ''Content-Disposition: '' @ v @ CRLF @ CRLF)
      (length (CRLF @ ''Content-Disposition: '' @ v @ CRLF @ CRLF)) hdr) =
    hdr\<lparr>Content_Disposition := Some v\<rparr>"
proof -
  let ?h = "''Content-Disposition: ''"
  have nul: "nul_free (?h @ v)" "CR \<notin> set (?h @ v)"
    using assms by simp_all
  have eqi: "strncaseeq (?h @ v @ CRLF @ CRLF) ?h 21"
    by (simp add: numeral_eq_Suc)
  have fv: "form_value 21 (?h @ v @ CRLF @ CRLF) (length (?h @ v @ CRLF @ CRLF)) = Some (length v)"
    using form_value_crlf [OF nul(2,1), of 21 CRLF] by simp
  have last: "analyse_form_loop k (CRLF @ CRLF) 4 hdr = (k + 4, hdr)" for k hdr
    by (subst analyse_form_loop.simps) (simp add: strncmp_zero)
  have d: "drop (21 + length v) (?h @ v @ CRLF @ CRLF) = CRLF @ CRLF"
      "take (length v) (drop 21 (?h @ v @ CRLF @ CRLF)) = v"
      "length (?h @ v @ CRLF @ CRLF) - (21 + length v) = 4"
    by (simp_all add: numeral_eq_Suc CRLF_def)
  have m: "strncmp (?h @ v @ CRLF @ CRLF) (CRLF @ CRLF) 4 \<noteq> 0" "length (?h @ v @ CRLF @ CRLF) \<noteq> 0"
    by (simp_all add: strncmp.simps CRLF_def)
  have "analyse_form_loop 2 (?h @ v @ CRLF @ CRLF) (length (?h @ v @ CRLF @ CRLF)) hdr =
      (2 + (21 + length v) + 4, hdr\<lparr>Content_Disposition := Some v\<rparr>)"
    unfolding analyse_form_loop.simps [of 2 "?h @ v @ CRLF @ CRLF"] fv option.case d last
      if_not_P [OF m(1)] if_not_P [OF m(2)] if_P [OF eqi] ..
  moreover have "analyse_form_loop 1 (LF # ?h @ v @ CRLF @ CRLF) (Suc (length (?h @ v @ CRLF @ CRLF))) hdr =
      analyse_form_loop 2 (?h @ v @ CRLF @ CRLF) (length (?h @ v @ CRLF @ CRLF)) hdr"
    by (subst analyse_form_loop.simps) (simp add: strncmp.simps CRLF_def numeral_eq_Suc tolower_def)
  moreover have "analyse_form_loop 0 (CRLF @ ?h @ v @ CRLF @ CRLF) (length (CRLF @ ?h @ v @ CRLF @ CRLF)) hdr =
      analyse_form_loop 1 (LF # ?h @ v @ CRLF @ CRLF) (Suc (length (?h @ v @ CRLF @ CRLF))) hdr"
    by (subst analyse_form_loop.simps) (simp add: strncmp.simps CRLF_def numeral_eq_Suc tolower_def)
  ultimately show ?thesis by simp
qed

lemma strstr_past_quote:
  assumes "CHR 0x22 \<notin> set key" "CHR ''='' \<in> set key" "CHR ''='' \<notin> set f"
  shows "strstr (f @ CHR 0x22 # t) key = map_option ((+) (length f + 1)) (strstr t key)"
proof -
  have "\<not> prefix key (drop j (f @ CHR 0x22 # t))" if "j < length f + 1" for j
  proof
    assume p: "prefix key (drop j (f @ CHR 0x22 # t))"
    have "drop j (f @ CHR 0x22 # t) = drop j f @ CHR 0x22 # t"
      using that by simp
    with p consider "prefix key (drop j f)" | us where "key = drop j f @ us" "prefix us (CHR 0x22 # t)"
      by (auto simp: prefix_append)
    then show False
    proof cases
      case 1
      then show False
        using assms(2,3) by (meson in_set_dropD set_mono_prefix subsetD)
    next
      case 2
      then show False
        using assms by (cases us) (auto dest: in_set_dropD)
    qed
  qed
  then show ?thesis
    using strstr_drop [of "length f + 1" key "f @ CHR 0x22 # t"] by simp
qed

lemma extract_hit:
  assumes "d = u @ key @ CHR 0x22 # x @ CHR 0x22 # t" "strstr d key = Some (length u)" "u \<noteq> []"
    "last u = CHR '' ''" "CHR 0x22 \<notin> set x"
  shows "extractDispositionValue (Some d) key = Some x"
proof -
  have "d ! (length u - 1) = CHR '' ''" "cget d (length u + length key) = CHR 0x22"
    using assms(1,3,4) by (simp_all add: nth_append last_conv_nth cget_append)
  then have k: "disposition_key d key 0 = Some (length u)"
    using assms(2) by (subst disposition_key.simps) simp
  have "drop (length u + length key + 1) d = x @ CHR 0x22 # t"
    using assms(1) by simp
  moreover have "takeWhile (\<lambda>c. c \<noteq> CHR 0x22) (x @ CHR 0x22 # t) = x"
    using assms(5) by (induction x) auto
  ultimately show ?thesis
    using k by (simp add: extractDispositionValue_def Let_def)
qed

lemma strstr_name: "strstr (''form-data; name='' @ t) ''name='' = Some 11"
  by simp

lemma strstr_filename:
  "strstr (''form-data; name='' @ CHR 0x22 # t) ''filename='' = map_option ((+) 17) (strstr t ''filename='')"
  by (cases "strstr t ''filename=''") simp_all

lemma ok_nameD: "ok_name f \<Longrightarrow> CHR 0x22 \<notin> set f \<and> CHR ''='' \<notin> set f \<and> CR \<notin> set f \<and> LF \<notin> set f \<and> nul_free f"
  by (auto simp: ok_name_def list_all_iff nul_free_def)

lemma extract_name:
  assumes "CHR 0x22 \<notin> set f"
  shows "extractDispositionValue (Some (''form-data; name='' @ [CHR 0x22] @ f @ CHR 0x22 # t)) ''name='' = Some f"
proof (rule extract_hit [where u = "''form-data; ''" and t = t])
  show "strstr (''form-data; name='' @ [CHR 0x22] @ f @ CHR 0x22 # t) ''name='' = Some (length ''form-data; '')"
    using strstr_name [of "[CHR 0x22] @ f @ CHR 0x22 # t"] by simp
qed (use assms in simp_all)

lemma extract_no_filename:
  assumes "ok_name f"
  shows "extractDispositionValue (Some (disposition_of (Field f v))) ''filename='' = None"
proof -
  have "strstr (disposition_of (Field f v)) ''filename='' = None"
    using strstr_filename [of "f @ [CHR 0x22]"] strstr_past_quote [of "''filename=''" f "[]"] ok_nameD [OF assms]
    by simp
  then show ?thesis
    by (simp add: extractDispositionValue_def disposition_key.simps del: disposition_of.simps)
qed

lemma extract_filename:
  assumes "ok_name f" "ok_name x"
  shows "extractDispositionValue (Some (disposition_of (File f x c))) ''filename='' = Some x"
proof -
  let ?u = "''form-data; name='' @ [CHR 0x22] @ f @ [CHR 0x22] @ ''; ''"
  have "strstr (''; filename='' @ t) ''filename='' = Some 2" for t
    by simp
  then have "strstr (disposition_of (File f x c)) ''filename='' = Some (length ?u)"
    using strstr_filename [of "f @ [CHR 0x22] @ ''; filename='' @ [CHR 0x22] @ x @ [CHR 0x22]"]
      strstr_past_quote [of "''filename=''" f "''; filename='' @ [CHR 0x22] @ x @ [CHR 0x22]"] ok_nameD [OF assms(1)]
    by simp
  then show ?thesis
    by (rule extract_hit [where u = ?u and t = "[]", rotated]) (use ok_nameD [OF assms(2)] in simp_all)
qed

lemma collect_text:
  "LF \<notin> set w \<Longrightarrow> length (post_stream_part_header s) + length w + 1 < POST_STREAM_MAX_PART_HEADER \<Longrightarrow>
    collectPartHeader s (w @ rest) =
      collectPartHeader (s\<lparr>post_stream_part_header := post_stream_part_header s @ w\<rparr>) rest"
proof (induction w arbitrary: s)
  case Nil
  then show ?case by simp
next
  case (Cons d w)
  have p: "header_push s d = s\<lparr>post_stream_part_header := post_stream_part_header s @ [d]\<rparr>" "\<not> header_full s"
    using Cons.prems by (simp_all add: header_push_def header_full_def Let_def)
  have "\<not> header_ends (s\<lparr>post_stream_part_header := post_stream_part_header s @ [d]\<rparr>)"
    using Cons.prems(1) by (auto simp: header_ends_def CRLF_def Let_def dest!: arg_cong [of _ _ last])
  with p Cons.prems show ?case
    using Cons.IH [of "s\<lparr>post_stream_part_header := post_stream_part_header s @ [d]\<rparr>"] by simp
qed

lemma collect_header:
  assumes "post_stream_part_header s = CRLF" "w \<noteq> []" "LF \<notin> set w" "length w \<le> 8000"
  shows "collectPartHeader s (w @ CRLF @ CRLF @ rest) =
    (s\<lparr>post_stream_part_header := CRLF @ w @ CRLF @ CRLF\<rparr>, rest, 1)"
proof -
  have push: "header_push (s\<lparr>post_stream_part_header := h\<rparr>) d = s\<lparr>post_stream_part_header := h @ [d]\<rparr>"
    and full: "\<not> header_full (s\<lparr>post_stream_part_header := h\<rparr>)" if "length h \<le> 8100" for h d
    using that by (simp_all add: header_push_def header_full_def Let_def POST_STREAM_MAX_PART_HEADER_def)
  have lf: "\<not> header_ends (s\<lparr>post_stream_part_header := h @ [CR]\<rparr>)" for h
    by (auto simp: header_ends_def CRLF_def Let_def dest!: arg_cong [of _ _ last])
  obtain v c where w: "w = v @ [c]" and c: "c \<noteq> LF"
    using assms(2,3) by (cases w rule: rev_cases) auto
  have one: "\<not> header_ends (s\<lparr>post_stream_part_header := CRLF @ w @ [CR, LF]\<rparr>)"
    using c by (auto simp: header_ends_def CRLF_def Let_def w nth_append
        dest!: arg_cong [of _ _ "\<lambda>l. l ! 1"])
  have two: "header_ends (s\<lparr>post_stream_part_header := CRLF @ w @ [CR, LF, CR, LF]\<rparr>)"
    by (simp add: header_ends_def CRLF_def Let_def)
  have "collectPartHeader s (w @ CRLF @ CRLF @ rest) =
      collectPartHeader (s\<lparr>post_stream_part_header := CRLF @ w\<rparr>) (CR # LF # CR # LF # rest)"
    using collect_text [OF assms(3), of s "CRLF @ CRLF @ rest"] assms(1,4)
    by (simp add: CRLF_def POST_STREAM_MAX_PART_HEADER_def)
  also have "\<dots> = (s\<lparr>post_stream_part_header := CRLF @ w @ CRLF @ CRLF\<rparr>, rest, 1)"
    using push full lf one two assms(4) lf [of "CRLF @ w"] lf [of "CRLF @ w @ [CR, LF]"]
    by (simp add: CRLF_def)
  finally show ?thesis .
qed

lemma content_first:
  assumes "CR \<notin> set bound" "\<not> sublist (CRLF @ bound) c"
  shows "strstr (c @ CRLF @ bound @ rest) (CRLF @ bound) = Some (length c)"
proof -
  let ?n = "CRLF @ bound"
  have "\<not> prefix ?n (drop j (c @ ?n @ rest))" if j: "j < length c" for j
  proof
    assume p: "prefix ?n (drop j (c @ ?n @ rest))"
    have sub: "\<not> prefix ?n (drop j c)"
      using assms(2) by (metis append_take_drop_id prefix_def sublist_appendI)
    have "prefix ?n (drop j c @ (?n @ rest))"
      using p j by simp
    then obtain us where us: "?n = drop j c @ us" "prefix us (?n @ rest)"
      using sub unfolding prefix_append [of ?n "drop j c"] by blast
    obtain d ds where d: "drop j c = d # ds"
      using j by (cases "drop j c") auto
    show False
    proof (cases us)
      case Nil
      with us(1) sub show False by simp
    next
      case (Cons a as)
      then have "a = CR" "CR \<in> set (LF # bound)"
        using us d by (auto simp: CRLF_def Cons_eq_append_conv)
      with assms(1) show False by simp
    qed
  qed
  then show ?thesis
    using strstr_drop [of "length c" ?n "c @ ?n @ rest"] strstr_prefix [of ?n "?n @ rest"] by simp
qed

subsection \<open>From one boundary to the next\<close>

definition files_in :: "bool \<Rightarrow> post_stream_part list \<Rightarrow> upload_file_info list" where
  "files_in discard ps =
     map file_info (filter (\<lambda>p. is_file p \<and> \<not> discard \<and> \<not> failed p \<and> \<not> truncated p) (rev ps))"

lemma files_in_simps [simp]:
  "files_in d [] = []"
  "files_in d (p # ps) = files_in d ps @
     (if is_file p \<and> \<not> d \<and> \<not> failed p \<and> \<not> truncated p then [file_info p] else [])"
  by (simp_all add: files_in_def)

lemma files_in_blank [simp]: "files_in d (map blank ps) = files_in d ps"
  by (induction ps) (auto simp: blank_def file_info_def)

lemma fill_files:
  "post_streaming_active s \<Longrightarrow>
    snd (postStreamFillUploadInfo s us) = us @ files_in (post_stream_discard s) (post_stream_parts s)"
proof -
  have "keep_part s = (\<lambda>p. is_file p \<and> \<not> post_stream_discard s \<and> \<not> failed p \<and> \<not> truncated p)"
    by (auto simp: keep_part_def)
  then show "post_streaming_active s \<Longrightarrow>
    snd (postStreamFillUploadInfo s us) = us @ files_in (post_stream_discard s) (post_stream_parts s)"
    by (simp add: postStreamFillUploadInfo_def files_in_def)
qed

definition closed :: "('u, 'r) post_stream \<Rightarrow> ('u, 'r) post_stream" where
  "closed s = (if post_stream_delim_in_data s then endPart s True else s)"

text \<open>What holds of the stream when no part is open.\<close>

definition between :: "string \<Rightarrow> ('u, 'r) post_stream_handler_entry \<Rightarrow> 'u \<Rightarrow> upload_file_info list \<Rightarrow> nat \<Rightarrow>
    ('u, 'r) post_stream \<Rightarrow> bool" where
  "between bound h u fs k s \<longleftrightarrow> post_streaming_active s \<and>
     (\<exists>c. post_stream_ctx s = Some c \<and> \<not> aborted c \<and> user_data c = u) \<and>
     post_stream_handler s = Some h \<and> post_stream_delim s = CRLF @ bound \<and> \<not> post_stream_discard s \<and>
     error (header s) = 0 \<and> files_in False (post_stream_parts s) = fs \<and> post_stream_parts_count s = k \<and>
     \<not> post_stream_started s"

definition at_boundary :: "string \<Rightarrow> ('u, 'r) post_stream_handler_entry \<Rightarrow> 'u \<Rightarrow> upload_file_info list \<Rightarrow> nat \<Rightarrow>
    ('u, 'r) post_stream \<Rightarrow> bool" where
  "at_boundary bound h u fs k s \<longleftrightarrow> post_stream_state s = DELIM_CHECK \<and> post_stream_hold s = [] \<and>
     between bound h u fs k (closed s)"

lemma between_core: "between bound h u fs k (core s) \<longleftrightarrow> between bound h u fs k s"
  by (simp add: between_def at_zero_def)

lemma hold_same: "post_stream_hold s = [] \<Longrightarrow> s\<lparr>post_stream_hold := []\<rparr> = s"
  by simp

lemma part_header_read:
  assumes "ok_names p" "post_stream_part_header s = CRLF @ (''Content-Disposition: '' @ disposition_of p) @ CRLF @ CRLF"
  shows "parse_part_header s = (header s)\<lparr>Content_Disposition := Some (disposition_of p), Content_Type := None\<rparr>"
proof -
  have "CR \<notin> set (disposition_of p)" "nul_free (disposition_of p)"
    using assms(1) by (cases p; auto dest!: ok_nameD)+
  from analyse_disposition [OF this] show ?thesis
    unfolding parse_part_header_def analyseFormDataLine_def assms(2) append_assoc
    by (auto intro: HttpRequestHeader.equality)
qed

lemma header_text:
  assumes "ok_names p"
  shows "LF \<notin> set (''Content-Disposition: '' @ disposition_of p)"
    "length (''Content-Disposition: '' @ disposition_of p) \<le> 8000"
  using assms by (cases p; auto simp: ok_name_def list_all_iff; fail)+

text \<open>The part that is open behind its header, and what its end leaves.\<close>

definition part_open :: "form_part \<Rightarrow> 'u post_stream_context \<Rightarrow> ('u, 'r) post_stream \<Rightarrow> ('u, 'r) post_stream" where
  "part_open p c s =
     (let hdr = (header s)\<lparr>Content_Disposition := Some (disposition_of p), Content_Type := None\<rparr>
      in enter_part (named_part hdr (name_part hdr c) s) (name_part hdr c))"

fun name_of :: "form_part \<Rightarrow> string" where
  "name_of (Field f v) = f"
| "name_of (File f x d) = f"

fun fname_of :: "form_part \<Rightarrow> string option" where
  "fname_of (Field f v) = None"
| "fname_of (File f x d) = Some x"

lemma extract_names:
  assumes "ok_names p"
  shows "extractDispositionValue (Some (disposition_of p)) ''name='' = Some (name_of p)"
    "extractDispositionValue (Some (disposition_of p)) ''filename='' = fname_of p"
proof -
  show "extractDispositionValue (Some (disposition_of p)) ''name='' = Some (name_of p)"
  proof (cases p)
    case (Field f v)
    with assms ok_nameD [of f] extract_name [of f "[]"] show ?thesis by simp
  next
    case (File f x d)
    with assms ok_nameD [of f] extract_name [of f "''; filename='' @ [CHR 0x22] @ x @ [CHR 0x22]"]
    show ?thesis by simp
  qed
  show "extractDispositionValue (Some (disposition_of p)) ''filename='' = fname_of p"
    using assms extract_no_filename extract_filename by (cases p) (auto simp del: disposition_of.simps)
qed

lemma name_part_names:
  "ok_names p \<Longrightarrow> name_part ((header s)\<lparr>Content_Disposition := Some (disposition_of p), Content_Type := None\<rparr>) c =
    c\<lparr>field_name := Some (name_of p), file_name := fname_of p, received_length := 0\<rparr>"
  by (simp add: name_part_def extract_names)

lemma round_boundary:
  assumes "post_stream_state s = DELIM_CHECK" "post_stream_hold s = []"
  shows "feed_round s (CRLF @ X) = ((closed s)\<lparr>post_stream_state := AFTER_BOUNDARY\<rparr>, X, False)"
    "feed_round s (''--'' @ X) = ((closed s)\<lparr>post_stream_state := EPILOGUE\<rparr>, X, False)"
  using assms
  by (simp_all add: hold_same [OF assms(2)] feed_round_def delim_check_def delim_decide_def closed_def Let_def CRLF_def)

lemma round_header:
  assumes "post_stream_state s = PART_HEADER" "post_stream_part_header s = CRLF"
    "post_stream_ctx s = Some c" "\<not> aborted c" "\<not> post_stream_discard s" "error (header s) = 0" "ok_names p"
  shows "feed_round s ((''Content-Disposition: '' @ disposition_of p) @ CRLF @ CRLF @ X) =
    ((part_open p c (s\<lparr>post_stream_part_header := CRLF @ (''Content-Disposition: '' @ disposition_of p) @ CRLF @ CRLF\<rparr>))
       \<lparr>post_stream_state := PART_DATA\<rparr>, X, False)"
proof -
  let ?w = "''Content-Disposition: '' @ disposition_of p"
  let ?s = "s\<lparr>post_stream_part_header := CRLF @ ?w @ CRLF @ CRLF\<rparr>"
  have c: "collectPartHeader s (?w @ CRLF @ CRLF @ X) = (?s, X, 1)"
    using collect_header [OF assms(2) _ header_text [OF assms(7)]] by simp
  have p: "parse_part_header (?s\<lparr>post_stream_current_part := None\<rparr>) =
      (header s)\<lparr>Content_Disposition := Some (disposition_of p), Content_Type := None\<rparr>"
    using part_header_read [OF assms(7), of "?s\<lparr>post_stream_current_part := None\<rparr>"] by simp
  have ctx: "post_stream_ctx ?s = Some c"
    using assms(3) by simp
  have "beginPart ?s = (part_open p c ?s, True)"
    unfolding begin_eq [OF ctx p] part_open_def Let_def using assms(4-6) by simp
  then show ?thesis
    using c assms(1) by (simp add: feed_round_def del: append_assoc)
qed

lemma round_data:
  assumes "post_stream_state s = PART_DATA" "storing s" "post_stream_hold s = []"
    "post_stream_delim s = CRLF @ bound" "CR \<notin> set bound" "\<not> sublist (CRLF @ bound) d"
  shows "\<exists>t. feed_round s (d @ CRLF @ bound @ X) =
      (t\<lparr>post_stream_delim_in_data := True, post_stream_state := DELIM_CHECK\<rparr>, X, False) \<and>
    core t = core (emitPartData s d)"
proof -
  have "strstr (post_stream_hold s @ d @ CRLF @ bound @ X) (CRLF @ bound) = Some (length d)"
    using content_first [OF assms(5,6)] assms(3) by simp
  from scan_finds [OF assms(2) _ _ this] obtain t where
    t: "scanForNeedle s (CRLF @ bound) (d @ CRLF @ bound @ X) True = (t, X, True)"
    "core t = core ((emitPartData s d)\<lparr>post_stream_hold := []\<rparr>)"
    using assms(3) by (auto simp: CRLF_def)
  then have "core t = core (emitPartData s d)"
    using assms(3) hold_same [of "emitPartData s d"] by simp
  then show ?thesis
    using t(1) assms(1,4) by (intro exI [of _ t]) (simp add: feed_round_def)
qed

lemma part_open_fields:
  fixes c :: "'u post_stream_context"
  assumes "ok_names p"
  defines "c' \<equiv> c\<lparr>field_name := Some (name_of p), file_name := fname_of p, received_length := 0\<rparr>"
  shows "post_streaming_active (part_open p c s) = post_streaming_active s"
    "post_stream_handler (part_open p c s) = post_stream_handler s"
    "post_stream_delim (part_open p c s) = post_stream_delim s"
    "post_stream_discard (part_open p c s) = post_stream_discard s"
    "post_stream_hold (part_open p c s) = post_stream_hold s"
    "error (header (part_open p c s)) = error (header s)"
    "post_stream_parts_count (part_open p c s) = Suc (post_stream_parts_count s)"
    "post_stream_parts (part_open p c s) = new_part c' # post_stream_parts s"
    "post_stream_current_part (part_open p c s) = Some 0"
    "post_stream_part_is_file (part_open p c s) \<longleftrightarrow> fname_of p \<noteq> None"
    "post_stream_started (part_open p c s) \<longleftrightarrow> fname_of p \<noteq> None \<or> post_stream_started s"
    "post_stream_ctx (part_open p c s) = Some (if fname_of p \<noteq> None then call_start s c' else c')"
  unfolding part_open_def Let_def name_part_names [OF assms(1)] c'_def
  by (simp_all add: enter_part_def named_part_def Let_def call_start_def)

text \<open>The end of a part, computed on the core.\<close>

lemma part_end:
  assumes b: "between bound h u fs k s" and c: "post_stream_ctx s = Some c" and ok: "ok_names p"
    and h: "file_handler start write finish h"
    and y: "core y = core (emitPartData ((part_open p c s)\<lparr>post_stream_state := st\<rparr>) (content_of p))"
  shows "between bound h (deliver start write finish u p) (fs @ reported p) (Suc k)
    (closed (y\<lparr>post_stream_delim_in_data := True, post_stream_state := st'\<rparr>))"
proof -
  let ?e = "core ((part_open p c s)\<lparr>post_stream_state := st\<rparr>)"
  let ?d = "(emit_file ?e (content_of p))\<lparr>post_stream_delim_in_data := True, post_stream_state := st'\<rparr>"
  note f = part_open_fields [OF ok, where s = s and c = c]
  have core: "core (closed (y\<lparr>post_stream_delim_in_data := True, post_stream_state := st'\<rparr>)) = endPart ?d True"
    by (simp add: closed_def core_end y core_emit)
  have "between bound h (deliver start write finish u p) (fs @ reported p) (Suc k) (endPart ?d True)"
  proof (cases p)
    case (Field nm v)
    have "emit_file ?e (content_of p) = ?e"
      using f Field by (simp add: emit_file_def)
    then show ?thesis
      using b c f Field
      by (simp add: between_def endPart_def end_call_def end_entry_def new_part_def at_zero_def)
  next
    case (File nm fn d)
    define c1 where "c1 = c\<lparr>field_name := Some nm, file_name := Some fn, received_length := 0,
      user_data := start u (Some nm) (Some fn)\<rparr>"
    define c2 where "c2 = (if d = [] then c1 else c1\<lparr>received_length := length d, user_data := write (user_data c1) d\<rparr>)"
    have s: "post_stream_handler s = Some h" "\<not> aborted c" "user_data c = u" "\<not> post_stream_discard s"
      using b c by (auto simp: between_def)
    have e: "post_stream_ctx ?e = Some c1"
      using f(12) File h s by (simp add: c1_def call_start_def file_handler_def)
    have d: "post_stream_ctx ?d = Some c2"
      using e f(2,4,10) File h s
      by (cases d) (simp_all add: emit_file_def receive_chunk_def c2_def call_chunk_def file_handler_def stores_with_def c1_def)
    define D where "D = ?d"
    have D: "post_stream_ctx D = Some c2" "post_stream_handler D = Some h" "post_stream_part_is_file D"
        "post_stream_started D" "post_stream_current_part D = Some 0" "post_streaming_active D"
        "post_stream_delim D = CRLF @ bound" "\<not> post_stream_discard D" "error (header D) = 0"
        "post_stream_parts_count D = Suc k"
        "post_stream_parts D = new_part (c\<lparr>field_name := Some nm, file_name := Some fn, received_length := 0\<rparr>) #
          map blank (post_stream_parts s)"
      using d f File b by (simp_all add: D_def emit_file_def e between_def at_zero_def)
    have "end_call D True c2 = c2\<lparr>user_data := finish (user_data c2) True\<rparr>"
      using D h s by (simp add: end_call_def call_end_def file_handler_def c2_def c1_def)
    moreover have "received_length c2 = length d" "\<not> aborted c2"
        "finish (user_data c2) True = deliver start write finish u p"
      using s File by (simp_all add: c2_def c1_def)
    moreover have "files_in False (post_stream_parts s) = fs"
      using b by (simp add: between_def)
    ultimately show ?thesis
      unfolding D_def [symmetric] between_def using D File
      by (simp add: endPart_def end_entry_def new_part_def file_info_def part_label_def)
  qed
  then show ?thesis
    by (metis between_core core)
qed

lemma loop_round: "feed_round s ds = (s', r, False) \<Longrightarrow> ds \<noteq> [] \<Longrightarrow> feed_loop s ds = feed_loop s' r"
  by (simp add: loop_unfold Let_def)

lemma file_handler_storing: "file_handler start write finish h \<Longrightarrow> post_stream_handler s = Some h \<Longrightarrow> storing s"
  by (auto simp: file_handler_def storing_def)

lemma part_step:
  assumes at: "at_boundary bound h u fs k s" and ok: "ok_form bound p" and k: "k < POST_STREAM_MAX_PARTS"
    and bound: "CR \<notin> set bound" and h: "file_handler start write finish h"
  shows "\<exists>s'. feed_loop s (part_text bound p @ X) = feed_loop s' X \<and>
    at_boundary bound h (deliver start write finish u p) (fs @ reported p) (Suc k) s'"
proof -
  let ?w = "''Content-Disposition: '' @ disposition_of p"
  let ?z = "closed s"
  have z: "between bound h u fs k ?z"
    using at by (simp add: at_boundary_def)
  then obtain c where c: "post_stream_ctx ?z = Some c" "\<not> aborted c" "\<not> post_stream_discard ?z"
      "error (header ?z) = 0" "post_stream_parts_count ?z = k" "post_stream_handler ?z = Some h"
      "post_stream_delim ?z = CRLF @ bound"
    by (auto simp: between_def)
  have names: "ok_names p" "\<not> sublist (CRLF @ bound) (content_of p)"
    using ok by (simp_all add: ok_form_def)
  let ?y = "content_of p @ CRLF @ bound @ X"
  have body: "part_text bound p @ X = CRLF @ ?w @ CRLF @ CRLF @ ?y"
    by (simp add: part_text_def)
  have r1: "feed_round s (CRLF @ ?w @ CRLF @ CRLF @ ?y) =
      (?z\<lparr>post_stream_state := AFTER_BOUNDARY\<rparr>, ?w @ CRLF @ CRLF @ ?y, False)"
    using at round_boundary(1) [of s] by (simp add: at_boundary_def)
  let ?a = "?z\<lparr>post_stream_part_header := CRLF, post_stream_hold := [], post_stream_state := PART_HEADER\<rparr>"
  have "after_boundary (?z\<lparr>post_stream_state := AFTER_BOUNDARY\<rparr>) = ?a"
    using c k by (simp add: after_boundary_def)
  then have r2: "feed_round (?z\<lparr>post_stream_state := AFTER_BOUNDARY\<rparr>) (?w @ CRLF @ CRLF @ ?y) =
      (?a, ?w @ CRLF @ CRLF @ ?y, False)"
    by (simp add: feed_round_def)
  let ?b = "?a\<lparr>post_stream_part_header := CRLF @ ?w @ CRLF @ CRLF\<rparr>"
  let ?o = "(part_open p c ?b)\<lparr>post_stream_state := PART_DATA\<rparr>"
  have r3: "feed_round ?a (?w @ CRLF @ CRLF @ ?y) = (?o, ?y, False)"
    by (rule round_header) (use c names in simp_all)
  note f = part_open_fields [OF names(1), where c = c and s = ?b]
  have "post_stream_handler ?o = Some h" "post_stream_hold ?o = []" "post_stream_delim ?o = CRLF @ bound"
    using f(2,3,5) c by simp_all
  then obtain t where t: "feed_round ?o ?y =
        (t\<lparr>post_stream_delim_in_data := True, post_stream_state := DELIM_CHECK\<rparr>, X, False)"
      "core t = core (emitPartData ?o (content_of p))"
    using round_data [of ?o bound "content_of p" X] file_handler_storing [OF h, of ?o] bound names(2) by auto
  let ?s' = "t\<lparr>post_stream_delim_in_data := True, post_stream_state := DELIM_CHECK\<rparr>"
  have ne: "CRLF @ ?w @ CRLF @ CRLF @ ?y \<noteq> []" "?w @ CRLF @ CRLF @ ?y \<noteq> []" "?y \<noteq> []"
    by (simp_all add: CRLF_def)
  have "feed_loop s (part_text bound p @ X) = feed_loop ?s' X"
    unfolding body loop_round [OF r1 ne(1)] loop_round [OF r2 ne(2)] loop_round [OF r3 ne(2)] loop_round [OF t(1) ne(3)] ..
  moreover have "between bound h u fs k ?b" "post_stream_ctx ?b = Some c"
    using z c(1) by (simp_all add: between_def)
  from part_end [OF this names(1) h t(2), of DELIM_CHECK]
  have "at_boundary bound h (deliver start write finish u p) (fs @ reported p) (Suc k) ?s'"
    using core_eqD(7) [OF t(2)] f(5) by (simp add: at_boundary_def)
  ultimately show ?thesis by blast
qed

lemma parts_run:
  "at_boundary bound h u fs k s \<Longrightarrow> list_all (ok_form bound) ps \<Longrightarrow> k + length ps \<le> POST_STREAM_MAX_PARTS \<Longrightarrow>
    CR \<notin> set bound \<Longrightarrow> file_handler start write finish h \<Longrightarrow>
    \<exists>s'. feed_loop s (concat (map (part_text bound) ps) @ X) = feed_loop s' X \<and>
      at_boundary bound h (foldl (deliver start write finish) u ps) (fs @ concat (map reported ps)) (k + length ps) s'"
proof (induction ps arbitrary: u fs k s)
  case (Cons p ps)
  have ok: "ok_form bound p" "k < POST_STREAM_MAX_PARTS"
    using Cons.prems(2,3) by simp_all
  obtain s1 where s1: "feed_loop s (part_text bound p @ concat (map (part_text bound) ps) @ X) =
        feed_loop s1 (concat (map (part_text bound) ps) @ X)"
      "at_boundary bound h (deliver start write finish u p) (fs @ reported p) (Suc k) s1"
    using part_step [OF Cons.prems(1) ok Cons.prems(4,5)] by blast
  from Cons.IH [OF s1(2) _ _ Cons.prems(4,5)] Cons.prems(2,3) s1(1) show ?case
    by simp
qed auto

lemma body_run:
  assumes "post_stream_state s = PREAMBLE" "post_stream_hold s = []" "between bound h u [] 0 s"
    "list_all (ok_form bound) ps" "length ps \<le> POST_STREAM_MAX_PARTS" "bound \<noteq> []" "CR \<notin> set bound"
    "file_handler start write finish h"
  shows "\<exists>s'. feed_loop s (multipart_body bound ps epilogue) = (s', False) \<and> post_stream_state s' = EPILOGUE \<and>
    between bound h (foldl (deliver start write finish) u ps) (concat (map reported ps)) (length ps) s'"
proof -
  let ?X = "concat (map (part_text bound) ps) @ ''--'' @ epilogue"
  have delim: "drop 2 (post_stream_delim s) = bound"
    using assms(3) by (simp add: between_def CRLF_def)
  have fill: "fill_hold h' n (drop (length h') n @ r) = (n, r)" if "prefix h' n" for h' n r
    using that
  proof (induction "length n - length h'" arbitrary: h')
    case 0
    then have "h' = n"
      using prefix_length_le [of h' n] by (simp add: take_prefix_iff [symmetric])
    then show ?case by (simp add: fill_full)
  next
    case (Suc k)
    then have l: "length h' < length n" and p: "prefix (h' @ [n ! length h']) n"
      by (linarith, metis Suc.hyps(2) Suc.prems append_eq_conv_conj prefix_def take_Suc_conv_app_nth take_is_prefix zero_less_Suc zero_less_diff)
    then show ?case
      using Suc.hyps(1) [of "h' @ [n ! length h']"] Suc.hyps(2) Cons_nth_drop_Suc [OF l, symmetric] by simp
  qed
  have sk: "skip_to s bound (bound @ ?X) False = (s, bound @ ?X)"
    using assms(2,6) by (cases bound) (simp_all add: skip_to_def Let_def)
  have "scanForNeedle s bound (bound @ ?X) False = (s, ?X, True)"
    using scan_unfold [OF sk, of bound ?X] fill [of "[]" bound ?X] assms(2,6) by (simp add: hold_same)
  then have r: "feed_round s (bound @ ?X) =
      (s\<lparr>post_stream_delim_in_data := False, post_stream_state := DELIM_CHECK\<rparr>, ?X, False)"
    using assms(1) delim by (simp add: feed_round_def)
  let ?b = "s\<lparr>post_stream_delim_in_data := False, post_stream_state := DELIM_CHECK\<rparr>"
  have "at_boundary bound h u [] 0 ?b"
    using assms(2,3) by (simp add: at_boundary_def closed_def between_def)
  from parts_run [OF this assms(4) _ assms(7,8), of "''--'' @ epilogue"] assms(5) obtain s1 where
    s1: "feed_loop ?b ?X = feed_loop s1 (''--'' @ epilogue)"
      "at_boundary bound h (foldl (deliver start write finish) u ps) (concat (map reported ps)) (length ps) s1"
    by auto
  have e: "feed_round s1 (''--'' @ epilogue) = ((closed s1)\<lparr>post_stream_state := EPILOGUE\<rparr>, epilogue, False)"
    using s1(2) round_boundary(2) [of s1] by (simp add: at_boundary_def)
  have "feed_loop ((closed s1)\<lparr>post_stream_state := EPILOGUE\<rparr>) epilogue = ((closed s1)\<lparr>post_stream_state := EPILOGUE\<rparr>, False)"
    by (cases "epilogue = []") (simp_all add: loop_unfold feed_round_def)
  then have "feed_loop s (multipart_body bound ps epilogue) = ((closed s1)\<lparr>post_stream_state := EPILOGUE\<rparr>, False)"
    using loop_round [OF r] loop_round [OF e] s1(1) assms(6) by (simp add: multipart_body_def)
  with s1(2) show ?thesis
    by (auto simp: at_boundary_def between_def)
qed

subsection \<open>The upload as a whole\<close>

lemma start_eq:
  assumes "boundary (header sock) = Some bound" "url (header sock) = Some u"
  obtains s c where "startPostStream u0 (Some h) discard sock = (s, 0)" "opened s" "post_stream_state s = PREAMBLE"
    "post_stream_hold s = []" "post_stream_handler s = Some h" "post_stream_delim s = CRLF @ cstr bound"
    "post_stream_ctx s = Some c" "\<not> aborted c" "user_data c = u0" "post_stream_discard s = discard"
    "header s = header sock" "post_stream_parts s = post_stream_parts sock" "post_stream_parts_count s = 0"
    "\<not> post_stream_started s"
  using assms that by (simp add: startPostStream_def opened_def)

lemma feed_whole:
  assumes "opened s" "feed_loop (advance (length d) s) d = (t, False)" "post_stream_state t = EPILOGUE"
    "length_of s \<le> ucast (pos_of s + of_nat (length d))"
  shows "postStreamFeed s d = (t, 1)"
  using assms by (simp add: feed_eq)

lemma files_core: "core s = core t \<Longrightarrow> files_in d (post_stream_parts s) = files_in d (post_stream_parts t)"
  by (metis stream_core_fields(15) files_in_blank)

lemma fill_core:
  assumes "core s = core t"
  shows "snd (postStreamFillUploadInfo s us) = snd (postStreamFillUploadInfo t us)"
proof (cases "post_streaming_active s")
  case True
  then show ?thesis
    using core_eqD(2,11) [OF assms] files_core [OF assms] by (simp add: fill_files)
next
  case False
  then show ?thesis
    using core_eqD(2) [OF assms] by (simp add: postStreamFillUploadInfo_def)
qed

text \<open>C2: an upload comes back: a multipart body written from form fields and files, cut into
  reads in any way, is received completely; the handler's user data is what starting, writing
  and finishing each file in turn makes of it, the form fields do not reach it, and the request
  reports exactly the files, in order, with their names and lengths. The condition on the
  contents is that the boundary, behind a line end, does not occur in them.\<close>

theorem post_stream_roundtrip:
  assumes h: "file_handler start write finish h"
    and sock: "boundary (header sock) = Some bound" "url (header sock) = Some u" "error (header sock) = 0"
      "post_buffer_pos (header sock) = 0" "post_stream_parts sock = []"
    and bound: "nul_free bound" "bound \<noteq> []" "CR \<notin> set bound"
    and ps: "list_all (ok_form bound) ps" "length ps \<le> POST_STREAM_MAX_PARTS"
    and cs: "concat cs = multipart_body bound ps epilogue" "[] \<notin> set cs"
    and len: "contentlenght (header sock) = of_nat (length (concat cs))" "length (concat cs) < 2 ^ 32"
  shows "\<exists>s s' c. startPostStream u0 (Some h) False sock = (s, 0) \<and> stream_run s cs = (s', 1) \<and>
    post_stream_ctx s' = Some c \<and> user_data c = foldl (deliver start write finish) u0 ps \<and>
    snd (postStreamFillUploadInfo s' []) = concat (map reported ps)"
proof -
  obtain s c where s: "startPostStream u0 (Some h) False sock = (s, 0)" "opened s" "post_stream_state s = PREAMBLE"
      "post_stream_hold s = []" "post_stream_handler s = Some h" "post_stream_delim s = CRLF @ cstr bound"
      "post_stream_ctx s = Some c" "\<not> aborted c" "user_data c = u0" "post_stream_discard s = False"
      "header s = header sock" "post_stream_parts s = post_stream_parts sock" "post_stream_parts_count s = 0"
      "\<not> post_stream_started s"
    using start_eq [OF sock(1,2), of u0 h False] by blast
  let ?d = "multipart_body bound ps epilogue" and ?u = "foldl (deliver start write finish) u0 ps"
  let ?s = "advance (length ?d) s"
  have len_s: "unat (length_of s) = length ?d"
    using len s(11) cs(1) by (simp add: unat_of_nat)
  have "between bound h u0 [] 0 ?s" "post_stream_state ?s = PREAMBLE" "post_stream_hold ?s = []"
    using s sock bound(1) by (simp_all add: between_def advance_def opened_def)
  from body_run [OF this(2,3,1) ps bound(2,3) h, of epilogue] obtain t where
    t: "feed_loop ?s ?d = (t, False)" "post_stream_state t = EPILOGUE"
      "between bound h ?u (concat (map reported ps)) (length ps) t"
    by blast
  have "length_of s \<le> ucast (pos_of s + of_nat (length ?d))"
    using pos_add [of "pos_of s" "length ?d"] s(11) sock(4) len_s len(2) cs(1) by (simp add: word_le_nat_alt)
  then have feed: "postStreamFeed s ?d = (t, 1)"
    by (rule feed_whole [OF s(2) t(1,2)])
  have "cs \<noteq> []"
    using cs(1) bound(2) by (auto simp: multipart_body_def)
  then have run: "core (fst (stream_run s cs)) = core t" "snd (stream_run s cs) = 1"
    using stream_run_eq [OF s(2) file_handler_storing [OF h s(5)] _ cs(2)] len_s len(2) s(11) sock(4) cs(1) feed
    by simp_all
  obtain s' where s': "stream_run s cs = (s', 1)" "core s' = core t"
    using run by (metis fst_conv snd_conv surj_pair)
  have "between bound h ?u (concat (map reported ps)) (length ps) s'"
    using t(3) s'(2) by (metis between_core)
  then show ?thesis
    using s(1) s'(1) by (auto simp: between_def fill_files)
qed

text \<open>A handler that keeps what it is given: the list of the files received, the open one first.\<close>

definition keeper :: "((string option \<times> string) list, unit) post_stream_handler_entry" where
  "keeper = \<lparr>handler_url = ''upload'', auth_check = None, max_size = 1000,
     on_start = (\<lambda>ctx. ctx\<lparr>user_data := (file_name ctx, []) # user_data ctx\<rparr>),
     on_chunk = (\<lambda>ctx d. ctx\<lparr>user_data := (case user_data ctx of [] \<Rightarrow> [] | (n, c) # fs \<Rightarrow> (n, c @ d) # fs)\<rparr>),
     on_end = (\<lambda>ctx ok. ctx)\<rparr>"

lemma keeper_files:
  "file_handler (\<lambda>u f n. (n, []) # u) (\<lambda>u d. case u of [] \<Rightarrow> [] | (n, c) # fs \<Rightarrow> (n, c @ d) # fs) (\<lambda>u ok. u) keeper"
  by (simp add: file_handler_def stores_with_def keeper_def fun_eq_iff split: list.split)

definition stream_example :: "nat \<Rightarrow> ('u, unit) post_stream" where
  "stream_example n =
     \<lparr>header = \<lparr>url = Some ''upload'', req_method = 2, error_method = [], error = 0, contentlenght = of_nat n,
        contenttype = 2, If_Modified_Since = None, etag = None, Upgrade = None, Connection = None,
        Host = None, HostName = None, Origin = None, Access_Control_Request_Method = None,
        Access_Control_Request_Headers = None, Accept_Encoding = None, isHttp1_1 = 1, UserAgent = None,
        Accept = None, Authorization = None, Referer = None, header_complete = 1, parsed_bytes = 0,
        SecWebSocketProtocol = None, SecWebSocketKey = None, SecWebSocketVersion = 0,
        no_websocket_support = 0, post_buffer = None, post_buffer_pos = 0, post_buffer_reserved = 0,
        boundary = Some ''--xy'', Content_Disposition = None, Content_Type = None,
        parameter_store = 1, cookie_list = []\<rparr>,
      post_streaming_active = False, post_stream_state = PREAMBLE, post_stream_ctx = None,
      post_stream_handler = None, post_stream_read_buf_size = 0, post_stream_delim = [], post_stream_hold = [],
      post_stream_hold_size = 0, post_stream_part_header = [], post_stream_part_is_file = False,
      post_stream_started = False, post_stream_discard = False, post_stream_delim_in_data = False,
      post_stream_parts = [], post_stream_current_part = None, post_stream_parts_count = 0,
      post_stream_fields_total = 0, post_stream_field_limit_logged = False\<rparr>"

lemma stream_example_fields [simp]:
  "boundary (header (stream_example n)) = Some ''--xy''" "url (header (stream_example n)) = Some ''upload''"
  "error (header (stream_example n)) = 0" "post_buffer_pos (header (stream_example n)) = 0"
  "post_stream_parts (stream_example n) = []" "contentlenght (header (stream_example n)) = of_nat n"
  by (simp_all add: stream_example_def)

definition form_example :: "form_part list" where
  "form_example = [Field ''a'' ''1'', File ''f'' ''x.bin'' (''12'' @ CRLF @ ''--x'' @ CRLF)]"

text \<open>The body of the example, one byte at a time.\<close>

definition reads_example :: "string list" where
  "reads_example = map (\<lambda>c. [c]) (multipart_body ''--xy'' form_example CRLF)"

lemma form_example_ok: "list_all (ok_form ''--xy'') form_example" "length form_example \<le> POST_STREAM_MAX_PARTS"
    "concat reads_example = multipart_body ''--xy'' form_example CRLF" "[] \<notin> set reads_example"
    "length (concat reads_example) = 140"
  by code_simp+

theorem post_stream_roundtrip_witness:
  "\<exists>s s' c. startPostStream [] (Some keeper) False (stream_example 140) = (s, 0) \<and>
     stream_run s reads_example = (s', 1) \<and> post_stream_ctx s' = Some c \<and>
     user_data c = [(Some ''x.bin'', ''12'' @ CRLF @ ''--x'' @ CRLF)] \<and>
     snd (postStreamFillUploadInfo s' []) = [\<lparr>upload_name = ''x.bin'', upload_data = None, upload_length = 9\<rparr>]"
proof -
  have d: "foldl (deliver (\<lambda>u f n. (n, []) # u) (\<lambda>u d. case u of [] \<Rightarrow> [] | (n, c) # fs \<Rightarrow> (n, c @ d) # fs) (\<lambda>u ok. u)) []
      form_example = [(Some ''x.bin'', ''12'' @ CRLF @ ''--x'' @ CRLF)]"
    by code_simp
  have r: "concat (map reported form_example) = [\<lparr>upload_name = ''x.bin'', upload_data = None, upload_length = 9\<rparr>]"
    by code_simp
  show ?thesis
    using post_stream_roundtrip [OF keeper_files, of "stream_example 140" "''--xy''" "''upload''" form_example
        reads_example CRLF "[]"] form_example_ok
    unfolding d r by (simp del: length_concat)
qed

text \<open>C10: how a body is cut into reads cannot be observed: for every body, well formed or not, and
  every handler that stores what it is given, two divisions of the same bytes end with the same
  result, the same context of the handler and the same files of the request.\<close>

theorem post_stream_chunking:
  assumes "stores_with write h" "startPostStream u0 (Some h) discard sock = (s, 0)"
    "post_buffer_pos (header sock) = 0" "length (concat cs) \<le> unat (contentlenght (header sock))"
    "unat (contentlenght (header sock)) < 2 ^ 32"
    "[] \<notin> set cs" "[] \<notin> set ds" "concat cs = concat ds"
    "stream_run s cs = (s1, r1)" "stream_run s ds = (s2, r2)"
  shows "r1 = r2 \<and> post_stream_ctx s1 = post_stream_ctx s2 \<and>
    snd (postStreamFillUploadInfo s1 us) = snd (postStreamFillUploadInfo s2 us)"
proof -
  have s: "opened s" "storing s" "header s = header sock"
    using assms(1,2) by (auto simp: startPostStream_def opened_def storing_def Let_def split: option.splits)
  have eq: "core (fst (stream_run s xs)) = core (fst (postStreamFeed s (concat xs))) \<and>
      snd (stream_run s xs) = snd (postStreamFeed s (concat xs))"
    if "xs \<noteq> []" "[] \<notin> set xs" "concat xs = concat cs" for xs
    using stream_run_eq [OF s(1,2) that(1,2)] that(3) assms(3-5) s(3) by simp
  have "core s1 = core s2 \<and> r1 = r2"
  proof (cases "cs = []")
    case True
    then have "ds = []"
      using assms(7,8) by (cases ds) auto
    with True show ?thesis
      using assms(9,10) by simp
  next
    case False
    then have "ds \<noteq> []"
      using assms(6,8) by (cases cs) auto
    with False show ?thesis
      using eq [of cs] eq [of ds] assms(6-10) by simp
  qed
  then show ?thesis
    using core_eqD(4) [of s1 s2] fill_core [of s1 s2 us] by simp
qed

theorem post_stream_chunking_witness:
  "\<exists>s s1 s2 r. startPostStream [] (Some keeper) False (stream_example 140) = (s, 0) \<and>
     stream_run s reads_example = (s1, r) \<and> stream_run s [concat reads_example] = (s2, r) \<and>
     post_stream_ctx s1 = post_stream_ctx s2"
proof -
  obtain s s1 s2 r1 r2 where s: "startPostStream [] (Some keeper) False (stream_example 140) = (s, 0)"
    "stream_run s reads_example = (s1, r1)" "stream_run s [concat reads_example] = (s2, r2)"
    using start_eq [of "stream_example 140" "''--xy''" "''upload''" "[]" keeper False]
    by (metis stream_example_fields(1,2) surj_pair)
  have "stores_with (\<lambda>u d. case u of [] \<Rightarrow> [] | (n, c) # fs \<Rightarrow> (n, c @ d) # fs) keeper"
    using keeper_files by (simp add: file_handler_def)
  note ok = post_stream_chunking [OF this s(1) _ _ _ _ _ _ s(2,3)]
  have "concat reads_example \<noteq> []"
    using form_example_ok(5) by (metis length_0_conv zero_neq_numeral)
  then have "[] \<notin> set [concat reads_example]"
    by simp
  with ok have "r1 = r2 \<and> post_stream_ctx s1 = post_stream_ctx s2"
    using form_example_ok(4,5) by (simp del: length_concat)
  with s show ?thesis by blast
qed

end
