(* ===== verification/PostStreamSafety.thy ===== *)
theory PostStreamSafety
  imports PostStreamDelivery
begin

text \<open>
  Invariants of the streaming receiver. \<open>stream_invariant\<close> is the contract between a property of
  the stream's state and the transitions of the machine: what is kept by each elementary step
  is kept by every feed. It is interpreted twice: for the limits on what a request can make the
  server hold in memory, and for the order in which the callbacks of a handler are called.
\<close>

subsection \<open>Properties kept by the machine\<close>

locale stream_invariant =
  fixes I :: "('u, 'r) post_stream \<Rightarrow> bool"
  assumes emit: "I s \<Longrightarrow> I (emitPartData s d)"
    and hold: "I s \<Longrightarrow> length h \<le> length (post_stream_delim s) \<Longrightarrow> I (s\<lparr>post_stream_hold := h\<rparr>)"
    and hold_bound: "I s \<Longrightarrow> length (post_stream_hold s) \<le> length (post_stream_delim s) \<and> 2 \<le> length (post_stream_delim s)"
    and preamble_found: "I s \<Longrightarrow> post_stream_state s = PREAMBLE \<Longrightarrow>
      I (s\<lparr>post_stream_delim_in_data := False, post_stream_state := DELIM_CHECK\<rparr>)"
    and data_found: "I s \<Longrightarrow> post_stream_state s = PART_DATA \<Longrightarrow>
      I (s\<lparr>post_stream_delim_in_data := True, post_stream_state := DELIM_CHECK\<rparr>)"
    and delimiter: "I s \<Longrightarrow> post_stream_state s = DELIM_CHECK \<Longrightarrow> st = EPILOGUE \<or> st = AFTER_BOUNDARY \<Longrightarrow>
      I ((if post_stream_delim_in_data s then endPart s True else s)\<lparr>post_stream_state := st\<rparr>)"
    and payload: "I s \<Longrightarrow> post_stream_state s = DELIM_CHECK \<Longrightarrow>
      I (s\<lparr>post_stream_state := (if post_stream_delim_in_data s then PART_DATA else PREAMBLE)\<rparr>)"
    and after: "I s \<Longrightarrow> post_stream_state s = AFTER_BOUNDARY \<Longrightarrow> I (after_boundary s)"
    and push: "I s \<Longrightarrow> post_stream_state s = PART_HEADER \<Longrightarrow> \<not> header_full s \<or> header_is_discarded s \<Longrightarrow>
      I (header_push s c)"
    and begins: "I s \<Longrightarrow> post_stream_state s = PART_HEADER \<Longrightarrow> beginPart s = (s', ok) \<Longrightarrow>
      I (s'\<lparr>post_stream_state := (if ok then PART_DATA else ERROR)\<rparr>)"
    and broken: "I s \<Longrightarrow> post_stream_state s = PART_HEADER \<Longrightarrow> I (s\<lparr>post_stream_state := ERROR\<rparr>)"
    and count: "I s \<Longrightarrow> I (advance n s)"
    and finish: "I s \<Longrightarrow> I (postStreamFinish s ok)"
begin

lemma rebase: "I s \<Longrightarrow> I (rebaseHold s n)"
proof (induction "length (post_stream_hold s)" arbitrary: s)
  case 0
  then show ?case by (simp add: rebase_stop)
next
  case (Suc k)
  show ?case
  proof (rule rebase_cases [of s n])
    fix c h
    assume st: "post_stream_hold s = c # h"
      and eq: "rebaseHold s n = rebaseHold ((emitPartData s [c])\<lparr>post_stream_hold := h\<rparr>) n"
    have "length h \<le> length (post_stream_delim (emitPartData s [c]))"
      using hold_bound [OF Suc.prems] st by simp
    then show ?thesis
      unfolding eq using Suc.hyps st hold [OF emit [OF Suc.prems]] by simp
  qed (use Suc in auto)
qed

lemma skip: "I s \<Longrightarrow> I (fst (skip_to s n ds e))"
  by (simp add: skip_to_def emit Let_def)

lemma mismatch_inv: "I s \<Longrightarrow> I (mismatch s n e)"
  using hold_bound [of s] hold [OF emit, of s "tl (post_stream_hold s)" "[hd (post_stream_hold s)]"]
    hold [of s "[]"] by (auto simp: mismatch_def Let_def rebase)

lemma fill_bound: "fill_hold h n ds = (g, r) \<Longrightarrow> length h \<le> m \<Longrightarrow> length n \<le> m \<Longrightarrow> length g \<le> m"
  by (induction h n ds rule: fill_hold.induct) (auto split: if_splits)

lemma scan_inv:
  "I s \<Longrightarrow> length n \<le> length (post_stream_delim s) \<Longrightarrow> I (fst (scanForNeedle s n ds e))"
proof (induction s ds rule: scan_induct [where n = n and e = e])
  case (skipped s ds s1)
  then show ?case
    using scan_unfold [OF skipped(2) surjective_pairing skipped(1)] skip [of s n ds e] by simp
next
  case (found s ds s1 ds1 g rest)
  then show ?case
    using scan_unfold [OF found(2,4,1)] skip [of s n ds e] hold [of s1 "[]"] by simp
next
  case (out s ds s1 ds1 g)
  have d: "post_stream_delim s1 = post_stream_delim s" "I s1"
    using frame_eqD(5) [OF frame_skip [of s n ds e]] skip [OF out(6), of n ds e] out(2) by simp_all
  have "length g \<le> length (post_stream_delim s1)"
    by (rule fill_bound [OF out(4)]) (use d hold_bound [OF d(2)] out(7) in simp_all)
  then show ?case
    using scan_unfold [OF out(2,4,1)] out(3,5) hold [OF d(2)] by simp
next
  case (mismatch s ds s1 ds1 g rest)
  have d: "post_stream_delim s1 = post_stream_delim s" "I s1"
    using frame_eqD(5) [OF frame_skip [of s n ds e]] skip [OF mismatch(8), of n ds e] mismatch(2) by simp_all
  have "length g \<le> length (post_stream_delim s1)"
    by (rule fill_bound [OF mismatch(4)]) (use d hold_bound [OF d(2)] mismatch(9) in simp_all)
  then have "I (mismatch (s1\<lparr>post_stream_hold := g\<rparr>) n e)"
    by (intro mismatch_inv hold d)
  moreover have "post_stream_delim (mismatch (s1\<lparr>post_stream_hold := g\<rparr>) n e) = post_stream_delim s"
    using frame_eqD(5) [OF frame_mismatch [of "s1\<lparr>post_stream_hold := g\<rparr>" n e]] d by simp
  ultimately show ?case
    using scan_unfold [OF mismatch(2,4,1)] mismatch(3,5,6,7,9) by simp
qed simp

lemma collect_inv:
  "I s \<Longrightarrow> post_stream_state s = PART_HEADER \<Longrightarrow> I (fst (collectPartHeader s ds))"
proof (induction s ds rule: collectPartHeader.induct)
  case (2 s d ds)
  have "post_stream_state (header_push s d) = PART_HEADER"
    using "2.prems" by (simp add: header_push_def Let_def)
  with 2 show ?case
    using push [of s d] by (auto simp: Let_def)
qed simp

lemma decide_inv:
  assumes "I s" "post_stream_state s = DELIM_CHECK"
  shows "I (delim_decide s)"
proof -
  let ?h = "s\<lparr>post_stream_hold := []\<rparr>"
  have h: "I ?h" "post_stream_state ?h = DELIM_CHECK"
    using hold [OF assms(1), of "[]"] assms(2) by simp_all
  have e: "I (emitPartData s (post_stream_delim s))"
    using assms(1) by (rule emit)
  let ?r = "rebaseHold (emitPartData s (post_stream_delim s)) (post_stream_delim s)"
  have "post_stream_state ?r = DELIM_CHECK" "post_stream_delim_in_data ?r = post_stream_delim_in_data s"
    using frame_eqD(3,11) [OF frame_rebase [of "emitPartData s (post_stream_delim s)" "post_stream_delim s"]] assms(2)
    by simp_all
  then show ?thesis
    using payload [OF rebase [OF e, of "post_stream_delim s"]] payload [OF h]
      delimiter [OF h, of EPILOGUE] delimiter [OF h, of AFTER_BOUNDARY]
    by (cases "post_stream_delim_in_data s") (simp_all add: delim_decide_def Let_def)
qed

lemma check_inv:
  assumes "I s" "post_stream_state s = DELIM_CHECK"
  shows "I (fst (delim_check s ds))"
proof -
  let ?h = "post_stream_hold s @ take (2 - length (post_stream_hold s)) ds"
  have "length ?h \<le> length (post_stream_delim s)"
    using hold_bound [OF assms(1)] by (auto simp: min_def)
  then have t: "I (s\<lparr>post_stream_hold := ?h\<rparr>)"
    using hold assms(1) by blast
  then have "I (delim_decide (s\<lparr>post_stream_hold := ?h\<rparr>))"
    by (rule decide_inv) (simp add: assms(2))
  with t show ?thesis
    unfolding delim_check_def Let_def by (simp del: take_all_iff take_all)
qed

lemma round_inv:
  assumes "I s"
  shows "I (fst (feed_round s ds))"
proof (cases "post_stream_state s")
  case PREAMBLE
  obtain s1 r f where sc: "scanForNeedle s (drop 2 (post_stream_delim s)) ds False = (s1, r, f)"
    using prod_cases3 by blast
  then have "I s1" "post_stream_state s1 = PREAMBLE"
    using scan_inv [OF assms, of "drop 2 (post_stream_delim s)" ds False]
      frame_eqD(3) [OF frame_scan [of s "drop 2 (post_stream_delim s)" ds False]] PREAMBLE by simp_all
  then show ?thesis
    using PREAMBLE sc preamble_found by (simp add: feed_round_def)
next
  case PART_DATA
  obtain s1 r f where sc: "scanForNeedle s (post_stream_delim s) ds True = (s1, r, f)"
    using prod_cases3 by blast
  then have "I s1" "post_stream_state s1 = PART_DATA"
    using scan_inv [OF assms, of "post_stream_delim s" ds True]
      frame_eqD(3) [OF frame_scan [of s "post_stream_delim s" ds True]] PART_DATA by simp_all
  then show ?thesis
    using PART_DATA sc data_found by (simp add: feed_round_def)
next
  case PART_HEADER
  obtain s1 r ret where c: "collectPartHeader s ds = (s1, r, ret)"
    using prod_cases3 by blast
  obtain s2 ok where b: "beginPart s1 = (s2, ok)"
    by fastforce
  have "I s1" "post_stream_state s1 = PART_HEADER"
    using collect_inv [OF assms PART_HEADER, of ds] collect_state [of s ds] PART_HEADER c by simp_all
  with begins [OF this b] broken show ?thesis
    using PART_HEADER by (simp add: feed_round_def c b split: if_splits)
qed (use assms check_inv after in \<open>auto simp: feed_round_def case_prod_unfold\<close>)

lemma loop_inv: "I s \<Longrightarrow> I (fst (feed_loop s ds))"
proof (induction s ds rule: feed_loop.induct)
  case (1 s ds)
  obtain s' r err where r: "feed_round s ds = (s', r, err)"
    using prod_cases3 by blast
  show ?case
    using "1.IH" [OF _ r [symmetric] refl] round_inv [OF "1.prems", of ds] r "1.prems"
    by (cases "ds = []") (auto simp: loop_unfold Let_def)
qed

lemma feed_inv: "I s \<Longrightarrow> I (fst (postStreamFeed s d))"
  using loop_inv [OF count, of s "length d" d] finish
  by (auto simp: postStreamFeed_def advance_def Let_def case_prod_unfold)

lemma run_inv: "I s \<Longrightarrow> I (fst (stream_run s cs))"
proof (induction cs arbitrary: s)
  case (Cons c cs)
  then show ?case
    using feed_inv [OF Cons.prems, of c] by (auto simp: case_prod_unfold)
qed simp

end

subsection \<open>What a request can make the server buffer\<close>

definition part_ok :: "post_stream_part \<Rightarrow> bool" where
  "part_ok p \<longleftrightarrow> length (part_name p) \<le> POST_STREAM_MAX_NAME \<and>
     (if is_file p then part_data p = [] \<and> capacity p = 0
      else part_length p = length (part_data p) \<and> part_length p \<le> POST_STREAM_MAX_FIELD_SIZE \<and>
        (part_data p \<noteq> [] \<longrightarrow> part_length p < capacity p) \<and> capacity p \<le> POST_STREAM_MAX_FIELD_SIZE + 1)"

definition field_bytes :: "post_stream_part list \<Rightarrow> nat" where
  "field_bytes ps = sum_list (map (\<lambda>p. if is_file p then 0 else part_length p) ps)"

text \<open>A file is open only while its payload is read.\<close>

definition in_phase :: "('u, 'r) post_stream \<Rightarrow> bool" where
  "in_phase s \<longleftrightarrow> (post_stream_started s \<longrightarrow> post_stream_ctx s \<noteq> None \<and> post_stream_part_is_file s \<and>
     (post_stream_state s = PART_DATA \<or> post_stream_state s = DELIM_CHECK \<and> post_stream_delim_in_data s))"

definition within_limits :: "('u, 'r) post_stream \<Rightarrow> bool" where
  "within_limits s \<longleftrightarrow> in_phase s \<and>
     length (post_stream_hold s) \<le> length (post_stream_delim s) \<and> 2 \<le> length (post_stream_delim s) \<and>
     length (post_stream_delim s) < post_stream_hold_size s \<and>
     length (post_stream_part_header s) < POST_STREAM_MAX_PART_HEADER \<and>
     list_all part_ok (post_stream_parts s) \<and>
     length (post_stream_parts s) = post_stream_parts_count s \<and>
     post_stream_parts_count s \<le> POST_STREAM_MAX_PARTS \<and>
     field_bytes (post_stream_parts s) = post_stream_fields_total s \<and>
     post_stream_fields_total s \<le> POST_STREAM_MAX_FIELDS_TOTAL \<and>
     (\<forall>i. post_stream_current_part s = Some i \<longrightarrow> i < post_stream_parts_count s) \<and>
     (post_stream_state s = PART_HEADER \<longrightarrow> post_stream_ctx s = None \<or>
        post_stream_parts_count s < POST_STREAM_MAX_PARTS \<or> header_is_discarded s)"

lemma grow_loop_ge: "0 < neu \<Longrightarrow> need \<le> grow_loop neu need"
proof (induction neu need rule: grow_loop.induct)
  case (1 neu need)
  then show ?case
    by (subst grow_loop.simps) auto
qed

lemma grown_capacity_bounds:
  "need \<le> POST_STREAM_MAX_FIELD_SIZE + 1 \<Longrightarrow> cap \<le> POST_STREAM_MAX_FIELD_SIZE + 1 \<Longrightarrow>
    need \<le> grown_capacity cap need \<and> grown_capacity cap need \<le> POST_STREAM_MAX_FIELD_SIZE + 1"
  using grow_loop_ge [of "if cap = 0 then 256 else cap * 2" need]
  by (auto simp: grown_capacity_def Let_def split: if_splits)

lemma field_append_ok:
  "part_ok p \<Longrightarrow> \<not> is_file p \<Longrightarrow> part_length p + length d \<le> POST_STREAM_MAX_FIELD_SIZE \<Longrightarrow> part_ok (field_append d p)"
  using grown_capacity_bounds [of "part_length p + length d + 1" "capacity p"]
  by (auto simp: part_ok_def field_append_def)

lemma field_bytes_update:
  "i < length ps \<Longrightarrow> \<not> is_file (ps ! i) \<Longrightarrow> \<not> is_file q \<Longrightarrow>
    field_bytes (ps[i := q]) + part_length (ps ! i) = field_bytes ps + part_length q"
  unfolding field_bytes_def
proof (induction ps arbitrary: i)
  case (Cons p ps)
  then show ?case
    by (cases i) auto
qed simp

lemma field_bytes_file:
  "i < length ps \<Longrightarrow> is_file (ps ! i) \<Longrightarrow> is_file q \<Longrightarrow> field_bytes (ps[i := q]) = field_bytes ps"
  unfolding field_bytes_def
proof (induction ps arbitrary: i)
  case (Cons p ps)
  then show ?case
    by (cases i) auto
qed simp

lemma list_all_update: "list_all P xs \<Longrightarrow> P x \<Longrightarrow> list_all P (xs[i := x])"
  by (auto simp: list_all_iff dest!: set_update_subset_insert [THEN subsetD])

lemma emit_cases:
  obtains (same) "emitPartData s d = s"
  | (sent) c where "emitPartData s d = s\<lparr>post_stream_ctx := Some c\<rparr>" "\<not> header_is_discarded s"
    "post_stream_ctx s \<noteq> None"
  | (cut) i where "post_stream_current_part s = Some i" "\<not> is_file (post_stream_parts s ! i)"
    "emitPartData s d = s\<lparr>post_stream_parts := (post_stream_parts s)[i := (post_stream_parts s ! i)\<lparr>truncated := True\<rparr>],
       post_stream_field_limit_logged := True\<rparr>"
  | (stored) i where "post_stream_current_part s = Some i" "\<not> is_file (post_stream_parts s ! i)"
    "post_stream_fields_total s + length d \<le> POST_STREAM_MAX_FIELDS_TOTAL"
    "part_length (post_stream_parts s ! i) + length d \<le> POST_STREAM_MAX_FIELD_SIZE"
    "emitPartData s d = s\<lparr>post_stream_parts := (post_stream_parts s)[i := field_append d (post_stream_parts s ! i)],
       post_stream_fields_total := post_stream_fields_total s + length d\<rparr>"
proof (cases "post_stream_ctx s")
  case None
  then show ?thesis
    using same by (simp add: emitPartData_def)
next
  case (Some c)
  consider "d = [] \<or> aborted c" | "\<not> (d = [] \<or> aborted c)" "post_stream_part_is_file s"
    | "\<not> (d = [] \<or> aborted c)" "\<not> post_stream_part_is_file s"
    by blast
  then show ?thesis
  proof cases
    case 1
    then show ?thesis
      using same Some by (auto simp: emitPartData_def)
  next
    case 2
    then show ?thesis
      using sent Some by (auto simp: emitPartData_def Let_def header_is_discarded_def)
  next
    case 3
    then show ?thesis
    proof (cases "post_stream_current_part s")
      case None
      then show ?thesis
        using same 3 Some by (simp add: emitPartData_def)
    next
      case (Some i)
      let ?p = "post_stream_parts s ! i"
      have e: "emitPartData s d =
          (if is_file ?p then s else if truncated ?p then s
           else if post_stream_fields_total s + length d > POST_STREAM_MAX_FIELDS_TOTAL \<or>
               part_length ?p + length d > POST_STREAM_MAX_FIELD_SIZE then
             s\<lparr>post_stream_parts := (post_stream_parts s)[i := ?p\<lparr>truncated := True\<rparr>], post_stream_field_limit_logged := True\<rparr>
           else s\<lparr>post_stream_parts := (post_stream_parts s)[i := field_append d ?p],
             post_stream_fields_total := post_stream_fields_total s + length d\<rparr>)"
        unfolding emitPartData_def Let_def using 3 Some \<open>post_stream_ctx s = Some c\<close> by simp
      consider "is_file ?p \<or> truncated ?p"
        | "\<not> (is_file ?p \<or> truncated ?p)" "post_stream_fields_total s + length d > POST_STREAM_MAX_FIELDS_TOTAL \<or>
            part_length ?p + length d > POST_STREAM_MAX_FIELD_SIZE"
        | "\<not> (is_file ?p \<or> truncated ?p)" "\<not> (post_stream_fields_total s + length d > POST_STREAM_MAX_FIELDS_TOTAL \<or>
            part_length ?p + length d > POST_STREAM_MAX_FIELD_SIZE)"
        by blast
      then show ?thesis
      proof cases
        case 1
        with e same show ?thesis by (auto split: if_splits)
      next
        case 2
        show ?thesis
          by (rule cut [OF Some]) (use 2 e in simp_all)
      next
        case 3
        show ?thesis
          by (rule stored [OF Some]) (use 3 e in simp_all)
      qed
    qed
  qed
qed

text \<open>The limits are kept by an update of one part.\<close>

lemma limits_part:
  assumes "within_limits s" "post_stream_current_part s = Some i" "part_ok q"
    "field_bytes ((post_stream_parts s)[i := q]) = k" "k \<le> POST_STREAM_MAX_FIELDS_TOTAL"
  shows "within_limits (s\<lparr>post_stream_parts := (post_stream_parts s)[i := q], post_stream_fields_total := k\<rparr>)"
    "k = post_stream_fields_total s \<Longrightarrow> within_limits (s\<lparr>post_stream_parts := (post_stream_parts s)[i := q]\<rparr>)"
  using assms list_all_update [of part_ok "post_stream_parts s" q i]
  unfolding within_limits_def header_is_discarded_def in_phase_def by simp_all

lemma limits_entry:
  "within_limits s \<Longrightarrow> post_stream_current_part s = Some i \<Longrightarrow>
    i < length (post_stream_parts s) \<and> part_ok (post_stream_parts s ! i)"
  by (simp add: within_limits_def list_all_length)

lemma limits_emit:
  assumes w: "within_limits s"
  shows "within_limits (emitPartData s d)"
proof (rule emit_cases [of s d])
  fix c
  assume "emitPartData s d = s\<lparr>post_stream_ctx := Some c\<rparr>" "\<not> header_is_discarded s" "post_stream_ctx s \<noteq> None"
  with w show ?thesis by (simp add: within_limits_def in_phase_def)
next
  fix i
  let ?q = "(post_stream_parts s ! i)\<lparr>truncated := True\<rparr>"
  assume i: "post_stream_current_part s = Some i" "\<not> is_file (post_stream_parts s ! i)"
    and e: "emitPartData s d = s\<lparr>post_stream_parts := (post_stream_parts s)[i := ?q], post_stream_field_limit_logged := True\<rparr>"
  note en = limits_entry [OF w i(1)]
  have total: "field_bytes ((post_stream_parts s)[i := ?q]) = post_stream_fields_total s"
      "post_stream_fields_total s \<le> POST_STREAM_MAX_FIELDS_TOTAL"
    using field_bytes_update [of i "post_stream_parts s" ?q] en i w by (simp_all add: within_limits_def)
  have "part_ok ?q"
    using en i(2) by (auto simp: part_ok_def)
  from limits_part(2) [OF w i(1) this total refl] show ?thesis
    unfolding e within_limits_def header_is_discarded_def in_phase_def by simp
next
  fix i
  let ?q = "field_append d (post_stream_parts s ! i)"
  assume i: "post_stream_current_part s = Some i" "\<not> is_file (post_stream_parts s ! i)"
    and l: "post_stream_fields_total s + length d \<le> POST_STREAM_MAX_FIELDS_TOTAL"
      "part_length (post_stream_parts s ! i) + length d \<le> POST_STREAM_MAX_FIELD_SIZE"
    and e: "emitPartData s d = s\<lparr>post_stream_parts := (post_stream_parts s)[i := ?q],
      post_stream_fields_total := post_stream_fields_total s + length d\<rparr>"
  note en = limits_entry [OF w i(1)]
  have q: "\<not> is_file ?q" "part_length ?q = part_length (post_stream_parts s ! i) + length d"
    using i(2) by (simp_all add: field_append_def)
  have "field_bytes ((post_stream_parts s)[i := ?q]) = post_stream_fields_total s + length d"
    using field_bytes_update [of i "post_stream_parts s" ?q] en i(2) q w by (simp add: within_limits_def)
  from limits_part(1) [OF w i(1) field_append_ok [OF conjunct2 [OF en] i(2) l(2)] this l(1)] show ?thesis
    unfolding e .
qed (use w in simp)

lemma limits_keep:
  assumes "within_limits s" "post_stream_hold t = post_stream_hold s" "post_stream_delim t = post_stream_delim s"
    "post_stream_hold_size t = post_stream_hold_size s" "post_stream_part_header t = post_stream_part_header s"
    "post_stream_parts t = post_stream_parts s" "post_stream_parts_count t = post_stream_parts_count s"
    "post_stream_fields_total t = post_stream_fields_total s"
    "post_stream_current_part t = post_stream_current_part s \<or> post_stream_current_part t = None"
    "post_stream_state t = PART_HEADER \<Longrightarrow> post_stream_state s = PART_HEADER \<and> post_stream_ctx t = post_stream_ctx s"
    "in_phase t"
  shows "within_limits t"
  using assms unfolding within_limits_def header_is_discarded_def by auto

lemma end_entry_ok: "part_ok p \<Longrightarrow> part_ok (end_entry ok ctx p)"
  by (auto simp: part_ok_def end_entry_def)

lemma end_entry_bytes:
  "i < length ps \<Longrightarrow> field_bytes (ps[i := end_entry ok ctx (ps ! i)]) = field_bytes ps"
  using field_bytes_file [of i ps "end_entry ok ctx (ps ! i)"]
  by (cases "is_file (ps ! i)") (simp_all add: end_entry_def)

lemma end_phase: "in_phase s \<Longrightarrow> \<not> post_stream_started (endPart s ok)"
  by (auto simp: in_phase_def endPart_def Let_def split: option.splits)

lemma limits_end:
  assumes w: "within_limits s" and st: "st \<noteq> PART_HEADER"
  shows "within_limits ((endPart s ok)\<lparr>post_stream_state := st\<rparr>)"
proof (cases "post_stream_ctx s")
  case None
  then show ?thesis
    using w st by (auto simp: endPart_def within_limits_def in_phase_def)
next
  case (Some c)
  have ph: "in_phase ((endPart s ok)\<lparr>post_stream_state := st\<rparr>)"
    using end_phase [of s ok] w by (simp add: within_limits_def in_phase_def)
  show ?thesis
  proof (cases "post_stream_current_part s")
    case None
    then show ?thesis
      using w st Some ph by (simp add: endPart_def within_limits_def Let_def)
  next
    case (Some i)
    let ?q = "end_entry ok (end_call s ok c) (post_stream_parts s ! i)"
    have "list_all part_ok ((post_stream_parts s)[i := ?q])"
      "field_bytes ((post_stream_parts s)[i := ?q]) = field_bytes (post_stream_parts s)"
      using limits_entry [OF w Some] w end_entry_bytes [of i "post_stream_parts s"]
      by (simp_all add: within_limits_def list_all_update end_entry_ok)
    then show ?thesis
      using w st Some ph \<open>post_stream_ctx s = Some c\<close> by (simp add: endPart_def within_limits_def Let_def)
  qed
qed

lemma new_part_ok [simp]: "part_ok (new_part ctx)" "field_bytes (new_part ctx # ps) = field_bytes ps"
  by (simp_all add: part_ok_def new_part_def field_bytes_def)

lemma limits_begin:
  assumes w: "within_limits s" and st: "post_stream_state s = PART_HEADER"
    and b: "beginPart s = (s', ok)"
  shows "within_limits (s'\<lparr>post_stream_state := (if ok then PART_DATA else ERROR)\<rparr>)"
proof (cases "post_stream_ctx s")
  case None
  then show ?thesis
    using b w by (auto simp: beginPart_def within_limits_def in_phase_def)
next
  case (Some c)
  define hdr where "hdr = parse_part_header (s\<lparr>post_stream_current_part := None\<rparr>)"
  define n where "n = named_part hdr (name_part hdr c) s"
  have "post_stream_parts_count s < POST_STREAM_MAX_PARTS" if "\<not> aborted c"
    using w st that Some by (simp add: within_limits_def header_is_discarded_def)
  then show ?thesis
    using b w st unfolding begin_eq [OF Some hdr_def [symmetric]] within_limits_def in_phase_def
    by (auto simp: named_part_def enter_part_def Let_def header_is_discarded_def split: if_splits)
qed

interpretation limits: stream_invariant within_limits
proof (unfold_locales, goal_cases)
  case (1 s d)
  then show ?case by (rule limits_emit)
next
  case (5 s)
  then show ?case by (auto simp: within_limits_def in_phase_def)
next
  case (6 s st)
  then show ?case
    using limits_end [OF 6(1), of st True] by (auto simp: within_limits_def in_phase_def header_is_discarded_def)
next
  case (8 s)
  then show ?case
    by (cases "post_stream_ctx s")
      (auto simp: after_boundary_def within_limits_def in_phase_def header_is_discarded_def Let_def CRLF_def
        POST_STREAM_MAX_PART_HEADER_def)
next
  case (9 s c)
  then show ?case
    by (auto simp: within_limits_def in_phase_def header_push_def header_full_def header_is_discarded_def Let_def
        POST_STREAM_MAX_PART_HEADER_def split: option.splits)
next
  case (10 s s' ok)
  then show ?case by (rule limits_begin)
next
  case (13 s ok)
  have "post_stream_state (endPart s ok) = post_stream_state s"
    by (simp add: endPart_def Let_def split: option.split)
  then show ?case
    using limits_end [OF 13, of "post_stream_state s" ok] 13 
    by (auto simp: postStreamFinish_def within_limits_def in_phase_def)
qed (auto simp: within_limits_def in_phase_def advance_def header_is_discarded_def)

lemma limits_start:
  assumes "startPostStream u0 handler discard sock = (s, 0)" "post_stream_parts sock = []"
  shows "within_limits s"
  using assms
  by (auto simp: startPostStream_def within_limits_def in_phase_def field_bytes_def Let_def CRLF_def
      POST_STREAM_MAX_PART_HEADER_def split: option.splits)

lemma part_bytes: "list_all part_ok ps \<Longrightarrow> sum_list (map (length \<circ> part_data) ps) = field_bytes ps"
  by (induction ps) (auto simp: field_bytes_def part_ok_def)

text \<open>C9: whatever the body and whatever the handler does, a streamed request binds a bounded amount
  of memory at every moment: the hold buffer and the buffer of the part header are never
  exceeded, at most 64 parts are recorded, no name is longer than 256 bytes, a file part
  holds no payload, no field holds more than 64 KiB and all fields together hold at most 256
  KiB; the buffer allocated for a field is large enough for its value and a terminator.\<close>

theorem post_stream_limits:
  assumes "startPostStream u0 handler discard sock = (s, 0)" "post_stream_parts sock = []"
    "stream_run s cs = (s', r)"
  shows "length (post_stream_hold s') < post_stream_hold_size s' \<and>
    length (post_stream_part_header s') < 8192 \<and> length (post_stream_parts s') \<le> 64 \<and>
    (\<forall>p\<in>set (post_stream_parts s'). length (part_name p) \<le> 256 \<and> (is_file p \<longrightarrow> part_data p = []) \<and>
      length (part_data p) \<le> 65536 \<and> (part_data p \<noteq> [] \<longrightarrow> length (part_data p) < capacity p) \<and> capacity p \<le> 65537) \<and>
    sum_list (map (length \<circ> part_data) (post_stream_parts s')) \<le> 262144"
proof -
  have w: "within_limits s'"
    using limits.run_inv [OF limits_start [OF assms(1,2)], of cs] assms(3) by simp
  have "length (part_name p) \<le> 256 \<and> (is_file p \<longrightarrow> part_data p = []) \<and>
      length (part_data p) \<le> 65536 \<and> (part_data p \<noteq> [] \<longrightarrow> length (part_data p) < capacity p) \<and> capacity p \<le> 65537"
    if "p \<in> set (post_stream_parts s')" for p
    using that w
    by (auto simp: within_limits_def list_all_iff part_ok_def POST_STREAM_MAX_NAME_def POST_STREAM_MAX_FIELD_SIZE_def
        split: if_splits dest!: bspec [of _ _ p])
  moreover have "sum_list (map (length \<circ> part_data) (post_stream_parts s')) \<le> 262144"
    using w part_bytes [of "post_stream_parts s'"] by (simp add: within_limits_def POST_STREAM_MAX_FIELDS_TOTAL_def)
  ultimately show ?thesis
    using w by (auto simp: within_limits_def POST_STREAM_MAX_PART_HEADER_def POST_STREAM_MAX_PARTS_def)
qed

theorem post_stream_limits_witness:
  "\<exists>s s' r. startPostStream [] (Some keeper) False (stream_example 140) = (s, 0) \<and>
     stream_run s reads_example = (s', r) \<and> length (post_stream_parts s') \<le> 64"
proof -
  obtain s s' r where s: "startPostStream [] (Some keeper) False (stream_example 140) = (s, 0)"
    "stream_run s reads_example = (s', r)"
    using start_eq [of "stream_example 140" "''--xy''" "''upload''" "[]" keeper False]
    by (metis stream_example_fields(1,2) surj_pair)
  with post_stream_limits [OF s(1) _ s(2)] show ?thesis by auto
qed

subsection \<open>The order of the callbacks\<close>

text \<open>A call of a callback, with the abort flag of the context it is given.\<close>

datatype stream_call = Started bool | Received bool string | Ended bool bool

text \<open>The protocol of the interface: files one after the other, no empty chunk, nothing started or
  delivered after an abort, and success only without one. The state is whether a file is open.\<close>

fun monitor_step :: "bool option \<Rightarrow> stream_call \<Rightarrow> bool option" where
  "monitor_step (Some False) (Started False) = Some True"
| "monitor_step (Some True) (Received False d) = (if d = [] then None else Some True)"
| "monitor_step (Some True) (Ended a ok) = (if a \<and> ok then None else Some False)"
| "monitor_step _ _ = None"

definition monitor :: "stream_call list \<Rightarrow> bool option" where
  "monitor cs = foldl monitor_step (Some False) cs"

lemma monitor_snoc [simp]: "monitor [] = Some False" "monitor (cs @ [c]) = monitor_step (monitor cs) c"
  by (simp_all add: monitor_def)

text \<open>A handler whose user data keeps a record of the calls; what else it does is arbitrary.\<close>

definition records :: "('u \<Rightarrow> stream_call list) \<Rightarrow> ('u, 'r) post_stream_handler_entry \<Rightarrow> bool" where
  "records log h \<longleftrightarrow>
     (\<forall>c. log (user_data (on_start h c)) = log (user_data c) @ [Started (aborted c)]) \<and>
     (\<forall>c d. log (user_data (on_chunk h c d)) = log (user_data c) @ [Received (aborted c) d]) \<and>
     (\<forall>c ok. log (user_data (on_end h c ok)) = log (user_data c) @ [Ended (aborted c) ok])"

definition protocol :: "('u \<Rightarrow> stream_call list) \<Rightarrow> ('u, 'r) post_stream_handler_entry \<Rightarrow> bool \<Rightarrow> ('u, 'r) post_stream \<Rightarrow> bool" where
  "protocol log h q s \<longleftrightarrow> within_limits s \<and> records log h \<and> post_stream_handler s = Some h \<and>
     post_stream_discard s = q \<and>
     (post_stream_part_is_file s \<longrightarrow> \<not> post_stream_discard s \<longrightarrow> post_stream_started s) \<and>
     (post_stream_discard s \<longrightarrow> \<not> post_stream_started s) \<and>
     (\<forall>c. post_stream_ctx s = Some c \<longrightarrow> monitor (log (user_data c)) = Some (post_stream_started s) \<and>
       (post_stream_discard s \<longrightarrow> log (user_data c) = []))"

lemma same_state: "s\<lparr>post_stream_state := post_stream_state s\<rparr> = s"
  by simp

lemma emit_ctx:
  "post_stream_ctx (emitPartData s d) = map_option
     (\<lambda>c. if d = [] \<or> aborted c \<or> \<not> post_stream_part_is_file s then c else receive_chunk s c d) (post_stream_ctx s)"
  using arg_cong [OF core_emit [of s d], of post_stream_ctx]
  by (auto simp: emit_file_def receive_chunk_core split: option.split)

lemma protocol_emit:
  assumes "protocol log h q s"
  shows "protocol log h q (emitPartData s d)"
proof (cases "post_stream_ctx s")
  case None
  then show ?thesis
    using assms by (simp add: emitPartData_def)
next
  case (Some c)
  define c' where "c' = (if d = [] \<or> aborted c \<or> \<not> post_stream_part_is_file s then c else receive_chunk s c d)"
  have e: "post_stream_ctx (emitPartData s d) = Some c'"
    using emit_ctx [of s d] Some by (simp add: c'_def)
  have p: "records log h" "post_stream_handler s = Some h" "monitor (log (user_data c)) = Some (post_stream_started s)"
      "post_stream_discard s \<longrightarrow> log (user_data c) = []"
      "post_stream_part_is_file s \<longrightarrow> \<not> post_stream_discard s \<longrightarrow> post_stream_started s"
    using assms Some by (simp_all add: protocol_def)
  have "user_data c' = user_data c \<or> \<not> post_stream_discard s \<and> post_stream_started s \<and>
      log (user_data c') = log (user_data c) @ [Received False d] \<and> d \<noteq> []"
    using p(1,2,5) by (simp add: c'_def receive_chunk_def call_chunk_def records_def Let_def)
  then have "monitor (log (user_data c')) = Some (post_stream_started s) \<and> (post_stream_discard s \<longrightarrow> log (user_data c') = [])"
    using p(3,4) by auto
  then show ?thesis
    using assms e limits_emit [of s d] by (simp add: protocol_def)
qed

lemma protocol_end:
  assumes p: "protocol log h q s" and st: "st \<noteq> PART_HEADER"
  shows "protocol log h q ((endPart s ok)\<lparr>post_stream_state := st\<rparr>)"
proof (cases "post_stream_ctx s")
  case None
  then show ?thesis
    using p limits_end [of s st ok] st by (simp add: protocol_def endPart_def)
next
  case (Some c)
  have i: "in_phase s" "within_limits s"
    using p by (simp_all add: protocol_def within_limits_def)
  have r: "records log h" "post_stream_handler s = Some h" "monitor (log (user_data c)) = Some (post_stream_started s)"
      "post_stream_discard s \<longrightarrow> log (user_data c) = [] \<and> \<not> post_stream_started s"
      "post_stream_started s \<longrightarrow> post_stream_part_is_file s"
    using p Some i(1) by (auto simp: protocol_def in_phase_def)
  have "if post_stream_started s then log (user_data (end_call s ok c)) = log (user_data c) @ [Ended (aborted c) (\<not> aborted c \<and> ok)]
      else end_call s ok c = c"
    using r(1,2,5) by (simp add: end_call_def call_end_def records_def)
  then have "monitor (log (user_data (end_call s ok c))) = Some False"
      "post_stream_discard s \<longrightarrow> log (user_data (end_call s ok c)) = []"
    using r(3,4) by (auto split: if_splits)
  then show ?thesis
    using p Some limits_end [OF i(2) st, of ok] end_phase [OF i(1), of ok]
    by (simp add: protocol_def endPart_def Let_def)
qed

lemma protocol_begin:
  assumes p: "protocol log h q s" and st: "post_stream_state s = PART_HEADER" and b: "beginPart s = (s', ok)"
  shows "protocol log h q (s'\<lparr>post_stream_state := (if ok then PART_DATA else ERROR)\<rparr>)"
proof (cases "post_stream_ctx s")
  case None
  then show ?thesis
    using b p limits_begin [OF _ st b] by (auto simp: beginPart_def protocol_def)
next
  case (Some c)
  define hdr where "hdr = parse_part_header (s\<lparr>post_stream_current_part := None\<rparr>)"
  have w: "within_limits s" "\<not> post_stream_started s"
    using p st by (auto simp: protocol_def within_limits_def in_phase_def)
  note lim = limits_begin [OF w(1) st b]
  have c: "monitor (log (user_data c)) = Some False" "user_data (name_part hdr c) = user_data c"
      "aborted (name_part hdr c) = aborted c" "post_stream_discard s \<longrightarrow> log (user_data c) = []"
    using p Some w by (auto simp: protocol_def name_part_def)
  consider "aborted c" | "\<not> aborted c" "error hdr \<noteq> 0" | "\<not> aborted c" "error hdr = 0" "post_stream_discard s"
    | "\<not> aborted c" "error hdr = 0" "\<not> post_stream_discard s" by blast
  then show ?thesis
  proof cases
    case 4
    then have "s' = enter_part (named_part hdr (name_part hdr c) s) (name_part hdr c)"
      using b unfolding begin_eq [OF Some hdr_def [symmetric]] by simp
    then show ?thesis
      using lim p 4 c w by (auto simp: protocol_def enter_part_def named_part_def Let_def call_start_def records_def)
  qed (use b lim p c w Some in \<open>auto simp: begin_eq [OF Some hdr_def [symmetric]] protocol_def named_part_def\<close>)
qed

interpretation calls: stream_invariant "protocol log h q"
proof (unfold_locales, goal_cases)
  case (1 s d)
  then show ?case by (rule protocol_emit)
next
  case (2 s g)
  then show ?case
    using limits.hold [of s g] by (simp add: protocol_def)
next
  case (3 s)
  then show ?case
    using limits.hold_bound [of s] by (simp add: protocol_def)
next
  case (4 s)
  then show ?case
    using limits.preamble_found [of s] by (simp add: protocol_def)
next
  case (5 s)
  then show ?case
    using limits.data_found [of s] by (simp add: protocol_def)
next
  case (6 s st)
  then show ?case
    using protocol_end [OF 6(1), of st True] limits.delimiter [of s st] by (auto simp: protocol_def)
next
  case (7 s)
  then show ?case
    using limits.payload [of s] by (simp add: protocol_def)
next
  case (8 s)
  then show ?case
    using limits.after [of s] by (cases "post_stream_ctx s") (auto simp: after_boundary_def protocol_def Let_def)
next
  case (9 s c)
  then show ?case
    using limits.push [of s c] by (auto simp: protocol_def header_push_def Let_def)
next
  case (10 s s' ok)
  then show ?case by (rule protocol_begin)
next
  case (11 s)
  then show ?case
    using limits.broken [of s] by (simp add: protocol_def)
next
  case (12 s n)
  then show ?case
    using limits.count [of s n] by (simp add: protocol_def advance_def)
next
  case (13 s ok)
  have "post_stream_state (endPart s ok) = post_stream_state s"
    by (simp add: endPart_def Let_def split: option.split)
  then have eq: "(endPart s ok)\<lparr>post_stream_state := post_stream_state s\<rparr> = endPart s ok"
    by (metis same_state)
  have "post_stream_started s \<Longrightarrow> post_stream_state s \<noteq> PART_HEADER"
    using 13 by (auto simp: protocol_def within_limits_def in_phase_def)
  then show ?case
    using protocol_end [OF 13, of "post_stream_state s" ok, unfolded eq] 13 by (simp add: postStreamFinish_def)
qed

lemma loop_error: "snd (feed_loop s ds) \<Longrightarrow> post_stream_state (fst (feed_loop s ds)) = ERROR"
proof (induction s ds rule: feed_loop.induct)
  case (1 s ds)
  obtain s' r err where r: "feed_round s ds = (s', r, err)"
    using prod_cases3 by blast
  have "err \<Longrightarrow> post_stream_state s' = ERROR"
    using r by (auto simp: feed_round_def split: stream_state.splits prod.splits if_splits)
  then show ?case
    using "1.IH" [OF _ r [symmetric] refl] "1.prems" r
    by (cases "ds = []") (auto simp: loop_unfold Let_def)
qed

lemma not_started: "within_limits s \<Longrightarrow> post_stream_state s = ERROR \<or> post_stream_state s = EPILOGUE \<Longrightarrow> \<not> post_stream_started s"
  by (auto simp: within_limits_def in_phase_def)

lemma feed_over:
  assumes w: "within_limits s" "opened s" "postStreamFeed s d = (s', r)"
  shows "opened s' \<and> (r \<noteq> 0 \<longrightarrow> \<not> post_stream_started s')"
proof -
  obtain t err where l: "feed_loop (advance (length d) s) d = (t, err)"
    by fastforce
  have t: "within_limits t" "opened t"
    using limits.loop_inv [OF limits.count [OF w(1), of "length d"], of d] loop_opened [of "advance (length d) s" d] w(2) l
    by (simp_all add: opened_def)
  have "err \<Longrightarrow> \<not> post_stream_started t" "post_stream_state t = EPILOGUE \<Longrightarrow> \<not> post_stream_started t"
    using loop_error [of "advance (length d) s" d] l not_started [OF t(1)] by simp_all
  moreover have "\<not> post_stream_started (postStreamFinish t ok)" for ok
    using end_phase [of t ok] t by (simp add: postStreamFinish_def within_limits_def opened_def)
  moreover have "opened (postStreamFinish t ok)" for ok
    using t(2) by (simp add: postStreamFinish_def)
  ultimately show ?thesis
    using w(3) t(2) by (auto simp: feed_eq [OF w(2)] l split: if_splits)
qed

lemma run_over:
  "within_limits s \<Longrightarrow> opened s \<Longrightarrow> stream_run s cs = (s', r) \<Longrightarrow> opened s' \<and> (r \<noteq> 0 \<longrightarrow> \<not> post_stream_started s')"
proof (induction cs arbitrary: s)
  case (Cons c cs)
  obtain t q where f: "postStreamFeed s c = (t, q)"
    by fastforce
  have "within_limits t"
    using limits.feed_inv [OF Cons.prems(1), of c] f by simp
  then show ?case
    using feed_over [OF Cons.prems(1,2) f] Cons.IH [of t] Cons.prems(3) f by (auto split: if_splits)
qed simp

lemma finish_closed: "opened s \<Longrightarrow> within_limits s \<Longrightarrow> \<not> post_stream_started (postStreamFinish s ok) \<and> opened (postStreamFinish s ok)"
  using end_phase [of s ok] by (auto simp: postStreamFinish_def within_limits_def opened_def endPart_def Let_def split: option.splits)

text \<open>C3: whatever a client sends, in whatever pieces, and whatever the handler does, its callbacks are
  called in the order of the interface: files one after the other, each opened once, given
  non-empty chunks, and closed once; nothing is opened or delivered after an abort, and
  success is not reported then; a request without permission causes no call at all. When
  the receiver is done, with success or with an error, no file is open, and
  \<open>postStreamFinish\<close> closes an upload that is broken off.\<close>

theorem post_stream_callbacks:
  assumes "records log h" "log u0 = []" "post_stream_parts sock = []"
    "startPostStream u0 (Some h) discard sock = (s, 0)" "stream_run s cs = (s', r)"
  shows "\<exists>c c'. post_stream_ctx s' = Some c \<and> monitor (log (user_data c)) = Some (post_stream_started s') \<and>
    (r \<noteq> 0 \<longrightarrow> monitor (log (user_data c)) = Some False) \<and>
    post_stream_ctx (postStreamFinish s' ok) = Some c' \<and> monitor (log (user_data c')) = Some False \<and>
    (discard \<longrightarrow> log (user_data c') = [])"
proof -
  have w: "within_limits s"
    by (rule limits_start [OF assms(4,3)])
  have s: "opened s" "protocol log h discard s"
    using assms w by (auto simp: startPostStream_def opened_def protocol_def Let_def split: option.splits)
  have s': "protocol log h discard s'" "opened s'" "r \<noteq> 0 \<longrightarrow> \<not> post_stream_started s'"
    using calls.run_inv [OF s(2), of cs] run_over [OF w s(1) assms(5)] assms(5) by simp_all
  let ?f = "postStreamFinish s' ok"
  have "within_limits s'"
    using s'(1) by (simp add: protocol_def)
  then have f: "protocol log h discard ?f" "opened ?f" "\<not> post_stream_started ?f"
    using calls.finish [OF s'(1)] finish_closed [OF s'(2), of ok] by simp_all
  obtain c c' where c: "post_stream_ctx s' = Some c" "post_stream_ctx ?f = Some c'"
    using s'(2) f(2) by (auto simp: opened_def)
  then show ?thesis
    using s' f by (auto simp: protocol_def)
qed

text \<open>A handler that records its calls and gives up on the first chunk.\<close>

definition quitter :: "(stream_call list, unit) post_stream_handler_entry" where
  "quitter = \<lparr>handler_url = ''upload'', auth_check = None, max_size = 1000,
     on_start = (\<lambda>c. c\<lparr>user_data := user_data c @ [Started (aborted c)]\<rparr>),
     on_chunk = (\<lambda>c d. PostStreamAbort (c\<lparr>user_data := user_data c @ [Received (aborted c) d]\<rparr>)),
     on_end = (\<lambda>c ok. c\<lparr>user_data := user_data c @ [Ended (aborted c) ok]\<rparr>)\<rparr>"

theorem post_stream_callbacks_witness:
  "\<exists>s s' r c. startPostStream [] (Some quitter) False (stream_example 140) = (s, 0) \<and>
     stream_run s reads_example = (s', r) \<and> post_stream_ctx (postStreamFinish s' False) = Some c \<and>
     monitor (user_data c) = Some False"
proof -
  obtain s s' r where s: "startPostStream [] (Some quitter) False (stream_example 140) = (s, 0)"
    "stream_run s reads_example = (s', r)"
    using start_eq [of "stream_example 140" "''--xy''" "''upload''" "[]" quitter False]
    by (metis stream_example_fields(1,2) surj_pair)
  have "records id quitter"
    by (simp add: records_def quitter_def PostStreamAbort_def)
  from post_stream_callbacks [OF this _ _ s, of False] s show ?thesis
    by auto
qed

end
