(* ===== verification/ProxyFraming.thy ===== *)
theory ProxyFraming
  imports Prelude
begin

text \<open>
  How the reverse proxy finds the end of a chunked body, \<open>lib/src/reverse_proxy.c\<close>: the scanner
  \<open>proxy_chunked_scan\<close>, against the grammar of RFC 9112. The scanner keeps its state in
  \<open>reverse_proxy_connection_t\<close> between the reads; of that record the two fields it uses are
  modelled.
\<close>

subsection \<open>The scanner\<close>

datatype proxy_chunk_state =
  PROXY_CHUNK_SIZE_START | PROXY_CHUNK_SIZE | PROXY_CHUNK_EXT | PROXY_CHUNK_SIZE_LF | PROXY_CHUNK_DATA |
  PROXY_CHUNK_DATA_CR | PROXY_CHUNK_DATA_LF | PROXY_CHUNK_TRAILER | PROXY_CHUNK_TRAILER_LF |
  PROXY_CHUNK_TRAILER_LINE | PROXY_CHUNK_TRAILER_LINE_LF | PROXY_CHUNK_DONE | PROXY_CHUNK_ERROR

record proxy_chunks =
  chunk_state :: proxy_chunk_state
  current_chunk_size :: u64

definition PROXY_CHUNK_SIZE_MAX :: u64 where
  "PROXY_CHUNK_SIZE_MAX = 0x7FFFFFFFFFFFFFFF"

definition proxy_hex_value :: "char \<Rightarrow> u64" where
  "proxy_hex_value c =
     (if code c \<le> code (CHR ''9'') then of_nat (code c) - of_nat (code (CHR ''0''))
      else if code c \<le> code (CHR ''F'') then of_nat (code c) - of_nat (code (CHR ''A'')) + 10
      else of_nat (code c) - of_nat (code (CHR ''a'')) + 10)"

definition is_hex :: "char \<Rightarrow> bool" where
  "is_hex c \<longleftrightarrow> code (CHR ''0'') \<le> code c \<and> code c \<le> code (CHR ''9'') \<or>
     code (CHR ''a'') \<le> code c \<and> code c \<le> code (CHR ''f'') \<or>
     code (CHR ''A'') \<le> code c \<and> code c \<le> code (CHR ''F'')"

text \<open>The states that look at one byte, and what they make of it.\<close>

definition chunk_byte :: "proxy_chunks \<Rightarrow> char \<Rightarrow> proxy_chunks" where
  "chunk_byte proxy c =
     (case chunk_state proxy of
        PROXY_CHUNK_SIZE_START \<Rightarrow>
          if is_hex c then proxy\<lparr>current_chunk_size := proxy_hex_value c, chunk_state := PROXY_CHUNK_SIZE\<rparr>
          else proxy\<lparr>chunk_state := PROXY_CHUNK_ERROR\<rparr>
      | PROXY_CHUNK_SIZE \<Rightarrow>
          if is_hex c then
            (let digit = proxy_hex_value c in
             if current_chunk_size proxy > (PROXY_CHUNK_SIZE_MAX - digit) div 16
             then proxy\<lparr>chunk_state := PROXY_CHUNK_ERROR\<rparr>
             else proxy\<lparr>current_chunk_size := current_chunk_size proxy * 16 + digit\<rparr>)
          else if c = CHR '';'' \<or> c = CHR '' '' \<or> c = CHR 0x09 then proxy\<lparr>chunk_state := PROXY_CHUNK_EXT\<rparr>
          else if c = CR then proxy\<lparr>chunk_state := PROXY_CHUNK_SIZE_LF\<rparr>
          else proxy\<lparr>chunk_state := PROXY_CHUNK_ERROR\<rparr>
      | PROXY_CHUNK_EXT \<Rightarrow>
          if c = CR then proxy\<lparr>chunk_state := PROXY_CHUNK_SIZE_LF\<rparr>
          else if c = LF then proxy\<lparr>chunk_state := PROXY_CHUNK_ERROR\<rparr>
          else proxy
      | PROXY_CHUNK_SIZE_LF \<Rightarrow>
          if c \<noteq> LF then proxy\<lparr>chunk_state := PROXY_CHUNK_ERROR\<rparr>
          else proxy\<lparr>chunk_state :=
            (if current_chunk_size proxy = 0 then PROXY_CHUNK_TRAILER else PROXY_CHUNK_DATA)\<rparr>
      | PROXY_CHUNK_DATA_CR \<Rightarrow>
          if c \<noteq> CR then proxy\<lparr>chunk_state := PROXY_CHUNK_ERROR\<rparr>
          else proxy\<lparr>chunk_state := PROXY_CHUNK_DATA_LF\<rparr>
      | PROXY_CHUNK_DATA_LF \<Rightarrow>
          if c \<noteq> LF then proxy\<lparr>chunk_state := PROXY_CHUNK_ERROR\<rparr>
          else proxy\<lparr>chunk_state := PROXY_CHUNK_SIZE_START, current_chunk_size := 0\<rparr>
      | PROXY_CHUNK_TRAILER \<Rightarrow>
          if c = CR then proxy\<lparr>chunk_state := PROXY_CHUNK_TRAILER_LF\<rparr>
          else if c = LF then proxy\<lparr>chunk_state := PROXY_CHUNK_ERROR\<rparr>
          else proxy\<lparr>chunk_state := PROXY_CHUNK_TRAILER_LINE\<rparr>
      | PROXY_CHUNK_TRAILER_LF \<Rightarrow>
          if c \<noteq> LF then proxy\<lparr>chunk_state := PROXY_CHUNK_ERROR\<rparr>
          else proxy\<lparr>chunk_state := PROXY_CHUNK_DONE\<rparr>
      | PROXY_CHUNK_TRAILER_LINE \<Rightarrow>
          if c = CR then proxy\<lparr>chunk_state := PROXY_CHUNK_TRAILER_LINE_LF\<rparr>
          else if c = LF then proxy\<lparr>chunk_state := PROXY_CHUNK_ERROR\<rparr>
          else proxy
      | PROXY_CHUNK_TRAILER_LINE_LF \<Rightarrow>
          if c \<noteq> LF then proxy\<lparr>chunk_state := PROXY_CHUNK_ERROR\<rparr>
          else proxy\<lparr>chunk_state := PROXY_CHUNK_TRAILER\<rparr>
      | _ \<Rightarrow> proxy)"

text \<open>The payload is skipped as a whole; the loop ends at the end of the data, or in the two
  final states, which are tested before the next byte is looked at.\<close>

definition chunk_skip :: "proxy_chunks \<Rightarrow> string \<Rightarrow> nat" where
  "chunk_skip proxy ds =
     (let remaining = length ds
      in if unat (current_chunk_size proxy) < remaining then unat (current_chunk_size proxy) else remaining)"

definition after_skip :: "proxy_chunks \<Rightarrow> nat \<Rightarrow> proxy_chunks" where
  "after_skip proxy skip =
     (let proxy = proxy\<lparr>current_chunk_size := current_chunk_size proxy - of_nat skip\<rparr>
      in if current_chunk_size proxy = 0 then proxy\<lparr>chunk_state := PROXY_CHUNK_DATA_CR\<rparr> else proxy)"

function chunk_loop :: "proxy_chunks \<Rightarrow> string \<Rightarrow> proxy_chunks" where
  "chunk_loop proxy ds =
     (if ds = [] \<or> chunk_state proxy = PROXY_CHUNK_DONE \<or> chunk_state proxy = PROXY_CHUNK_ERROR then proxy
      else if chunk_state proxy = PROXY_CHUNK_DATA then
        (let skip = chunk_skip proxy ds in chunk_loop (after_skip proxy skip) (drop skip ds))
      else chunk_loop (chunk_byte proxy (hd ds)) (tl ds))"
  by pat_completeness auto
termination
proof (relation "measure (\<lambda>(proxy, ds). 2 * length ds + (if chunk_state proxy = PROXY_CHUNK_DATA then 1 else 0))", goal_cases)
  case (2 proxy ds skip)
  then show ?case
    by (cases "skip = 0"; cases ds) (auto simp: chunk_skip_def after_skip_def Let_def unat_eq_zero split: if_splits)
next
  case (3 proxy ds)
  then show ?case by (cases ds) auto
qed simp

declare chunk_loop.simps [simp del]

definition proxy_chunked_scan :: "proxy_chunks \<Rightarrow> string \<Rightarrow> proxy_chunks \<times> int" where
  "proxy_chunked_scan proxy data =
     (if chunk_state proxy = PROXY_CHUNK_DONE then (proxy, 1)
      else if chunk_state proxy = PROXY_CHUNK_ERROR then (proxy, 0)
      else
        let proxy = chunk_loop proxy data
        in (proxy, if chunk_state proxy = PROXY_CHUNK_DONE then 1 else 0))"

text \<open>The state of a fresh connection, which \<open>proxy_create_connection\<close> clears.\<close>

definition chunk_start :: proxy_chunks where
  "chunk_start = \<lparr>chunk_state = PROXY_CHUNK_SIZE_START, current_chunk_size = 0\<rparr>"

subsection \<open>The grammar\<close>

definition hex_digit_value :: "char \<Rightarrow> nat" where
  "hex_digit_value c =
     (if code c \<le> 57 then code c - 48 else if code c \<le> 70 then code c - 55 else code c - 87)"

definition hex_number :: "nat \<Rightarrow> string \<Rightarrow> nat" where
  "hex_number n ds = foldl (\<lambda>n c. n * 16 + hex_digit_value c) n ds"

text \<open>Text without a line end, and an extension of a size line.\<close>

definition in_line :: "string \<Rightarrow> bool" where
  "in_line w \<longleftrightarrow> CR \<notin> set w \<and> LF \<notin> set w"

definition chunk_ext :: "string \<Rightarrow> bool" where
  "chunk_ext w \<longleftrightarrow> in_line w \<and> (w \<noteq> [] \<longrightarrow> hd w = CHR '';'' \<or> hd w = CHR '' '' \<or> hd w = CHR 0x09)"

definition chunk_limit :: nat where
  "chunk_limit = 2 ^ 63 - 1"

inductive trailers :: "string \<Rightarrow> bool" where
  no_trailer: "trailers [CR, LF]"
| trailer: "in_line w \<Longrightarrow> w \<noteq> [] \<Longrightarrow> trailers t \<Longrightarrow> trailers (w @ CR # LF # t)"

inductive size_line :: "nat \<Rightarrow> string \<Rightarrow> bool" where
  size_line: "ds \<noteq> [] \<Longrightarrow> list_all is_hex ds \<Longrightarrow> hex_number 0 ds \<le> chunk_limit \<Longrightarrow> chunk_ext e \<Longrightarrow>
    size_line (hex_number 0 ds) (ds @ e @ [CR, LF])"

inductive chunked_body :: "string \<Rightarrow> bool" where
  last_chunk: "size_line 0 w \<Longrightarrow> trailers t \<Longrightarrow> chunked_body (w @ t)"
| chunk: "size_line n w \<Longrightarrow> 0 < n \<Longrightarrow> length d = n \<Longrightarrow> chunked_body b \<Longrightarrow> chunked_body (w @ d @ CR # LF # b)"

subsection \<open>What each state still expects\<close>

lemma is_hex_value:
  assumes "is_hex c"
  shows "unat (proxy_hex_value c) = hex_digit_value c" "hex_digit_value c < 16"
proof -
  have "unat (of_nat (code c) - of_nat k :: u64) = code c - k" if "k \<le> code c" for k
  proof -
    have "(of_nat (code c) - of_nat k :: u64) = of_nat (code c - k)"
      using that by (simp add: of_nat_diff)
    moreover have "code c - k < 256"
      using code_less [of c] by (rule less_imp_diff_less)
    ultimately show ?thesis
      by (simp add: unat_of_nat)
  qed
  note sub = this
  have plus: "unat (x + 10 :: u64) = unat x + 10" if "unat x < 100" for x
    using that by (simp add: unat_word_ariths)
  show "unat (proxy_hex_value c) = hex_digit_value c"
    using assms sub [of 48] sub [of 65] sub [of 97] plus [of "of_nat (code c) - of_nat 65"] plus [of "of_nat (code c) - of_nat 97"]
    by (auto simp: proxy_hex_value_def hex_digit_value_def is_hex_def)
  show "hex_digit_value c < 16"
    using assms by (auto simp: hex_digit_value_def is_hex_def)
qed

lemma is_hex_special: "is_hex c \<Longrightarrow> c \<noteq> CR \<and> c \<noteq> LF \<and> c \<noteq> CHR '';'' \<and> c \<noteq> CHR '' '' \<and> c \<noteq> CHR 0x09"
  by (auto simp: is_hex_def)

lemma hex_number_simps [simp]: "hex_number n [] = n" "hex_number n (c # ds) = hex_number (n * 16 + hex_digit_value c) ds"
  by (simp_all add: hex_number_def)

lemma hex_number_ge: "n \<le> hex_number n ds"
proof (induction ds arbitrary: n)
  case (Cons c ds)
  show ?case
    using Cons [of "n * 16 + hex_digit_value c"] by simp
qed simp

definition rest_of :: "nat \<Rightarrow> string \<Rightarrow> bool" where
  "rest_of n r \<longleftrightarrow> (if n = 0 then trailers r else \<exists>d b. r = d @ CR # LF # b \<and> length d = n \<and> chunked_body b)"

definition sized :: "nat \<Rightarrow> string \<Rightarrow> bool" where
  "sized n w \<longleftrightarrow> (\<exists>ds e r. w = ds @ e @ CR # LF # r \<and> list_all is_hex ds \<and> hex_number n ds \<le> chunk_limit \<and>
     chunk_ext e \<and> rest_of (hex_number n ds) r)"

text \<open>The rest of a line, and then something of the given kind.\<close>

definition line_then :: "(string \<Rightarrow> bool) \<Rightarrow> string \<Rightarrow> bool" where
  "line_then P w \<longleftrightarrow> (\<exists>e r. w = e @ CR # LF # r \<and> in_line e \<and> P r)"

lemma chunked_body_iff: "chunked_body w \<longleftrightarrow>
    (\<exists>ds e r. w = ds @ e @ CR # LF # r \<and> ds \<noteq> [] \<and> list_all is_hex ds \<and> hex_number 0 ds \<le> chunk_limit \<and>
      chunk_ext e \<and> rest_of (hex_number 0 ds) r)" (is "_ \<longleftrightarrow> ?R")
proof
  assume "chunked_body w"
  then show ?R
  proof cases
    case (last_chunk v t)
    from last_chunk(2) obtain ds e where ds: "ds \<noteq> []" "list_all is_hex ds" "chunk_ext e" "v = ds @ e @ [CR, LF]"
      "hex_number 0 ds = 0"
      by cases auto
    then show ?thesis
      using last_chunk by (intro exI [of _ ds] exI [of _ e] exI [of _ t]) (simp add: rest_of_def)
  next
    case (chunk n v d b)
    from chunk(2) obtain ds e where ds: "ds \<noteq> []" "list_all is_hex ds" "chunk_ext e" "v = ds @ e @ [CR, LF]"
      "hex_number 0 ds = n" "n \<le> chunk_limit"
      by cases auto
    then show ?thesis
      using chunk by (intro exI [of _ ds] exI [of _ e] exI [of _ "d @ CR # LF # b"]) (auto simp: rest_of_def)
  qed
next
  assume ?R
  then obtain ds e r where r: "w = ds @ e @ CR # LF # r" "ds \<noteq> []" "list_all is_hex ds" "hex_number 0 ds \<le> chunk_limit"
      "chunk_ext e" "rest_of (hex_number 0 ds) r" by blast
  have sl: "size_line (hex_number 0 ds) (ds @ e @ [CR, LF])"
    using r by (intro size_line.intros) auto
  show "chunked_body w"
  proof (cases "hex_number 0 ds = 0")
    case True
    then show ?thesis
      using chunked_body.last_chunk [of "ds @ e @ [CR, LF]" r] sl r by (simp add: rest_of_def)
  next
    case False
    then obtain d b where "r = d @ CR # LF # b" "length d = hex_number 0 ds" "chunked_body b"
      using r(6) by (auto simp: rest_of_def)
    then show ?thesis
      using chunked_body.chunk [OF sl _ _ , of d b] False r by simp
  qed
qed

lemma body_first: "chunked_body (c # w) \<longleftrightarrow> is_hex c \<and> sized (hex_digit_value c) w"
proof
  assume "chunked_body (c # w)"
  then obtain ds e r where "c # w = ds @ e @ CR # LF # r" "ds \<noteq> []" "list_all is_hex ds" "hex_number 0 ds \<le> chunk_limit"
      "chunk_ext e" "rest_of (hex_number 0 ds) r"
    by (auto simp: chunked_body_iff)
  then show "is_hex c \<and> sized (hex_digit_value c) w"
    by (cases ds) (auto simp: sized_def)
next
  assume "is_hex c \<and> sized (hex_digit_value c) w"
  then obtain ds e r where "is_hex c" "w = ds @ e @ CR # LF # r" "list_all is_hex ds"
      "hex_number (hex_digit_value c) ds \<le> chunk_limit" "chunk_ext e" "rest_of (hex_number (hex_digit_value c) ds) r"
    by (auto simp: sized_def)
  then show "chunked_body (c # w)"
    unfolding chunked_body_iff by (intro exI [of _ "c # ds"] exI [of _ e] exI [of _ r]) simp
qed

lemma line_then_step:
  "line_then P (c # w) \<longleftrightarrow> (if c = CR then \<exists>r. w = LF # r \<and> P r else c \<noteq> LF \<and> line_then P w)" (is "_ \<longleftrightarrow> ?R")
proof
  assume "line_then P (c # w)"
  then obtain e r where "c # w = e @ CR # LF # r" "in_line e" "P r"
    by (auto simp: line_then_def)
  then show ?R
    by (cases e) (auto simp: line_then_def in_line_def)
next
  assume a: ?R
  show "line_then P (c # w)"
  proof (cases "c = CR")
    case True
    with a obtain r where "c # w = [] @ CR # LF # r" "P r"
      by auto
    then show ?thesis
      unfolding line_then_def by (intro exI [of _ "[]"] exI [of _ r]) (simp add: in_line_def)
  next
    case False
    with a obtain e r where "c \<noteq> LF" "w = e @ CR # LF # r" "in_line e" "P r"
      by (auto simp: line_then_def)
    with False show ?thesis
      unfolding line_then_def by (intro exI [of _ "c # e"] exI [of _ r]) (simp add: in_line_def)
  qed
qed

lemma sized_step:
  "sized n (c # w) \<longleftrightarrow>
    (if is_hex c then n * 16 + hex_digit_value c \<le> chunk_limit \<and> sized (n * 16 + hex_digit_value c) w
     else if c = CHR '';'' \<or> c = CHR '' '' \<or> c = CHR 0x09 then n \<le> chunk_limit \<and> line_then (rest_of n) w
     else c = CR \<and> n \<le> chunk_limit \<and> (\<exists>r. w = LF # r \<and> rest_of n r))"
proof
  assume "sized n (c # w)"
  then obtain ds e r where s: "c # w = ds @ e @ CR # LF # r" "list_all is_hex ds" "hex_number n ds \<le> chunk_limit"
      "chunk_ext e" "rest_of (hex_number n ds) r"
    by (auto simp: sized_def)
  show "if is_hex c then n * 16 + hex_digit_value c \<le> chunk_limit \<and> sized (n * 16 + hex_digit_value c) w
     else if c = CHR '';'' \<or> c = CHR '' '' \<or> c = CHR 0x09 then n \<le> chunk_limit \<and> line_then (rest_of n) w
     else c = CR \<and> n \<le> chunk_limit \<and> (\<exists>r. w = LF # r \<and> rest_of n r)"
  proof (cases ds)
    case (Cons d ds')
    then have "n * 16 + hex_digit_value c \<le> chunk_limit"
      using s hex_number_ge [of "n * 16 + hex_digit_value c" ds'] by simp
    with Cons s show ?thesis
      by (auto simp: sized_def)
  next
    case Nil
    show ?thesis
    proof (cases e)
      case Nil
      with s \<open>ds = []\<close> show ?thesis
        using is_hex_special [of c] by auto
    next
      case (Cons x e')
      with s \<open>ds = []\<close> show ?thesis
        using is_hex_special [of c] by (auto simp: line_then_def chunk_ext_def in_line_def)
    qed
  qed
next
  assume a: "if is_hex c then n * 16 + hex_digit_value c \<le> chunk_limit \<and> sized (n * 16 + hex_digit_value c) w
     else if c = CHR '';'' \<or> c = CHR '' '' \<or> c = CHR 0x09 then n \<le> chunk_limit \<and> line_then (rest_of n) w
     else c = CR \<and> n \<le> chunk_limit \<and> (\<exists>r. w = LF # r \<and> rest_of n r)"
  consider "is_hex c" | "\<not> is_hex c" "c = CHR '';'' \<or> c = CHR '' '' \<or> c = CHR 0x09"
    | "\<not> is_hex c" "\<not> (c = CHR '';'' \<or> c = CHR '' '' \<or> c = CHR 0x09)"
    by blast
  then show "sized n (c # w)"
  proof cases
    case 1
    with a obtain ds e r where "w = ds @ e @ CR # LF # r" "list_all is_hex ds"
        "hex_number (n * 16 + hex_digit_value c) ds \<le> chunk_limit" "chunk_ext e"
        "rest_of (hex_number (n * 16 + hex_digit_value c) ds) r"
      by (auto simp: sized_def)
    with 1 show ?thesis
      unfolding sized_def by (intro exI [of _ "c # ds"] exI [of _ e] exI [of _ r]) simp
  next
    case 2
    with a obtain e r where "w = e @ CR # LF # r" "in_line e" "rest_of n r" "n \<le> chunk_limit"
      by (auto simp: line_then_def)
    with 2 show ?thesis
      unfolding sized_def by (intro exI [of _ "[]"] exI [of _ "c # e"] exI [of _ r])
        (auto simp: chunk_ext_def in_line_def)
  next
    case 3
    with a obtain r where "c = CR" "w = LF # r" "rest_of n r" "n \<le> chunk_limit"
      by auto
    then show ?thesis
      unfolding sized_def by (intro exI [of _ "[]"] exI [of _ "[]"] exI [of _ r]) (auto simp: chunk_ext_def in_line_def)
  qed
qed

lemma trailers_step:
  "trailers (c # w) \<longleftrightarrow> (if c = CR then w = [LF] else c \<noteq> LF \<and> line_then trailers w)"
proof (cases "c = CR")
  case True
  then show ?thesis
    by (auto simp: trailers.simps [of "CR # w"] in_line_def Cons_eq_append_conv)
next
  case False
  have "trailers (c # w) \<longleftrightarrow> (\<exists>v t. c # w = v @ CR # LF # t \<and> in_line v \<and> v \<noteq> [] \<and> trailers t)"
    using False by (auto simp: trailers.simps [of "c # w"])
  also have "\<dots> \<longleftrightarrow> line_then trailers (c # w)"
    using False by (auto simp: line_then_def Cons_eq_append_conv)
  finally show ?thesis
    using False line_then_step [of trailers c w] by simp
qed

definition data_then :: "nat \<Rightarrow> string \<Rightarrow> bool" where
  "data_then n w \<longleftrightarrow> (\<exists>d b. w = d @ CR # LF # b \<and> length d = n \<and> chunked_body b)"

lemma rest_of_data: "n \<noteq> 0 \<Longrightarrow> rest_of n w \<longleftrightarrow> data_then n w"
  by (simp add: rest_of_def data_then_def)

lemma data_then_step: "data_then (Suc n) (c # w) \<longleftrightarrow> data_then n w"
proof
  assume "data_then (Suc n) (c # w)"
  then obtain d b where "c # w = d @ CR # LF # b" "length d = Suc n" "chunked_body b"
    by (auto simp: data_then_def)
  then show "data_then n w"
    by (cases d) (auto simp: data_then_def)
next
  assume "data_then n w"
  then obtain d b where "w = d @ CR # LF # b" "length d = n" "chunked_body b"
    by (auto simp: data_then_def)
  then show "data_then (Suc n) (c # w)"
    unfolding data_then_def by (intro exI [of _ "c # d"] exI [of _ b]) simp
qed

text \<open>The bytes that complete a body, from a given state of the scanner.\<close>

definition expects :: "proxy_chunks \<Rightarrow> string \<Rightarrow> bool" where
  "expects proxy w \<longleftrightarrow>
     (let n = unat (current_chunk_size proxy) in
      case chunk_state proxy of
        PROXY_CHUNK_SIZE_START \<Rightarrow> chunked_body w
      | PROXY_CHUNK_SIZE \<Rightarrow> sized n w
      | PROXY_CHUNK_EXT \<Rightarrow> line_then (rest_of n) w
      | PROXY_CHUNK_SIZE_LF \<Rightarrow> \<exists>r. w = LF # r \<and> rest_of n r
      | PROXY_CHUNK_DATA \<Rightarrow> data_then n w
      | PROXY_CHUNK_DATA_CR \<Rightarrow> data_then 0 w
      | PROXY_CHUNK_DATA_LF \<Rightarrow> \<exists>b. w = LF # b \<and> chunked_body b
      | PROXY_CHUNK_TRAILER \<Rightarrow> trailers w
      | PROXY_CHUNK_TRAILER_LF \<Rightarrow> w = [LF]
      | PROXY_CHUNK_TRAILER_LINE \<Rightarrow> line_then trailers w
      | PROXY_CHUNK_TRAILER_LINE_LF \<Rightarrow> \<exists>t. w = LF # t \<and> trailers t
      | PROXY_CHUNK_DONE \<Rightarrow> w = []
      | PROXY_CHUNK_ERROR \<Rightarrow> False)"

text \<open>Between two bytes the size stays under its limit, and a payload in progress has bytes left.\<close>

definition chunks_wf :: "proxy_chunks \<Rightarrow> bool" where
  "chunks_wf proxy \<longleftrightarrow> unat (current_chunk_size proxy) \<le> chunk_limit \<and>
     (chunk_state proxy = PROXY_CHUNK_DATA \<longrightarrow> current_chunk_size proxy \<noteq> 0)"

text \<open>The scanner as an automaton on bytes.\<close>

definition chunk_step :: "proxy_chunks \<Rightarrow> char \<Rightarrow> proxy_chunks" where
  "chunk_step proxy c = (if chunk_state proxy = PROXY_CHUNK_DATA then after_skip proxy 1 else chunk_byte proxy c)"

lemma limit_word: "unat PROXY_CHUNK_SIZE_MAX = chunk_limit"
  by (simp add: PROXY_CHUNK_SIZE_MAX_def chunk_limit_def)

lemma size_guard:
  assumes "is_hex c" "unat n \<le> chunk_limit"
  shows "n > (PROXY_CHUNK_SIZE_MAX - proxy_hex_value c) div 16 \<longleftrightarrow> unat n * 16 + hex_digit_value c > chunk_limit" (is ?guard)
    and "unat n * 16 + hex_digit_value c \<le> chunk_limit \<Longrightarrow>
      unat (n * 16 + proxy_hex_value c) = unat n * 16 + hex_digit_value c"
proof -
  note v = is_hex_value [OF assms(1)]
  have "proxy_hex_value c \<le> PROXY_CHUNK_SIZE_MAX"
    using v by (simp add: word_le_nat_alt limit_word chunk_limit_def)
  note g = guarded_multiply_add [OF this, of 16 n]
  from g(1) v show ?guard
    by (simp add: limit_word)
  from g(2) v show "unat n * 16 + hex_digit_value c \<le> chunk_limit \<Longrightarrow>
      unat (n * 16 + proxy_hex_value c) = unat n * 16 + hex_digit_value c"
    by (simp add: limit_word)
qed

lemma after_skip_one:
  assumes "current_chunk_size proxy \<noteq> 0"
  shows "unat (current_chunk_size (after_skip proxy 1)) = unat (current_chunk_size proxy) - 1"
  using assms by (simp add: after_skip_def Let_def unat_minus_one)

lemma chunk_step_wf:
  assumes "chunks_wf proxy"
  shows "chunks_wf (chunk_step proxy c)"
proof (cases "chunk_state proxy = PROXY_CHUNK_DATA")
  case True
  moreover have "chunk_state (after_skip proxy 1) = PROXY_CHUNK_DATA \<Longrightarrow> current_chunk_size (after_skip proxy 1) \<noteq> 0"
    by (auto simp: after_skip_def Let_def split: if_splits)
  ultimately show ?thesis
    using assms after_skip_one [of proxy] by (auto simp: chunk_step_def chunks_wf_def)
next
  case False
  then show ?thesis
    using assms is_hex_value [of c] size_guard [of c "current_chunk_size proxy"]
    by (cases "chunk_state proxy")
      (auto simp: chunk_step_def chunk_byte_def chunks_wf_def Let_def not_less chunk_limit_def)
qed

lemma expects_step:
  assumes "chunks_wf proxy" "chunk_state proxy \<noteq> PROXY_CHUNK_DONE"
  shows "expects proxy (c # w) \<longleftrightarrow> expects (chunk_step proxy c) w"
proof (cases "chunk_state proxy")
  case PROXY_CHUNK_SIZE_START
  then show ?thesis
    using is_hex_value [of c] by (simp add: expects_def chunk_step_def chunk_byte_def body_first)
next
  case PROXY_CHUNK_SIZE
  have n: "unat (current_chunk_size proxy) \<le> chunk_limit"
    using assms by (simp add: chunks_wf_def)
  show ?thesis
  proof (cases "is_hex c")
    case True
    then show ?thesis
      using PROXY_CHUNK_SIZE size_guard [OF True n]
      by (simp add: expects_def chunk_step_def chunk_byte_def sized_step Let_def)
  next
    case False
    then show ?thesis
      using PROXY_CHUNK_SIZE n by (simp add: expects_def chunk_step_def chunk_byte_def sized_step)
  qed
next
  case PROXY_CHUNK_SIZE_LF
  then show ?thesis
    by (auto simp: expects_def chunk_step_def chunk_byte_def rest_of_data unat_eq_zero) (auto simp: rest_of_def)
next
  case PROXY_CHUNK_DATA
  then have "current_chunk_size proxy \<noteq> 0"
    using assms by (simp add: chunks_wf_def)
  then obtain n where n: "unat (current_chunk_size proxy) = Suc n"
    by (cases "unat (current_chunk_size proxy)") (auto simp: unat_eq_zero)
  with after_skip_one [of proxy] \<open>current_chunk_size proxy \<noteq> 0\<close>
  have m: "unat (current_chunk_size (after_skip proxy 1)) = n"
    by simp
  then have "chunk_state (after_skip proxy 1) = (if n = 0 then PROXY_CHUNK_DATA_CR else PROXY_CHUNK_DATA)"
    using PROXY_CHUNK_DATA unat_eq_zero [of "current_chunk_size proxy - 1"] by (auto simp: after_skip_def Let_def)
  then show ?thesis
    using PROXY_CHUNK_DATA n m by (simp add: expects_def chunk_step_def data_then_step)
next
  case PROXY_CHUNK_DATA_CR
  then show ?thesis
    by (auto simp: expects_def chunk_step_def chunk_byte_def data_then_def)
next
  case PROXY_CHUNK_TRAILER
  then show ?thesis
    by (simp add: expects_def chunk_step_def chunk_byte_def trailers_step)
next
  case PROXY_CHUNK_DONE
  then show ?thesis
    using assms by simp
qed (auto simp: expects_def chunk_step_def chunk_byte_def line_then_step)

lemma expects_Nil: "chunks_wf proxy \<Longrightarrow> expects proxy [] \<longleftrightarrow> chunk_state proxy = PROXY_CHUNK_DONE"
  by (auto simp: expects_def chunked_body_iff sized_def line_then_def data_then_def trailers.simps [of "[]"] Let_def
    split: proxy_chunk_state.splits)

lemma scan_accepts:
  assumes "chunks_wf proxy"
  shows "chunk_state (foldl chunk_step proxy ds) = PROXY_CHUNK_DONE \<longleftrightarrow> (\<exists>w rest. ds = w @ rest \<and> expects proxy w)"
  using assms
proof (induction ds arbitrary: proxy)
  case Nil
  then show ?case
    by (simp add: expects_Nil)
next
  case (Cons c ds)
  show ?case
  proof (cases "chunk_state proxy = PROXY_CHUNK_DONE")
    case True
    then have "chunk_state (foldl chunk_step proxy xs) = PROXY_CHUNK_DONE" for xs
      by (induction xs rule: rev_induct) (auto simp: chunk_step_def chunk_byte_def)
    moreover have "expects proxy []"
      using True by (simp add: expects_def)
    ultimately show ?thesis
      by (metis append_Nil)
  next
    case False
    then have "\<not> expects proxy []"
      using Cons.prems by (simp add: expects_Nil)
    then have "(\<exists>w rest. c # ds = w @ rest \<and> expects proxy w) \<longleftrightarrow> (\<exists>w rest. ds = w @ rest \<and> expects proxy (c # w))"
      by (auto simp: Cons_eq_append_conv)
    also have "\<dots> \<longleftrightarrow> (\<exists>w rest. ds = w @ rest \<and> expects (chunk_step proxy c) w)"
      using False Cons.prems by (simp add: expects_step)
    finally show ?thesis
      using Cons chunk_step_wf by simp
  qed
qed

subsection \<open>The loop runs the automaton\<close>

lemma after_skip_left:
  assumes "i < unat (current_chunk_size proxy)" "chunk_state proxy = PROXY_CHUNK_DATA"
  shows "chunk_state (after_skip proxy i) = PROXY_CHUNK_DATA"
    and "after_skip (after_skip proxy i) 1 = after_skip proxy (Suc i)"
proof -
  have "i < 2 ^ LENGTH(64)"
    using assms(1) unsigned_less [of "current_chunk_size proxy", where 'a = nat] by (rule less_trans)
  then have "unat (of_nat i :: u64) = i"
    by (simp add: unat_of_nat)
  then have "current_chunk_size proxy \<noteq> of_nat i"
    using assms(1) by auto
  then have "current_chunk_size proxy - of_nat i \<noteq> 0"
    by simp
  with assms(2) show "chunk_state (after_skip proxy i) = PROXY_CHUNK_DATA"
    "after_skip (after_skip proxy i) 1 = after_skip proxy (Suc i)"
    by (simp_all add: after_skip_def Let_def diff_diff_eq add.commute)
qed

lemma chunk_step_data: "chunk_state proxy = PROXY_CHUNK_DATA \<Longrightarrow> chunk_step proxy c = after_skip proxy 1"
  and chunk_step_byte: "chunk_state proxy \<noteq> PROXY_CHUNK_DATA \<Longrightarrow> chunk_step proxy c = chunk_byte proxy c"
  by (simp_all add: chunk_step_def)

lemma data_run:
  assumes "chunk_state proxy = PROXY_CHUNK_DATA" "0 < length xs" "length xs \<le> unat (current_chunk_size proxy)"
  shows "foldl chunk_step proxy xs = after_skip proxy (length xs)"
  using assms(2,3)
proof (induction xs rule: rev_induct)
  case (snoc x xs)
  show ?case
  proof (cases "xs = []")
    case True
    then show ?thesis
      using assms(1) by (simp add: chunk_step_data)
  next
    case False
    then have "foldl chunk_step proxy xs = after_skip proxy (length xs)"
      using snoc by simp
    then show ?thesis
      using snoc.prems assms(1) after_skip_left [of "length xs" proxy] by (simp add: chunk_step_data)
  qed
qed simp

lemma step_final: "chunk_state proxy = PROXY_CHUNK_DONE \<or> chunk_state proxy = PROXY_CHUNK_ERROR \<Longrightarrow>
    foldl chunk_step proxy ds = proxy"
proof (induction ds)
  case (Cons c ds)
  from Cons.prems have "chunk_step proxy c = proxy"
    by (elim disjE) (simp_all add: chunk_step_def chunk_byte_def)
  with Cons show ?case by simp
qed simp

lemma chunk_loop_automaton: "chunks_wf proxy \<Longrightarrow> chunk_loop proxy ds = foldl chunk_step proxy ds"
proof (induction proxy ds rule: chunk_loop.induct)
  case (1 proxy ds)
  consider "ds = [] \<or> chunk_state proxy = PROXY_CHUNK_DONE \<or> chunk_state proxy = PROXY_CHUNK_ERROR"
    | "ds \<noteq> []" "chunk_state proxy = PROXY_CHUNK_DATA"
    | c ds' where "ds = c # ds'" "chunk_state proxy \<noteq> PROXY_CHUNK_DATA" "chunk_state proxy \<noteq> PROXY_CHUNK_DONE"
      "chunk_state proxy \<noteq> PROXY_CHUNK_ERROR"
    by (cases ds) auto
  then show ?case
  proof cases
    case 1
    then show ?thesis
      using step_final [of proxy ds] by (subst chunk_loop.simps) auto
  next
    case 2
    define k where "k = chunk_skip proxy ds"
    have "0 < unat (current_chunk_size proxy)"
      using 2 "1.prems" by (simp add: chunks_wf_def unat_gt_0)
    then have k: "0 < k" "k \<le> length ds" "k \<le> unat (current_chunk_size proxy)"
      using 2 by (auto simp: k_def chunk_skip_def Let_def)
    then have run: "foldl chunk_step proxy (take k ds) = after_skip proxy k"
      using data_run [of proxy "take k ds"] 2 by simp
    have "chunks_wf (foldl chunk_step proxy xs)" for xs
      using "1.prems" by (induction xs rule: rev_induct) (simp_all add: chunk_step_wf)
    from this [of "take k ds"] have "chunks_wf (after_skip proxy k)"
      by (simp add: run)
    then have "chunk_loop proxy ds = foldl chunk_step (after_skip proxy k) (drop k ds)"
      using 2 "1.IH"(1) by (simp add: chunk_loop.simps [of proxy ds] k_def Let_def)
    also have "\<dots> = foldl chunk_step proxy (take k ds @ drop k ds)"
      by (simp only: foldl_append run)
    finally show ?thesis by simp
  next
    case 3
    then show ?thesis
      using "1.IH"(2) "1.prems" chunk_step_wf [of proxy c]
      by (simp add: chunk_loop.simps [of proxy "c # ds'"] chunk_step_byte)
  qed
qed

lemma foldl_step_wf: "chunks_wf proxy \<Longrightarrow> chunks_wf (foldl chunk_step proxy ds)"
  by (induction ds arbitrary: proxy) (simp_all add: chunk_step_wf)

definition scan_feed :: "proxy_chunks \<Rightarrow> string \<Rightarrow> proxy_chunks" where
  "scan_feed proxy data = fst (proxy_chunked_scan proxy data)"

lemma scan_automaton:
  assumes "chunks_wf proxy"
  shows "proxy_chunked_scan proxy data =
    (foldl chunk_step proxy data, if chunk_state (foldl chunk_step proxy data) = PROXY_CHUNK_DONE then 1 else 0)"
  using step_final [of proxy data] chunk_loop_automaton [OF assms, of data]
  by (auto simp: proxy_chunked_scan_def Let_def)

lemma scan_feed_automaton: "chunks_wf proxy \<Longrightarrow> scan_feed proxy data = foldl chunk_step proxy data"
  by (simp add: scan_feed_def scan_automaton)

interpretation scan: chunked scan_feed chunks_wf "\<lambda>_. True" "\<lambda>proxy. proxy"
  by unfold_locales (simp_all add: scan_feed_automaton foldl_step_wf)

subsection \<open>What the scanner decides\<close>

lemma chunk_start_wf: "chunks_wf chunk_start"
  by (simp add: chunk_start_def chunks_wf_def)

lemma expects_start: "expects chunk_start w \<longleftrightarrow> chunked_body w"
  by (simp add: chunk_start_def expects_def)

lemma expects_run:
  assumes "chunks_wf proxy" "chunk_state (foldl chunk_step proxy ds) \<noteq> PROXY_CHUNK_DONE"
  shows "expects proxy (ds @ w) \<longleftrightarrow> expects (foldl chunk_step proxy ds) w"
  using assms
proof (induction ds arbitrary: proxy)
  case (Cons c ds)
  then have "chunk_state proxy \<noteq> PROXY_CHUNK_DONE"
    using step_final [of proxy "c # ds"] by auto
  with Cons show ?case
    by (simp add: expects_step chunk_step_wf)
qed simp

text \<open>Every state but the error state can still be completed.\<close>

lemma body_exists: "chunked_body [CHR ''0'', CR, LF, CR, LF]"
proof -
  have "size_line (hex_number 0 [CHR ''0'']) ([CHR ''0''] @ [] @ [CR, LF])"
    by (rule size_line.intros) (simp_all add: is_hex_def hex_digit_value_def chunk_limit_def chunk_ext_def in_line_def)
  then have "size_line 0 [CHR ''0'', CR, LF]"
    by (simp add: hex_digit_value_def)
  from chunked_body.last_chunk [OF this no_trailer] show ?thesis by simp
qed

lemma data_exists: "\<exists>w. data_then n w"
proof -
  have "data_then n (replicate n LF @ CR # LF # [CHR ''0'', CR, LF, CR, LF])"
    unfolding data_then_def using body_exists by (metis length_replicate)
  then show ?thesis by blast
qed

lemma rest_exists: "\<exists>w. rest_of n w"
  using data_exists [of n] no_trailer rest_of_data [of n] rest_of_def [of 0] by (cases "n = 0") auto

lemma line_exists: "\<exists>w. P w \<Longrightarrow> \<exists>w. line_then P w"
proof -
  assume "\<exists>w. P w"
  then obtain r where "line_then P ([] @ CR # LF # r)"
    unfolding line_then_def in_line_def by fastforce
  then show ?thesis by blast
qed

lemma sized_exists: "n \<le> chunk_limit \<Longrightarrow> \<exists>w. sized n w"
proof -
  assume n: "n \<le> chunk_limit"
  obtain r where "rest_of n r"
    using rest_exists by blast
  with n have "sized n ([] @ [] @ CR # LF # r)"
    unfolding sized_def by (intro exI [of _ "[]"] exI [of _ r]) (simp add: chunk_ext_def in_line_def)
  then show ?thesis by blast
qed

lemma expects_exists:
  assumes "chunks_wf proxy"
  shows "(\<exists>w. expects proxy w) \<longleftrightarrow> chunk_state proxy \<noteq> PROXY_CHUNK_ERROR"
  using assms body_exists data_exists rest_exists [of "unat (current_chunk_size proxy)"] no_trailer
    sized_exists [of "unat (current_chunk_size proxy)"] line_exists [OF rest_exists] line_exists [of trailers]
  by (cases "chunk_state proxy") (auto simp: expects_def chunks_wf_def)

text \<open>C32: the scanner recognises the chunked bodies of RFC 9112: however the response is divided into
  reads, it reports the end at a read exactly when the bytes seen so far start with a complete
  body, and it has entered the error state exactly when they neither start with one nor can be
  continued to one. So it neither ends a response early nor misses its end.\<close>

theorem proxy_chunked_scan_recognises:
  "let seen = concat reads @ data;
       (proxy, result) = proxy_chunked_scan (foldl scan_feed chunk_start reads) data;
       complete = (\<exists>w rest. seen = w @ rest \<and> chunked_body w)
   in result = (if complete then 1 else 0) \<and>
      (chunk_state proxy = PROXY_CHUNK_ERROR \<longleftrightarrow> \<not> complete \<and> \<not> (\<exists>more. chunked_body (seen @ more)))"
proof -
  define seen where "seen = concat reads @ data"
  define after where "after = foldl chunk_step chunk_start seen"
  have "foldl scan_feed chunk_start reads = foldl chunk_step chunk_start (concat reads)"
    using scan.feed_chunks [of chunk_start reads] chunk_start_wf by (simp add: scan_feed_automaton)
  then have result: "proxy_chunked_scan (foldl scan_feed chunk_start reads) data =
      (after, if chunk_state after = PROXY_CHUNK_DONE then 1 else 0)"
    by (simp add: seen_def after_def scan_automaton foldl_step_wf chunk_start_wf)
  have ends: "chunk_state after = PROXY_CHUNK_DONE \<longleftrightarrow> (\<exists>w rest. seen = w @ rest \<and> chunked_body w)"
    by (simp add: after_def scan_accepts chunk_start_wf expects_start)
  have "chunk_state after = PROXY_CHUNK_ERROR \<longleftrightarrow>
      \<not> (\<exists>w rest. seen = w @ rest \<and> chunked_body w) \<and> \<not> (\<exists>more. chunked_body (seen @ more))"
    using ends expects_run [OF chunk_start_wf, of seen] expects_exists [OF foldl_step_wf [OF chunk_start_wf, of seen]]
    by (auto simp: after_def expects_start)
  with ends result show ?thesis
    by (simp add: seen_def Let_def)
qed

text \<open>A body with an extension and a trailer line, and the empty size line that must not end a
  response.\<close>

lemma proxy_chunked_scan_examples:
  "snd (proxy_chunked_scan (scan_feed chunk_start (''3;x'' @ [CR, LF] @ ''abc'' @ [CR]))
     ([LF] @ ''0'' @ [CR, LF] @ ''T: v'' @ [CR, LF, CR, LF])) = 1"
  "chunk_state (scan_feed chunk_start [CR, LF, CR, LF]) = PROXY_CHUNK_ERROR"
  by code_simp+

end
