(* ===== verification/ProxyHeaders.thy ===== *)
theory ProxyHeaders
  imports Prelude
begin

text \<open>
  What the reverse proxy reads from a header, \<open>lib/src/reverse_proxy.c\<close>: the end of the header, the
  body length, the transfer coding, the upgrade and the status code. A pointer into the buffer is
  its position; \<open>end\<close> is the length of the header. The loops that skip bytes are calls of
  \<open>skip_while\<close>.
\<close>

subsection \<open>Positions and lines\<close>

function skip_while :: "(char \<Rightarrow> bool) \<Rightarrow> string \<Rightarrow> nat \<Rightarrow> nat" where
  "skip_while P h p = (if p < length h \<and> P (h ! p) then skip_while P h (p + 1) else p)"
  by pat_completeness auto
termination
  by (relation "measure (\<lambda>(P, h, p). length h - p)") auto

declare skip_while.simps [simp del]

definition next_line :: "string \<Rightarrow> nat \<Rightarrow> nat" where
  "next_line h p = (let p = skip_while (\<lambda>c. c \<noteq> LF) h p in if p < length h then p + 1 else p)"

lemma skip_while_eq: "skip_while P h p = p + length (takeWhile P (drop p h))"
proof (induction P h p rule: skip_while.induct)
  case (1 P h p)
  show ?case
  proof (cases "p < length h")
    case True
    then have "drop p h = h ! p # drop (p + 1) h"
      by (simp add: Cons_nth_drop_Suc)
    with 1 True show ?thesis
      by (simp add: skip_while.simps [of P h p])
  qed (simp add: skip_while.simps [of P h p])
qed

lemma skip_while_ge: "p \<le> skip_while P h p"
  by (simp add: skip_while_eq)

lemma drop_skip_while: "drop (skip_while P h p) h = dropWhile P (drop p h)"
  by (simp add: skip_while_eq dropWhile_eq_drop drop_drop add.commute)

lemma next_line_gr: "p < length h \<Longrightarrow> p < next_line h p"
  using skip_while_ge [of p "\<lambda>c. c \<noteq> LF" h] by (auto simp: next_line_def Let_def)

text \<open>A header field starts at the start of a line.\<close>

definition field_at :: "string \<Rightarrow> nat \<Rightarrow> string \<Rightarrow> bool" where
  "field_at h p name \<longleftrightarrow> (p = 0 \<or> h ! (p - 1) = LF) \<and> strncaseeq (drop p h) name (length name)"

definition blank :: "char \<Rightarrow> bool" where
  "blank c \<longleftrightarrow> c = CHR '' '' \<or> c = CHR 0x09"

definition digit :: "char \<Rightarrow> bool" where
  "digit c \<longleftrightarrow> code (CHR ''0'') \<le> code c \<and> code c \<le> code (CHR ''9'')"

subsection \<open>The end of the header\<close>

function header_end_loop :: "string \<Rightarrow> nat \<Rightarrow> int" where
  "header_end_loop buffer i =
     (if i < length buffer - 3 then
        if buffer ! i = CR \<and> buffer ! (i + 1) = LF \<and> buffer ! (i + 2) = CR \<and> buffer ! (i + 3) = LF
        then int i + 4
        else header_end_loop buffer (i + 1)
      else - 1)"
  by pat_completeness auto
termination
  by (relation "measure (\<lambda>(buffer, i). length buffer - i)") auto

declare header_end_loop.simps [simp del]

definition proxy_find_header_end :: "string \<Rightarrow> int" where
  "proxy_find_header_end buffer = (if length buffer < 4 then - 1 else header_end_loop buffer 0)"

subsection \<open>Content-Length\<close>

definition PROXY_CL_MISSING :: int where "PROXY_CL_MISSING = - 1"
definition PROXY_CL_INVALID :: int where "PROXY_CL_INVALID = - 2"
definition INT64_MAX :: u64 where "INT64_MAX = 0x7FFFFFFFFFFFFFFF"

function cl_digits :: "string \<Rightarrow> nat \<Rightarrow> u64 \<Rightarrow> (u64 \<times> nat) option" where
  "cl_digits h p v =
     (if p < length h \<and> digit (h ! p) then
        (let d = of_nat (code (h ! p) - code (CHR ''0'')) in
         if v > (INT64_MAX - d) div 10 then None
         else cl_digits h (p + 1) (v * 10 + d))
      else Some (v, p))"
  by pat_completeness auto
termination
  by (relation "measure (\<lambda>(h, p, v). length h - p)") auto

declare cl_digits.simps [simp del]

function cl_again :: "string \<Rightarrow> nat \<Rightarrow> bool" where
  "cl_again h p =
     (if length h - p \<ge> length ''Content-Length:'' then
        field_at h p ''Content-Length:'' \<or> cl_again h (next_line h p)
      else False)"
  by pat_completeness auto
termination
  using next_line_gr by (relation "measure (\<lambda>(h, p). length h - p)") (auto intro: diff_less_mono2)

declare cl_again.simps [simp del]

definition cl_value :: "string \<Rightarrow> nat \<Rightarrow> int" where
  "cl_value h p =
     (let p = skip_while blank h p in
      if p \<ge> length h \<or> \<not> digit (h ! p) then PROXY_CL_INVALID
      else case cl_digits h p 0 of
        None \<Rightarrow> PROXY_CL_INVALID
      | Some (v, p) \<Rightarrow>
          let p = skip_while blank h p in
          if p < length h \<and> h ! p \<noteq> CR \<and> h ! p \<noteq> LF then PROXY_CL_INVALID
          else if cl_again h (next_line h p) then PROXY_CL_INVALID
          else sint v)"

function cl_loop :: "string \<Rightarrow> nat \<Rightarrow> int" where
  "cl_loop h p =
     (if length h - p \<ge> length ''Content-Length:'' then
        if field_at h p ''Content-Length:'' then cl_value h (p + length ''Content-Length:'')
        else cl_loop h (next_line h p)
      else PROXY_CL_MISSING)"
  by pat_completeness auto
termination
  using next_line_gr by (relation "measure (\<lambda>(h, p). length h - p)") (auto intro: diff_less_mono2)

declare cl_loop.simps [simp del]

definition proxy_parse_content_length :: "string \<Rightarrow> int" where
  "proxy_parse_content_length header = cl_loop header 0"

subsection \<open>Lists of tokens\<close>

text \<open>One round of the token loop, which Transfer-Encoding and Connection share: the token without
  the blanks around it, and the position behind it.\<close>

definition next_token :: "string \<Rightarrow> nat \<Rightarrow> string \<times> nat" where
  "next_token h p =
     (let tok = skip_while (\<lambda>c. blank c \<or> c = CHR '','') h p;
          p = skip_while (\<lambda>c. c \<noteq> CHR '','' \<and> c \<noteq> CR \<and> c \<noteq> LF) h tok
      in (rev (dropWhile blank (rev (take (p - tok) (drop tok h)))), p))"

lemma next_token_gr:
  assumes "p < length h" "h ! p \<noteq> CR" "h ! p \<noteq> LF"
  shows "p < snd (next_token h p)"
proof -
  have d: "drop p h = h ! p # drop (Suc p) h"
    using assms(1) by (simp add: Cons_nth_drop_Suc)
  show ?thesis
  proof (cases "blank (h ! p) \<or> h ! p = CHR '',''")
    case True
    then have "p < skip_while (\<lambda>c. blank c \<or> c = CHR '','') h p"
      by (auto simp: skip_while_eq d)
    also note skip_while_ge
    finally show ?thesis
      by (simp add: next_token_def Let_def)
  next
    case False
    then have "skip_while (\<lambda>c. blank c \<or> c = CHR '','') h p = p"
      by (simp add: skip_while_eq d)
    with False assms show ?thesis
      by (simp add: next_token_def skip_while_eq d)
  qed
qed

subsection \<open>Transfer-Encoding\<close>

datatype PROXY_TE_MODE = PROXY_TE_NONE | PROXY_TE_CHUNKED | PROXY_TE_OTHER

function te_tokens :: "string \<Rightarrow> nat \<Rightarrow> string \<Rightarrow> nat \<times> string" where
  "te_tokens h p last_tok =
     (if p < length h \<and> h ! p \<noteq> CR \<and> h ! p \<noteq> LF then
        (let (tok, q) = next_token h p in te_tokens h q (if tok \<noteq> [] then tok else last_tok))
      else (p, last_tok))"
  by pat_completeness auto
termination
  using next_token_gr by (relation "measure (\<lambda>(h, p, l). length h - p)") (auto intro: diff_less_mono2 simp: prod_eq_iff)

declare te_tokens.simps [simp del]

lemma te_tokens_ge: "p \<le> fst (te_tokens h p l)"
proof (induction h p l rule: te_tokens.induct)
  case (1 h p l)
  show ?case
  proof (cases "p < length h \<and> h ! p \<noteq> CR \<and> h ! p \<noteq> LF")
    case True
    obtain tok q where t: "next_token h p = (tok, q)" by fastforce
    with 1 [OF True, of "(tok, q)" tok q] True next_token_gr [of p h] show ?thesis
      by (simp add: te_tokens.simps [of h p])
  next
    case False
    then show ?thesis
      by (subst te_tokens.simps) auto
  qed
qed

function te_loop :: "string \<Rightarrow> nat \<Rightarrow> bool \<Rightarrow> string \<Rightarrow> bool \<times> string" where
  "te_loop h p seen last_tok =
     (if length h - p \<ge> length ''Transfer-Encoding:'' then
        if field_at h p ''Transfer-Encoding:'' then
          (let (q, last_tok) = te_tokens h (p + length ''Transfer-Encoding:'') last_tok
           in te_loop h q True last_tok)
        else te_loop h (next_line h p) seen last_tok
      else (seen, last_tok))"
  by pat_completeness auto
termination
proof (relation "measure (\<lambda>(h, p, s, l). length h - p)", goal_cases)
  case (2 h p seen l x q l')
  then have "p + length ''Transfer-Encoding:'' \<le> q"
    using te_tokens_ge [of "p + length ''Transfer-Encoding:''" h l] by (metis fst_conv)
  with 2(1) show ?case by simp
next
  case (3 h p seen l)
  then have "p < length h" by simp
  then show ?case
    using next_line_gr [of p h] by (simp add: diff_less_mono2)
qed simp

declare te_loop.simps [simp del]

definition proxy_check_transfer_encoding :: "string \<Rightarrow> PROXY_TE_MODE" where
  "proxy_check_transfer_encoding header =
     (let (seen, last_tok) = te_loop header 0 False [] in
      if \<not> seen then PROXY_TE_NONE
      else if length last_tok = 7 \<and> strncaseeq last_tok ''chunked'' 7 then PROXY_TE_CHUNKED
      else PROXY_TE_OTHER)"

subsection \<open>Upgrades\<close>

function connection_tokens :: "string \<Rightarrow> nat \<Rightarrow> nat option" where
  "connection_tokens h p =
     (if p < length h \<and> h ! p \<noteq> CR \<and> h ! p \<noteq> LF then
        (let (tok, q) = next_token h p in
         if length tok = 7 \<and> strncaseeq tok ''upgrade'' 7 then None else connection_tokens h q)
      else Some p)"
  by pat_completeness auto
termination
  using next_token_gr by (relation "measure (\<lambda>(h, p). length h - p)") (auto intro: diff_less_mono2 simp: prod_eq_iff)

declare connection_tokens.simps [simp del]

lemma connection_tokens_ge: "connection_tokens h p = Some q \<Longrightarrow> p \<le> q"
proof (induction h p rule: connection_tokens.induct)
  case (1 h p)
  show ?case
  proof (cases "p < length h \<and> h ! p \<noteq> CR \<and> h ! p \<noteq> LF")
    case True
    obtain tok r where "next_token h p = (tok, r)" by fastforce
    with 1(1) [OF True, of "(tok, r)" tok r] 1(2) True next_token_gr [of p h] show ?thesis
      by (simp add: connection_tokens.simps [of h p] split: if_splits)
  next
    case False
    with 1(2) show ?thesis by (simp add: connection_tokens.simps [of h p] split: if_splits)
  qed
qed

function connection_loop :: "string \<Rightarrow> nat \<Rightarrow> bool" where
  "connection_loop h p =
     (if length h - p \<ge> 11 then
        if field_at h p ''Connection:'' then
          (case connection_tokens h (p + 11) of None \<Rightarrow> True | Some q \<Rightarrow> connection_loop h q)
        else connection_loop h (next_line h p)
      else False)"
  by pat_completeness auto
termination
proof (relation "measure (\<lambda>(h, p). length h - p)", goal_cases)
  case (2 h p q)
  then show ?case
    using connection_tokens_ge [of h "p + 11" q] by simp
next
  case (3 h p)
  then have "p < length h" by simp
  then show ?case
    using next_line_gr [of p h] by (simp add: diff_less_mono2)
qed simp

declare connection_loop.simps [simp del]

definition proxy_header_has_connection_upgrade :: "string \<Rightarrow> bool" where
  "proxy_header_has_connection_upgrade header = connection_loop header 0"

function upgrade_loop :: "string \<Rightarrow> nat \<Rightarrow> bool" where
  "upgrade_loop h p =
     (if length h - p \<ge> 8 then
        if strncaseeq (drop p h) ''Upgrade:'' 8 then True
        else
          let p = skip_while (\<lambda>c. c \<noteq> LF) h p
          in if p \<ge> length h then False else upgrade_loop h (p + 1)
      else False)"
  by pat_completeness auto
termination
proof (relation "measure (\<lambda>(h, p). length h - p)", goal_cases)
  case (2 h p q)
  then show ?case
    using skip_while_ge [of p "\<lambda>c. c \<noteq> LF" h] by simp
qed simp

declare upgrade_loop.simps [simp del]

definition proxy_request_is_upgrade :: "string \<Rightarrow> bool" where
  "proxy_request_is_upgrade header =
     (if \<not> proxy_header_has_connection_upgrade header then False
      else upgrade_loop header (next_line header 0))"

text \<open>The value is copied into a buffer of \<open>buf_size\<close> bytes; the result is the string in it, which
  is empty where the code returns 0.\<close>

function upgrade_value_loop :: "string \<Rightarrow> nat \<Rightarrow> nat \<Rightarrow> string" where
  "upgrade_value_loop h buf_size p =
     (if length h - p \<ge> 8 then
        if field_at h p ''Upgrade:'' then
          (let p = skip_while blank h (p + 8);
               buf = take (buf_size - 1) (takeWhile (\<lambda>c. c \<noteq> CR \<and> c \<noteq> LF) (drop p h))
           in rev (dropWhile blank (rev buf)))
        else upgrade_value_loop h buf_size (p + 1)
      else [])"
  by pat_completeness auto
termination
  by (relation "measure (\<lambda>(h, b, p). length h - p)") auto

declare upgrade_value_loop.simps [simp del]

definition proxy_get_upgrade_value :: "string \<Rightarrow> nat \<Rightarrow> string" where
  "proxy_get_upgrade_value header buf_size = upgrade_value_loop header buf_size 0"

subsection \<open>The status code\<close>

function status_digits :: "string \<Rightarrow> nat \<Rightarrow> nat \<Rightarrow> int \<Rightarrow> int \<times> nat" where
  "status_digits h p digits status =
     (if p < length h \<and> digits < 3 \<and> digit (h ! p) then
        status_digits h (p + 1) (digits + 1) (status * 10 + int (code (h ! p) - code (CHR ''0'')))
      else (status, digits))"
  by pat_completeness auto
termination
  by (relation "measure (\<lambda>(h, p, digits, status). 3 - digits)") auto

declare status_digits.simps [simp del]

definition proxy_get_status_code :: "string \<Rightarrow> int" where
  "proxy_get_status_code header =
     (let p = skip_while (\<lambda>c. c \<noteq> CHR '' '') header 0;
          p = (if p < length header \<and> header ! p = CHR '' '' then p + 1 else p);
          (status, digits) = status_digits header p 0 0
      in if digits = 0 then - 1 else status)"

text \<open>Of the connection the response header needs the two headers; the result is the status code and
  whether it is an upgrade, or None where the function returns -1.\<close>

definition strcaseeq :: "string \<Rightarrow> string \<Rightarrow> bool" where
  "strcaseeq a b \<longleftrightarrow> map tolower (cstr a) = map tolower (cstr b)"

definition proxy_parse_response_header :: "string \<Rightarrow> string \<Rightarrow> (int \<times> bool) option" where
  "proxy_parse_response_header request response =
     (let status = proxy_get_status_code response in
      if status = 101 then
        (let req_upgrade = proxy_get_upgrade_value request 64;
             res_upgrade = proxy_get_upgrade_value response 64
         in if \<not> proxy_request_is_upgrade request \<or> req_upgrade = [] then None
            else if res_upgrade = [] \<or> \<not> strcaseeq req_upgrade res_upgrade then None
            else Some (status, True))
      else Some (status, False))"

end
