(* ===== verification/ProxyConnection.thy ===== *)
theory ProxyConnection
  imports ProxyFraming ProxyHeaders StringUtils
begin

text \<open>
  The state machine of a proxied connection, \<open>lib/src/reverse_proxy.c\<close>: \<open>proxy_process_state\<close> and the
  two event handlers.

  A buffer is its filled part, so \<open>request_buffer_pos\<close> and \<open>response_buffer_pos\<close> are lengths; the
  sizes of the buffers are kept. The sockets are not modelled: what the calls return is read from
  four lists of answers, and the bytes a socket has taken or given are recorded in \<open>to_backend\<close>,
  \<open>to_client\<close>, \<open>from_backend\<close> and \<open>from_client\<close>. A list that is used up answers that the call would block. The positions are natural
  numbers: a request buffer is at most 512 MB and a length is below 2^63, so no sum of the code
  exceeds its type. The client's descriptor is open while the connection is processed, so the early
  returns for a closed one are left out; a socket that has been shut down refuses what is sent. The access log, the debug output and the time stamps are left out.
\<close>

subsection \<open>The connection\<close>

datatype proxy_state =
  PROXY_STATE_IDLE | PROXY_STATE_RECV_CLIENT_HEADER | PROXY_STATE_RECV_CLIENT_BODY | PROXY_STATE_CONNECT_BACKEND |
  PROXY_STATE_SEND_TO_BACKEND | PROXY_STATE_RECV_BACKEND_HEADER | PROXY_STATE_STREAMING |
  PROXY_STATE_STREAMING_WAIT_WRITE | PROXY_STATE_WEBSOCKET_TUNNEL | PROXY_STATE_ERROR | PROXY_STATE_DONE

datatype body_transfer_mode = BODY_MODE_NONE | BODY_MODE_CONTENT_LENGTH | BODY_MODE_CHUNKED | BODY_MODE_CLOSE

datatype send_status = SOCKET_SEND_NO_MORE_DATA | SOCKET_SEND_SEND_BUFFER_FULL | SOCKET_SEND_FAILED

datatype send_answer = Accepted nat | Send_blocked | Send_broken

datatype read_answer = Received string | Read_blocked | Read_broken

datatype socket_events = No_event | Read_once | Read_persist | Write_persist | Read_write_persist | Peer_close_persist

record proxy_connection =
  state :: proxy_state
  backend_open :: bool
  backend_path :: string
  request_buffer :: string
  request_buffer_size :: nat
  request_header_end :: nat
  request_body_mode :: body_transfer_mode
  request_content_length :: nat
  request_body_received :: nat
  response_buffer :: string
  response_buffer_size :: nat
  response_header_end :: nat
  response_status_code :: int
  response_body_mode :: body_transfer_mode
  response_content_length :: nat
  response_body_received :: nat
  response_is_upgrade :: bool
  send_pos :: nat
  response_header_sent :: bool
  response_body_sent :: nat
  chunks :: proxy_chunks
  tunnel_c2b_len :: nat
  tunnel_c2b_sent :: nat
  tunnel_b2c_len :: nat
  tunnel_b2c_sent :: nat
  error_response_status :: nat
  error_response_bytes :: nat
  client_ip_str :: string
  use_ssl :: bool
  closeSocket :: bool
  reverse_proxy_error :: bool
  extern_handle :: bool
  client_shut :: bool
  client_events :: socket_events
  backend_events :: socket_events
  client_sends :: "(send_status \<times> nat) list"
  client_reads :: "(read_answer \<times> bool) list"
  ssl_pending :: bool
  backend_sends :: "send_answer list"
  backend_reads :: "read_answer list"
  to_client :: string
  to_backend :: string
  from_client :: string
  from_backend :: string

definition PROXY_BUFFER_SIZE :: nat where "PROXY_BUFFER_SIZE = 64 * 1024"
definition PROXY_MAX_HEADER_SIZE :: nat where "PROXY_MAX_HEADER_SIZE = 16 * 1024"

text \<open>What the connection asks of the system: whether an allocation of that size succeeds, whether a
  connect is accepted, and whether it has failed since.\<close>

record proxy_system =
  allocates :: "nat \<Rightarrow> bool"
  connects :: bool
  connect_failed :: bool

subsection \<open>The sockets\<close>

definition WebserverSend :: "proxy_connection \<Rightarrow> string \<Rightarrow> proxy_connection \<times> send_status \<times> nat" where
  "WebserverSend proxy data =
     (if client_shut proxy then (proxy, SOCKET_SEND_FAILED, 0)
      else case client_sends proxy of
        [] \<Rightarrow> (proxy, SOCKET_SEND_SEND_BUFFER_FULL, 0)
      | (status, n) # answers \<Rightarrow>
          (proxy\<lparr>client_sends := answers, to_client := to_client proxy @ take n data\<rparr>, status, min n (length data)))"

definition backend_send :: "proxy_connection \<Rightarrow> string \<Rightarrow> proxy_connection \<times> send_answer" where
  "backend_send proxy data =
     (case backend_sends proxy of
        [] \<Rightarrow> (proxy, Send_blocked)
      | Accepted n # answers \<Rightarrow>
          (proxy\<lparr>backend_sends := answers, to_backend := to_backend proxy @ take n data\<rparr>, Accepted (min n (length data)))
      | answer # answers \<Rightarrow> (proxy\<lparr>backend_sends := answers\<rparr>, answer))"

text \<open>A read of the client also tells whether the TLS layer holds more bytes, which
  \<open>WebserverSSLPending\<close> returns. A read of no bytes is the end of the stream at the backend, and
  CLIENT\_NO\_MORE\_DATA at the client.\<close>

definition WebserverRecv :: "proxy_connection \<Rightarrow> nat \<Rightarrow> proxy_connection \<times> read_answer" where
  "WebserverRecv proxy space =
     (case client_reads proxy of
        [] \<Rightarrow> (proxy\<lparr>ssl_pending := False\<rparr>, Read_blocked)
      | (Received d, pending) # answers \<Rightarrow>
          (proxy\<lparr>client_reads := answers, ssl_pending := pending, from_client := from_client proxy @ take space d\<rparr>,
           if take space d = [] then Read_blocked else Received (take space d))
      | (answer, pending) # answers \<Rightarrow> (proxy\<lparr>client_reads := answers, ssl_pending := pending\<rparr>, answer))"

definition backend_recv :: "proxy_connection \<Rightarrow> nat \<Rightarrow> proxy_connection \<times> read_answer" where
  "backend_recv proxy space =
     (case backend_reads proxy of
        [] \<Rightarrow> (proxy, Read_blocked)
      | Received d # answers \<Rightarrow>
          (proxy\<lparr>backend_reads := answers, from_backend := from_backend proxy @ take space d\<rparr>, Received (take space d))
      | answer # answers \<Rightarrow> (proxy\<lparr>backend_reads := answers\<rparr>, answer))"

subsection \<open>The tunnel\<close>

definition proxy_tunnel_update_events :: "proxy_connection \<Rightarrow> proxy_connection" where
  "proxy_tunnel_update_events proxy =
     (let client_read = (tunnel_c2b_len proxy = 0);
          client_write = (0 < tunnel_b2c_len proxy);
          backend_read = (tunnel_b2c_len proxy = 0);
          backend_write = (0 < tunnel_c2b_len proxy);
          proxy = proxy\<lparr>client_events :=
            (if client_read \<and> client_write then Read_write_persist
             else if client_write then Write_persist
             else if client_read then Read_persist
             else No_event)\<rparr>
      in if backend_open proxy then
           proxy\<lparr>backend_events :=
             (if backend_read \<and> backend_write then Read_write_persist
              else if backend_write then Write_persist
              else if backend_read then Read_persist
              else No_event)\<rparr>
         else proxy)"

function proxy_tunnel_flush_c2b :: "proxy_connection \<Rightarrow> proxy_connection \<times> bool" where
  "proxy_tunnel_flush_c2b proxy =
     (if tunnel_c2b_sent proxy < tunnel_c2b_len proxy then
        (case backend_send proxy (drop (tunnel_c2b_sent proxy) (take (tunnel_c2b_len proxy) (request_buffer proxy))) of
           (proxy, Send_blocked) \<Rightarrow> (proxy, True)
         | (proxy, Send_broken) \<Rightarrow> (proxy, False)
         | (proxy, Accepted sent) \<Rightarrow>
             if sent = 0 then (proxy, True)
             else proxy_tunnel_flush_c2b (proxy\<lparr>tunnel_c2b_sent := tunnel_c2b_sent proxy + sent\<rparr>))
      else (proxy\<lparr>tunnel_c2b_len := 0, tunnel_c2b_sent := 0\<rparr>, True))"
  by pat_completeness auto
termination
  by (relation "measure (\<lambda>proxy. length (backend_sends proxy))")
    (auto simp: backend_send_def split: list.splits send_answer.splits)

declare proxy_tunnel_flush_c2b.simps [simp del]

function proxy_tunnel_flush_b2c :: "proxy_connection \<Rightarrow> proxy_connection \<times> bool" where
  "proxy_tunnel_flush_b2c proxy =
     (if tunnel_b2c_sent proxy < tunnel_b2c_len proxy then
        (case WebserverSend proxy (drop (tunnel_b2c_sent proxy) (take (tunnel_b2c_len proxy) (response_buffer proxy))) of
           (proxy, status, sent) \<Rightarrow>
             let proxy = proxy\<lparr>tunnel_b2c_sent := tunnel_b2c_sent proxy + sent\<rparr> in
             if status = SOCKET_SEND_FAILED then (proxy, False)
             else if status = SOCKET_SEND_SEND_BUFFER_FULL \<or> sent = 0 then (proxy, True)
             else proxy_tunnel_flush_b2c proxy)
      else (proxy\<lparr>tunnel_b2c_len := 0, tunnel_b2c_sent := 0\<rparr>, True))"
  by pat_completeness auto
termination
  by (relation "measure (\<lambda>proxy. length (client_sends proxy))")
    (auto simp: WebserverSend_def split: list.splits if_splits)

declare proxy_tunnel_flush_b2c.simps [simp del]

subsection \<open>The error page\<close>

text \<open>The two texts are printed into buffers of 512 and 768 bytes; \<open>body_len\<close> and \<open>response_len\<close> are
  the lengths \<open>snprintf\<close> returns, before it cuts.\<close>

definition error_body :: "nat \<Rightarrow> string \<Rightarrow> string \<Rightarrow> string" where
  "error_body status reason detail =
     ''<html><head><title>'' @ dec_digits status @ '' '' @ reason @ ''</title></head>'' @
     ''<body><h1>'' @ dec_digits status @ '' '' @ reason @ ''</h1>'' @
     ''<p>'' @ detail @ ''</p></body></html>''"

definition error_response :: "nat \<Rightarrow> string \<Rightarrow> string \<Rightarrow> string" where
  "error_response status reason detail =
     (let body = error_body status reason detail in
      ''HTTP/1.1 '' @ dec_digits status @ '' '' @ reason @ [CR, LF] @
      ''Content-Type: text/html; charset=utf-8'' @ [CR, LF] @
      ''Content-Length: '' @ dec_digits (length body) @ [CR, LF] @
      ''Connection: close'' @ [CR, LF, CR, LF] @ take 511 body)"

function error_send_loop :: "proxy_connection \<Rightarrow> string \<Rightarrow> nat \<Rightarrow> proxy_connection" where
  "error_send_loop proxy response total_sent =
     (if total_sent < length response then
        (case WebserverSend proxy (drop total_sent response) of
           (proxy, status, sent) \<Rightarrow>
             if status = SOCKET_SEND_FAILED then proxy
             else if status = SOCKET_SEND_SEND_BUFFER_FULL \<or> sent = 0 then proxy
             else error_send_loop proxy response (total_sent + sent))
      else proxy)"
  by pat_completeness auto
termination
  by (relation "measure (\<lambda>(proxy, r, t). length (client_sends proxy))")
    (auto simp: WebserverSend_def split: list.splits if_splits)

declare error_send_loop.simps [simp del]

definition proxy_send_error_response :: "proxy_connection \<Rightarrow> nat \<Rightarrow> string \<Rightarrow> string \<Rightarrow> proxy_connection" where
  "proxy_send_error_response proxy status reason detail =
     (let response = error_response status reason detail in
      error_send_loop (proxy\<lparr>error_response_status := status, error_response_bytes := length response\<rparr>)
        (take 767 response) 0)"

subsection \<open>Changes of the headers\<close>

function force_close_loop :: "string \<Rightarrow> nat \<Rightarrow> string \<times> bool" where
  "force_close_loop h p =
     (if length h - p \<ge> 11 then
        if strncaseeq (drop p h) ''Connection:'' 11 then
          (let p = p + 11;
               line_end = skip_while (\<lambda>c. c \<noteq> CR \<and> c \<noteq> LF) h p
           in if line_end - p < 6 then (h, False)
              else (take p h @ '' close'' @ replicate (line_end - p - 6) (CHR '' '') @ drop line_end h, True))
        else
          let p = skip_while (\<lambda>c. c \<noteq> LF) h p
          in if p \<ge> length h then (h, False) else force_close_loop h (p + 1)
      else (h, False))"
  by pat_completeness auto
termination
proof (relation "measure (\<lambda>(h, p). length h - p)", goal_cases)
  case (2 h p q)
  then show ?case
    using skip_while_ge [of p "\<lambda>c. c \<noteq> LF" h] by simp
qed simp

declare force_close_loop.simps [simp del]

definition proxy_force_connection_close :: "string \<Rightarrow> string \<times> bool" where
  "proxy_force_connection_close header = force_close_loop header (next_line header 0)"

function host_loop :: "string \<Rightarrow> nat \<Rightarrow> nat \<Rightarrow> string" where
  "host_loop h host_buf_size p =
     (if length h - p \<ge> 5 then
        if strncaseeq (drop p h) ''Host:'' 5 then
          (let p = skip_while blank h (p + 5)
           in take (host_buf_size - 1) (takeWhile (\<lambda>c. c \<noteq> CR \<and> c \<noteq> LF) (drop p h)))
        else host_loop h host_buf_size (next_line h p)
      else [])"
  by pat_completeness auto
termination
proof (relation "measure (\<lambda>(h, n, p). length h - p)", goal_cases)
  case (2 h n p)
  then have "p < length h" by simp
  then show ?case
    using next_line_gr [of p h] by (simp add: diff_less_mono2)
qed simp

declare host_loop.simps [simp del]

definition proxy_extract_host_header :: "string \<Rightarrow> nat \<Rightarrow> string" where
  "proxy_extract_host_header header host_buf_size = host_loop header host_buf_size 0"

definition forwarded_headers :: "proxy_connection \<Rightarrow> string \<Rightarrow> string \<Rightarrow> string" where
  "forwarded_headers proxy host conn_close =
     ''X-Forwarded-For: '' @ client_ip_str proxy @ [CR, LF] @
     ''X-Forwarded-Host: '' @ (if host \<noteq> [] then host else ''unknown'') @ [CR, LF] @
     ''X-Forwarded-Proto: '' @ (if use_ssl proxy then ''https'' else ''http'') @ [CR, LF] @ conn_close"

text \<open>New lines go in front of the empty line that ends the header.\<close>

definition insert_lines :: "string \<Rightarrow> nat \<Rightarrow> string \<Rightarrow> string" where
  "insert_lines buffer header_end new_lines =
     take (header_end - 2) buffer @ new_lines @ [CR, LF] @ drop header_end buffer"

definition proxy_inject_forwarded_headers ::
    "proxy_system \<Rightarrow> proxy_connection \<Rightarrow> proxy_connection \<times> bool" where
  "proxy_inject_forwarded_headers sys proxy =
     (let n = request_header_end proxy;
          header = take n (request_buffer proxy);
          (forced, closes) =
            (if \<not> proxy_request_is_upgrade header then proxy_force_connection_close header else (header, True));
          conn_close = (if closes then [] else ''Connection: close'' @ [CR, LF]);
          proxy = proxy\<lparr>request_buffer := forced @ drop n (request_buffer proxy)\<rparr>;
          host = cstr (proxy_extract_host_header forced 256);
          forwarded = forwarded_headers proxy host conn_close;
          new_size = length (request_buffer proxy) + length forwarded
      in if length forwarded \<ge> 512 then (proxy, False)
         else if new_size > request_buffer_size proxy \<and> \<not> allocates sys (new_size + 1024) then (proxy, False)
         else
           (proxy\<lparr>request_buffer := insert_lines (request_buffer proxy) n forwarded,
                   request_buffer_size :=
                     (if new_size > request_buffer_size proxy then new_size + 1024 else request_buffer_size proxy),
                   request_header_end := n + length forwarded\<rparr>, True))"

definition proxy_inject_connection_close ::
    "proxy_system \<Rightarrow> proxy_connection \<Rightarrow> proxy_connection \<times> bool" where
  "proxy_inject_connection_close sys proxy =
     (let n = response_header_end proxy;
          conn_header = ''Connection: close'' @ [CR, LF];
          (forced, closes) = proxy_force_connection_close (take n (response_buffer proxy));
          proxy = proxy\<lparr>response_buffer := forced @ drop n (response_buffer proxy)\<rparr>;
          new_size = length (response_buffer proxy) + length conn_header
      in if closes then (proxy, True)
         else if new_size > response_buffer_size proxy \<and> \<not> allocates sys (new_size + 1024) then (proxy, False)
         else
           (proxy\<lparr>response_buffer := insert_lines (response_buffer proxy) n conn_header,
                   response_buffer_size :=
                     (if new_size > response_buffer_size proxy then new_size + 1024 else response_buffer_size proxy),
                   response_header_end := n + length conn_header\<rparr>, True))"

subsection \<open>The state machine\<close>

text \<open>The calls \<open>return proxy_process_state(proxy)\<close> only go to later states, so each state is a
  function that uses the ones behind it. The result False stands for -1: the connection is being
  torn down.\<close>

definition proxy_shutdown_client :: "proxy_connection \<Rightarrow> proxy_connection" where
  "proxy_shutdown_client proxy = proxy\<lparr>client_shut := True\<rparr>"

definition process_error :: "proxy_connection \<Rightarrow> proxy_connection \<times> bool" where
  "process_error proxy =
     (let proxy = (if \<not> response_header_sent proxy
                   then proxy_send_error_response proxy 502 ''Bad Gateway'' (backend_path proxy) else proxy);
          proxy = proxy\<lparr>reverse_proxy_error := True, closeSocket := True, extern_handle := False\<rparr>;
          proxy = (if backend_open proxy then proxy\<lparr>backend_events := No_event\<rparr> else proxy)
      in ((proxy_shutdown_client proxy)\<lparr>client_events := Read_once\<rparr>, False))"

definition process_done :: "proxy_connection \<Rightarrow> proxy_connection \<times> bool" where
  "process_done proxy =
     (let proxy = proxy\<lparr>closeSocket := True, extern_handle := False\<rparr>;
          proxy = (if backend_open proxy then proxy\<lparr>backend_events := No_event\<rparr> else proxy)
      in ((proxy_shutdown_client proxy)\<lparr>client_events := Read_once\<rparr>, False))"

definition to_error :: "proxy_connection \<Rightarrow> proxy_connection \<times> bool" where
  "to_error proxy = process_error (proxy\<lparr>state := PROXY_STATE_ERROR\<rparr>)"

definition to_done :: "proxy_connection \<Rightarrow> proxy_connection \<times> bool" where
  "to_done proxy = process_done (proxy\<lparr>state := PROXY_STATE_DONE\<rparr>)"

definition reject :: "proxy_connection \<Rightarrow> nat \<Rightarrow> string \<Rightarrow> proxy_connection \<times> bool" where
  "reject proxy status reason =
     to_error ((proxy_send_error_response proxy status reason [])\<lparr>response_header_sent := True\<rparr>)"

text \<open>Streaming the response. A loop ends with everything sent, waiting for the client, or failed.\<close>

datatype send_outcome = All_sent | Must_wait | Send_error

function send_header_loop :: "proxy_connection \<Rightarrow> proxy_connection \<times> send_outcome" where
  "send_header_loop proxy =
     (if send_pos proxy < response_header_end proxy then
        (case WebserverSend proxy (drop (send_pos proxy) (take (response_header_end proxy) (response_buffer proxy))) of
           (proxy, status, sent) \<Rightarrow>
             if status = SOCKET_SEND_SEND_BUFFER_FULL then (proxy\<lparr>send_pos := send_pos proxy + sent\<rparr>, Must_wait)
             else if status = SOCKET_SEND_FAILED then (proxy, Send_error)
             else if sent = 0 then (proxy, Must_wait)
             else send_header_loop (proxy\<lparr>send_pos := send_pos proxy + sent\<rparr>))
      else (proxy, All_sent))"
  by pat_completeness auto
termination
  by (relation "measure (\<lambda>proxy. length (client_sends proxy))") (auto simp: WebserverSend_def split: list.splits if_splits)

declare send_header_loop.simps [simp del]

function send_body_loop :: "proxy_connection \<Rightarrow> proxy_connection \<times> send_outcome" where
  "send_body_loop proxy =
     (if send_pos proxy < length (response_buffer proxy) then
        (case WebserverSend proxy (drop (send_pos proxy) (response_buffer proxy)) of
           (proxy, status, sent) \<Rightarrow>
             if status = SOCKET_SEND_SEND_BUFFER_FULL
             then (proxy\<lparr>send_pos := send_pos proxy + sent, response_body_sent := response_body_sent proxy + sent\<rparr>, Must_wait)
             else if status = SOCKET_SEND_FAILED then (proxy, Send_error)
             else if sent = 0 then (proxy, Must_wait)
             else send_body_loop
               (proxy\<lparr>send_pos := send_pos proxy + sent, response_body_sent := response_body_sent proxy + sent\<rparr>))
      else (proxy, All_sent))"
  by pat_completeness auto
termination
  by (relation "measure (\<lambda>proxy. length (client_sends proxy))") (auto simp: WebserverSend_def split: list.splits if_splits)

declare send_body_loop.simps [simp del]

definition wait_write :: "proxy_connection \<Rightarrow> proxy_connection \<times> bool" where
  "wait_write proxy =
     (proxy\<lparr>state := PROXY_STATE_STREAMING_WAIT_WRITE, backend_events := No_event, client_events := Write_persist\<rparr>, True)"

definition enter_tunnel :: "proxy_connection \<Rightarrow> proxy_connection \<times> bool" where
  "enter_tunnel proxy =
     (let proxy = proxy\<lparr>state := PROXY_STATE_WEBSOCKET_TUNNEL, client_events := No_event, backend_events := No_event,
            tunnel_b2c_len := length (response_buffer proxy), tunnel_b2c_sent := send_pos proxy,
            tunnel_c2b_len := 0, tunnel_c2b_sent := 0\<rparr>
      in if tunnel_b2c_sent proxy \<ge> tunnel_b2c_len proxy then
           (proxy_tunnel_update_events (proxy\<lparr>tunnel_b2c_len := 0, tunnel_b2c_sent := 0\<rparr>), True)
         else case proxy_tunnel_flush_b2c proxy of
             (proxy, False) \<Rightarrow> to_error proxy
           | (proxy, True) \<Rightarrow> (proxy_tunnel_update_events proxy, True))"

definition stream_body :: "proxy_connection \<Rightarrow> proxy_connection \<times> bool" where
  "stream_body proxy =
     (case send_body_loop proxy of
        (proxy, Must_wait) \<Rightarrow> wait_write proxy
      | (proxy, Send_error) \<Rightarrow> to_error proxy
      | (proxy, All_sent) \<Rightarrow>
          let proxy = proxy\<lparr>response_buffer := [], send_pos := 0\<rparr> in
          if response_body_mode proxy = BODY_MODE_CONTENT_LENGTH \<and>
             response_body_sent proxy \<ge> response_content_length proxy then
            if response_is_upgrade proxy then
              (proxy_tunnel_update_events (proxy\<lparr>state := PROXY_STATE_WEBSOCKET_TUNNEL, tunnel_c2b_len := 0,
                 tunnel_c2b_sent := 0, tunnel_b2c_len := 0, tunnel_b2c_sent := 0\<rparr>), True)
            else to_done proxy
          else if response_body_mode proxy = BODY_MODE_CHUNKED \<and> chunk_state (chunks proxy) = PROXY_CHUNK_DONE
          then to_done proxy
          else (proxy, True))"

definition process_streaming :: "proxy_connection \<Rightarrow> proxy_connection \<times> bool" where
  "process_streaming proxy =
     (if \<not> response_header_sent proxy then
        (case send_header_loop proxy of
           (proxy, Must_wait) \<Rightarrow> wait_write proxy
         | (proxy, Send_error) \<Rightarrow> to_error proxy
         | (proxy, All_sent) \<Rightarrow>
             let proxy = proxy\<lparr>response_header_sent := True\<rparr> in
             if response_is_upgrade proxy then enter_tunnel proxy else stream_body proxy)
      else stream_body proxy)"

text \<open>The response header: which of the framings holds, or None where the response is refused.\<close>

definition response_framing :: "string \<Rightarrow> int \<Rightarrow> (body_transfer_mode \<times> nat) option" where
  "response_framing header status =
     (let parsed_content_length = proxy_parse_content_length header in
      if parsed_content_length = PROXY_CL_INVALID then None
      else if parsed_content_length \<ge> 0 \<and> proxy_check_transfer_encoding header \<noteq> PROXY_TE_NONE then None
      else if status = 204 \<or> status = 304 then Some (BODY_MODE_CONTENT_LENGTH, 0)
      else if parsed_content_length \<ge> 0 then Some (BODY_MODE_CONTENT_LENGTH, nat parsed_content_length)
      else if proxy_check_transfer_encoding header = PROXY_TE_CHUNKED then Some (BODY_MODE_CHUNKED, 0)
      else Some (BODY_MODE_CLOSE, 0))"

definition start_streaming :: "proxy_connection \<Rightarrow> body_transfer_mode \<Rightarrow> nat \<Rightarrow> proxy_connection \<times> bool" where
  "start_streaming proxy mode n =
     (let body = drop (response_header_end proxy) (response_buffer proxy);
          proxy = proxy\<lparr>response_body_mode := mode, response_content_length := n, response_body_received := length body\<rparr>;
          proxy = (if mode = BODY_MODE_CHUNKED \<and> 0 < length body
                   then proxy\<lparr>chunks := fst (proxy_chunked_scan (chunks proxy) body)\<rparr> else proxy);
          proxy = (if mode = BODY_MODE_CONTENT_LENGTH \<and> length body \<ge> n
                   then proxy\<lparr>backend_events := No_event\<rparr> else proxy)
      in process_streaming (proxy\<lparr>state := PROXY_STATE_STREAMING, send_pos := 0, response_header_sent := False,
           response_body_sent := 0\<rparr>))"

definition process_backend_header :: "proxy_system \<Rightarrow> proxy_connection \<Rightarrow> proxy_connection \<times> bool" where
  "process_backend_header sys proxy =
     (let ret = proxy_find_header_end (response_buffer proxy) in
      if ret < 0 then (proxy, True)
      else
        let proxy = proxy\<lparr>response_header_end := nat ret,
              response_status_code := proxy_get_status_code (take (nat ret) (response_buffer proxy)),
              response_is_upgrade := False\<rparr>
        in case proxy_parse_response_header (take (request_header_end proxy) (request_buffer proxy))
                  (take (nat ret) (response_buffer proxy)) of
             None \<Rightarrow> to_error proxy
           | Some (status, True) \<Rightarrow>
               process_streaming (proxy\<lparr>response_is_upgrade := True, state := PROXY_STATE_STREAMING\<rparr>)
           | Some (status, False) \<Rightarrow>
               case proxy_inject_connection_close sys proxy of
                 (proxy, False) \<Rightarrow> to_error proxy
               | (proxy, True) \<Rightarrow>
                   case response_framing (take (response_header_end proxy) (response_buffer proxy))
                          (response_status_code proxy) of
                     None \<Rightarrow> to_error proxy
                   | Some (mode, n) \<Rightarrow> start_streaming proxy mode n)"

text \<open>The request.\<close>

definition process_send :: "proxy_system \<Rightarrow> proxy_connection \<Rightarrow> proxy_connection \<times> bool" where
  "process_send sys proxy =
     (if send_pos proxy = 0 \<and> connect_failed sys then to_error proxy
      else case backend_send proxy (drop (send_pos proxy) (request_buffer proxy)) of
          (proxy, Send_blocked) \<Rightarrow> (proxy\<lparr>backend_events := Write_persist\<rparr>, True)
        | (proxy, Send_broken) \<Rightarrow> to_error proxy
        | (proxy, Accepted sent) \<Rightarrow>
            let proxy = proxy\<lparr>send_pos := send_pos proxy + sent\<rparr> in
            if send_pos proxy < length (request_buffer proxy) then (proxy\<lparr>backend_events := Write_persist\<rparr>, True)
            else (proxy\<lparr>send_pos := 0, state := PROXY_STATE_RECV_BACKEND_HEADER, backend_events := Read_persist\<rparr>, True))"

definition cut_behind_body :: "proxy_connection \<Rightarrow> proxy_connection" where
  "cut_behind_body proxy =
     (if \<not> proxy_request_is_upgrade (take (request_header_end proxy) (request_buffer proxy)) then
        (let want = request_header_end proxy + request_content_length proxy in
         if length (request_buffer proxy) > want
         then proxy\<lparr>request_buffer := take want (request_buffer proxy), request_body_received := request_content_length proxy\<rparr>
         else proxy)
      else proxy)"

definition process_connect :: "proxy_system \<Rightarrow> proxy_connection \<Rightarrow> proxy_connection \<times> bool" where
  "process_connect sys proxy =
     (let proxy = (cut_behind_body proxy)\<lparr>client_events := Peer_close_persist\<rparr> in
      if \<not> connects sys then to_error proxy
      else case proxy_inject_forwarded_headers sys (proxy\<lparr>backend_open := True\<rparr>) of
          (proxy, False) \<Rightarrow> to_error proxy
        | (proxy, True) \<Rightarrow> process_send sys (proxy\<lparr>state := PROXY_STATE_SEND_TO_BACKEND\<rparr>))"

definition to_connect :: "proxy_system \<Rightarrow> proxy_connection \<Rightarrow> proxy_connection \<times> bool" where
  "to_connect sys proxy = process_connect sys (proxy\<lparr>state := PROXY_STATE_CONNECT_BACKEND\<rparr>)"

definition process_client_body :: "proxy_system \<Rightarrow> proxy_connection \<Rightarrow> proxy_connection \<times> bool" where
  "process_client_body sys proxy =
     (let proxy = proxy\<lparr>request_body_received := length (request_buffer proxy) - request_header_end proxy\<rparr> in
      if request_body_received proxy \<ge> request_content_length proxy then to_connect sys proxy
      else if length (request_buffer proxy) \<ge> request_buffer_size proxy then reject proxy 413 ''Payload Too Large''
      else (proxy, True))"

text \<open>How the request header frames its body: the length, or the status of the refusal.\<close>

definition request_framing :: "string \<Rightarrow> (nat \<times> string) + nat" where
  "request_framing header =
     (let parsed_content_length = proxy_parse_content_length header;
          request_te = proxy_check_transfer_encoding header
      in if parsed_content_length \<ge> 0 \<and> request_te \<noteq> PROXY_TE_NONE then Inl (400, ''Bad Request'')
         else if request_te = PROXY_TE_OTHER then Inl (400, ''Bad Request'')
         else if parsed_content_length = PROXY_CL_INVALID then Inl (400, ''Bad Request'')
         else if request_te = PROXY_TE_CHUNKED then Inl (411, ''Length Required'')
         else Inr (nat parsed_content_length))"

definition grow_request_buffer :: "proxy_system \<Rightarrow> proxy_connection \<Rightarrow> proxy_connection option" where
  "grow_request_buffer sys proxy =
     (let needed = min (request_header_end proxy + request_content_length proxy + 1) (512 * 1024 * 1024) in
      if needed > request_buffer_size proxy then
        if allocates sys needed then Some (proxy\<lparr>request_buffer_size := needed\<rparr>) else None
      else Some proxy)"

definition process_client_header :: "proxy_system \<Rightarrow> proxy_connection \<Rightarrow> proxy_connection \<times> bool" where
  "process_client_header sys proxy =
     (let ret = proxy_find_header_end (request_buffer proxy) in
      if ret > int PROXY_MAX_HEADER_SIZE \<or> ret < 0 \<and> length (request_buffer proxy) > PROXY_MAX_HEADER_SIZE
      then reject proxy 431 ''Request Header Fields Too Large''
      else if ret < 0 then (proxy, True)
      else
        let proxy = proxy\<lparr>request_header_end := nat ret\<rparr> in
        case request_framing (take (nat ret) (request_buffer proxy)) of
          Inl (status, reason) \<Rightarrow> reject proxy status reason
        | Inr n \<Rightarrow>
            if n > 0 then
              (let proxy = proxy\<lparr>request_body_mode := BODY_MODE_CONTENT_LENGTH, request_content_length := n,
                     request_body_received := length (request_buffer proxy) - request_header_end proxy\<rparr>
               in case grow_request_buffer sys proxy of
                    None \<Rightarrow> to_error proxy
                  | Some proxy \<Rightarrow>
                      if request_body_received proxy < request_content_length proxy
                      then (proxy\<lparr>state := PROXY_STATE_RECV_CLIENT_BODY\<rparr>, True)
                      else to_connect sys proxy)
            else to_connect sys (proxy\<lparr>request_body_mode := BODY_MODE_NONE, request_content_length := 0\<rparr>))"

definition proxy_process_state :: "proxy_system \<Rightarrow> proxy_connection \<Rightarrow> proxy_connection \<times> bool" where
  "proxy_process_state sys proxy =
     (case state proxy of
        PROXY_STATE_RECV_CLIENT_HEADER \<Rightarrow> process_client_header sys proxy
      | PROXY_STATE_RECV_CLIENT_BODY \<Rightarrow> process_client_body sys proxy
      | PROXY_STATE_CONNECT_BACKEND \<Rightarrow> process_connect sys proxy
      | PROXY_STATE_SEND_TO_BACKEND \<Rightarrow> process_send sys proxy
      | PROXY_STATE_RECV_BACKEND_HEADER \<Rightarrow> process_backend_header sys proxy
      | PROXY_STATE_STREAMING \<Rightarrow> process_streaming proxy
      | PROXY_STATE_ERROR \<Rightarrow> process_error proxy
      | PROXY_STATE_DONE \<Rightarrow> process_done proxy
      | _ \<Rightarrow> (proxy, True))"

subsection \<open>The event handlers\<close>

function client_read_loop :: "proxy_connection \<Rightarrow> proxy_connection \<times> bool" where
  "client_read_loop proxy =
     (if length (request_buffer proxy) \<ge> request_buffer_size proxy then (proxy, True)
      else case WebserverRecv proxy (request_buffer_size proxy - length (request_buffer proxy)) of
          (proxy, Read_blocked) \<Rightarrow> (proxy, True)
        | (proxy, Read_broken) \<Rightarrow> (proxy, False)
        | (proxy, Received d) \<Rightarrow>
            let proxy = proxy\<lparr>request_buffer := request_buffer proxy @ d\<rparr>
            in if ssl_pending proxy then client_read_loop proxy else (proxy, True))"
  by pat_completeness auto
termination
  by (relation "measure (\<lambda>proxy. length (client_reads proxy))")
    (auto simp: WebserverRecv_def split: list.splits read_answer.splits if_splits)

declare client_read_loop.simps [simp del]

text \<open>The reads of a tunnel: the loop goes on while the TLS layer holds bytes and the backend takes
  them.\<close>

function tunnel_read_loop :: "proxy_connection \<Rightarrow> proxy_connection \<times> bool" where
  "tunnel_read_loop proxy =
     (if tunnel_c2b_len proxy = 0 then
        (case WebserverRecv proxy (request_buffer_size proxy) of
           (proxy, Read_blocked) \<Rightarrow> (proxy_tunnel_update_events proxy, True)
         | (proxy, Read_broken) \<Rightarrow> to_done proxy
         | (proxy, Received d) \<Rightarrow>
             let proxy = proxy\<lparr>request_buffer := d, tunnel_c2b_len := length d, tunnel_c2b_sent := 0\<rparr> in
             case (if backend_open proxy then proxy_tunnel_flush_c2b proxy else (proxy, True)) of
               (proxy, False) \<Rightarrow> to_error proxy
             | (proxy, True) \<Rightarrow>
                 if \<not> ssl_pending proxy then (proxy_tunnel_update_events proxy, True)
                 else tunnel_read_loop proxy)
      else (proxy_tunnel_update_events proxy, True))"
  by pat_completeness auto
termination
proof -
  have flush: "client_reads (fst (proxy_tunnel_flush_c2b proxy)) = client_reads proxy" for proxy
  proof (induction proxy rule: proxy_tunnel_flush_c2b.induct)
    case (1 proxy)
    then show ?case
      by (subst proxy_tunnel_flush_c2b.simps)
        (auto simp: backend_send_def split: prod.splits send_answer.splits list.splits)
  qed
  show ?thesis
  proof (relation "measure (\<lambda>proxy. length (client_reads proxy))", goal_cases)
    case (2 proxy p1 answer d p2 p3 ok)
    from 2(4,5) have "client_reads p3 = client_reads p1"
      using flush [of p2] by (auto split: if_splits) (metis fst_conv)
    moreover from 2(2,3) have "length (client_reads p1) < length (client_reads proxy)"
      by (auto simp: WebserverRecv_def split: list.splits read_answer.splits if_splits)
    ultimately show ?case by simp
  qed simp
qed

declare tunnel_read_loop.simps [simp del]

definition reverse_proxy_client_handler :: "proxy_system \<Rightarrow> proxy_connection \<Rightarrow> proxy_connection \<times> bool" where
  "reverse_proxy_client_handler sys proxy =
     (case state proxy of
        PROXY_STATE_RECV_CLIENT_HEADER \<Rightarrow>
          (case client_read_loop proxy of
             (proxy, False) \<Rightarrow> to_error proxy | (proxy, True) \<Rightarrow> proxy_process_state sys proxy)
      | PROXY_STATE_RECV_CLIENT_BODY \<Rightarrow>
          (case client_read_loop proxy of
             (proxy, False) \<Rightarrow> to_error proxy | (proxy, True) \<Rightarrow> proxy_process_state sys proxy)
      | PROXY_STATE_STREAMING_WAIT_WRITE \<Rightarrow>
          process_streaming (proxy\<lparr>client_events := Peer_close_persist, backend_events := Read_persist,
            state := PROXY_STATE_STREAMING\<rparr>)
      | PROXY_STATE_CONNECT_BACKEND \<Rightarrow> to_done proxy
      | PROXY_STATE_SEND_TO_BACKEND \<Rightarrow> to_done proxy
      | PROXY_STATE_RECV_BACKEND_HEADER \<Rightarrow> to_done proxy
      | PROXY_STATE_STREAMING \<Rightarrow> to_done proxy
      | PROXY_STATE_WEBSOCKET_TUNNEL \<Rightarrow>
          (case (if 0 < tunnel_b2c_len proxy then proxy_tunnel_flush_b2c proxy else (proxy, True)) of
             (proxy, False) \<Rightarrow> to_done proxy
           | (proxy, True) \<Rightarrow> tunnel_read_loop proxy)
      | _ \<Rightarrow> proxy_process_state sys proxy)"

definition backend_streaming :: "proxy_connection \<Rightarrow> proxy_connection \<times> bool" where
  "backend_streaming proxy =
     (if length (response_buffer proxy) > send_pos proxy then process_streaming proxy
      else if response_body_mode proxy = BODY_MODE_CONTENT_LENGTH \<and>
        response_body_sent proxy \<ge> response_content_length proxy then to_done proxy
      else
        case backend_recv (proxy\<lparr>response_buffer := [], send_pos := 0\<rparr>) (response_buffer_size proxy) of
          (proxy, Read_blocked) \<Rightarrow> (proxy, True)
        | (proxy, Read_broken) \<Rightarrow> to_error proxy
        | (proxy, Received d) \<Rightarrow>
            if d = [] then
              if response_body_mode proxy = BODY_MODE_CHUNKED \<and> chunk_state (chunks proxy) \<noteq> PROXY_CHUNK_DONE
              then to_done proxy
              else if response_body_mode proxy = BODY_MODE_CLOSE \<or>
                response_body_sent proxy \<ge> response_content_length proxy then to_done proxy
              else to_error proxy
            else
              let proxy = proxy\<lparr>response_buffer := d\<rparr>;
                  proxy = (if response_body_mode proxy = BODY_MODE_CHUNKED
                           then proxy\<lparr>chunks := fst (proxy_chunked_scan (chunks proxy) d)\<rparr> else proxy)
              in process_streaming proxy)"

definition backend_tunnel_read :: "proxy_connection \<Rightarrow> proxy_connection \<times> bool" where
  "backend_tunnel_read proxy =
     (if tunnel_b2c_len proxy = 0 then
        (case backend_recv proxy (response_buffer_size proxy) of
           (proxy, Read_blocked) \<Rightarrow> (proxy_tunnel_update_events proxy, True)
         | (proxy, Read_broken) \<Rightarrow> to_done proxy
         | (proxy, Received d) \<Rightarrow>
             if d = [] then to_done proxy
             else
               case proxy_tunnel_flush_b2c (proxy\<lparr>response_buffer := d, tunnel_b2c_len := length d, tunnel_b2c_sent := 0\<rparr>) of
                 (proxy, False) \<Rightarrow> to_error proxy
               | (proxy, True) \<Rightarrow> (proxy_tunnel_update_events proxy, True))
      else (proxy_tunnel_update_events proxy, True))"

definition backend_tunnel :: "proxy_system \<Rightarrow> proxy_connection \<Rightarrow> proxy_connection \<times> bool" where
  "backend_tunnel sys proxy =
     (if 0 < tunnel_c2b_len proxy then
        (case proxy_tunnel_flush_c2b proxy of
           (proxy, False) \<Rightarrow> to_error proxy
         | (proxy, True) \<Rightarrow>
             if tunnel_c2b_len proxy = 0 \<and> ssl_pending proxy then reverse_proxy_client_handler sys proxy
             else backend_tunnel_read proxy)
      else backend_tunnel_read proxy)"

definition reverse_proxy_backend_handler :: "proxy_system \<Rightarrow> proxy_connection \<Rightarrow> proxy_connection \<times> bool" where
  "reverse_proxy_backend_handler sys proxy =
     (case state proxy of
        PROXY_STATE_SEND_TO_BACKEND \<Rightarrow>
          (case proxy_process_state sys proxy of (proxy, alive) \<Rightarrow> proxy_process_state sys proxy)
      | PROXY_STATE_RECV_BACKEND_HEADER \<Rightarrow>
          if length (response_buffer proxy) \<ge> response_buffer_size proxy then to_error proxy
          else
            (case backend_recv proxy (response_buffer_size proxy - length (response_buffer proxy)) of
               (proxy, Read_blocked) \<Rightarrow> (proxy, True)
             | (proxy, Read_broken) \<Rightarrow> to_error proxy
             | (proxy, Received d) \<Rightarrow>
                 if d = [] then to_error proxy
                 else proxy_process_state sys (proxy\<lparr>response_buffer := response_buffer proxy @ d\<rparr>))
      | PROXY_STATE_STREAMING \<Rightarrow> backend_streaming proxy
      | PROXY_STATE_WEBSOCKET_TUNNEL \<Rightarrow> backend_tunnel sys proxy
      | _ \<Rightarrow> proxy_process_state sys proxy)"

subsection \<open>Registrations and the start of a connection\<close>

record proxy_registration =
  reg_method :: string
  url_prefix :: string
  reg_backend_path :: string

text \<open>The parameters are null pointers or strings; the list of registrations is in the order they were
  made.\<close>

definition reverse_proxy_register_uds_internal ::
    "bool \<Rightarrow> string option \<Rightarrow> string option \<Rightarrow> string option \<Rightarrow> proxy_registration list \<Rightarrow> proxy_registration list" where
  "reverse_proxy_register_uds_internal allocated http_method url_pre path regs =
     (case (url_pre, path) of
        (Some url_pre, Some path) \<Rightarrow>
          if \<not> allocated then regs
          else regs @ [\<lparr>reg_method = (case http_method of Some m \<Rightarrow> m | None \<Rightarrow> ''*''), url_prefix = url_pre,
                        reg_backend_path = path\<rparr>]
      | _ \<Rightarrow> regs)"

fun proxy_find_registration :: "string \<Rightarrow> string \<Rightarrow> proxy_registration list \<Rightarrow> proxy_registration option" where
  "proxy_find_registration http_method url [] = None"
| "proxy_find_registration http_method url (reg # regs) =
     (if strncmp url (url_prefix reg) (length (url_prefix reg)) = 0 \<and>
         (strcmp (reg_method reg) ''*'' = 0 \<or> strcaseeq (reg_method reg) http_method)
      then Some reg
      else proxy_find_registration http_method url regs)"

definition proxy_parse_request_line :: "string \<Rightarrow> nat \<Rightarrow> nat \<Rightarrow> (string \<times> string) option" where
  "proxy_parse_request_line buffer method_size url_size =
     (let http_method = take (method_size - 1) (takeWhile (\<lambda>c. c \<noteq> CHR '' '') buffer);
          i = length http_method
      in if i \<ge> length buffer \<or> buffer ! i \<noteq> CHR '' '' then None
         else Some (http_method,
           take (url_size - 1) (takeWhile (\<lambda>c. c \<noteq> CHR '' '' \<and> c \<noteq> CHR ''?'') (drop (i + 1) buffer))))"

text \<open>What the proxy uses of the client's socket.\<close>

record proxy_client =
  reverse_proxy_checked :: bool
  output_list_size :: nat
  header_buffer_pos :: nat
  sock_closeSocket :: bool
  sock_proxy_error :: bool
  sock_ip_str :: string
  sock_use_ssl :: bool
  sock_events :: socket_events

definition proxy_create_connection ::
    "proxy_system \<Rightarrow> proxy_client \<Rightarrow> proxy_registration \<Rightarrow> proxy_connection option" where
  "proxy_create_connection sys s reg =
     (if \<not> allocates sys PROXY_BUFFER_SIZE then None
      else Some \<lparr>state = PROXY_STATE_RECV_CLIENT_HEADER, backend_open = False, backend_path = reg_backend_path reg,
        request_buffer = [], request_buffer_size = PROXY_BUFFER_SIZE, request_header_end = 0,
        request_body_mode = BODY_MODE_NONE, request_content_length = 0, request_body_received = 0,
        response_buffer = [], response_buffer_size = PROXY_BUFFER_SIZE, response_header_end = 0,
        response_status_code = 0, response_body_mode = BODY_MODE_NONE, response_content_length = 0,
        response_body_received = 0, response_is_upgrade = False, send_pos = 0, response_header_sent = False,
        response_body_sent = 0, chunks = chunk_start, tunnel_c2b_len = 0, tunnel_c2b_sent = 0, tunnel_b2c_len = 0,
        tunnel_b2c_sent = 0, error_response_status = 0, error_response_bytes = 0, client_ip_str = sock_ip_str s,
        use_ssl = sock_use_ssl s, closeSocket = False, reverse_proxy_error = sock_proxy_error s, extern_handle = True, client_shut = False,
        client_events = sock_events s, backend_events = No_event, client_sends = [], client_reads = [],
        ssl_pending = False, backend_sends = [], backend_reads = [], to_client = [], to_backend = [],
        from_client = [], from_backend = []\<rparr>)"

text \<open>The answers the sockets will give are a parameter of the new connection.\<close>

record proxy_answers =
  ans_client_sends :: "(send_status \<times> nat) list"
  ans_client_reads :: "(read_answer \<times> bool) list"
  ans_backend_sends :: "send_answer list"
  ans_backend_reads :: "read_answer list"

definition with_answers :: "proxy_answers \<Rightarrow> proxy_connection \<Rightarrow> proxy_connection" where
  "with_answers answers proxy =
     proxy\<lparr>client_sends := ans_client_sends answers, client_reads := ans_client_reads answers,
           backend_sends := ans_backend_sends answers, backend_reads := ans_backend_reads answers\<rparr>"

text \<open>The result tells whether the proxy took the request, and the connection it made.\<close>

definition checkReverseProxy ::
    "proxy_system \<Rightarrow> proxy_answers \<Rightarrow> proxy_registration list \<Rightarrow> proxy_client \<Rightarrow> string \<Rightarrow>
      proxy_client \<times> bool \<times> proxy_connection option" where
  "checkReverseProxy sys answers regs s buffer =
     (if reverse_proxy_checked s then (s, False, None)
      else case proxy_parse_request_line buffer 16 512 of
          None \<Rightarrow> (s, False, None)
        | Some (http_method, url) \<Rightarrow>
            (case proxy_find_registration http_method url regs of
               None \<Rightarrow> (s\<lparr>reverse_proxy_checked := True\<rparr>, False, None)
             | Some reg \<Rightarrow>
                 if output_list_size s > 0 then
                   (s\<lparr>header_buffer_pos := 0, sock_closeSocket := True, sock_events := Write_persist\<rparr>, True, None)
                 else
                   (case proxy_create_connection sys s reg of
                      None \<Rightarrow> (s\<lparr>sock_proxy_error := True\<rparr>, False, None)
                    | Some proxy \<Rightarrow>
                        let proxy = with_answers answers proxy;
                            proxy = (if 0 < length buffer \<and> length buffer < request_buffer_size proxy
                                     then proxy\<lparr>request_buffer := buffer, from_client := buffer\<rparr> else proxy);
                            (proxy, alive) = proxy_process_state sys proxy;
                            proxy = (if alive \<and> (state proxy = PROXY_STATE_RECV_CLIENT_HEADER \<or>
                                                  state proxy = PROXY_STATE_RECV_CLIENT_BODY)
                                     then proxy\<lparr>client_events := Read_persist\<rparr> else proxy)
                        in (s\<lparr>reverse_proxy_checked := True\<rparr>, True, Some proxy))))"

end
