(* ===== verification/ProxyFields.thy ===== *)
theory ProxyFields
  imports ProxyHeaders
begin

text \<open>
  The scans of \<open>ProxyHeaders\<close> against a description of the header as a list of lines: the fields of
  a name are the lines that start with it, in any case of letters, and what they hold is the rest
  of the line.
\<close>

subsection \<open>Lines and fields\<close>

primrec split_on :: "'a \<Rightarrow> 'a list \<Rightarrow> 'a list list" where
  "split_on x [] = [[]]"
| "split_on x (c # s) =
     (if c = x then [] # split_on x s
      else case split_on x s of [] \<Rightarrow> [[c]] | l # ls \<Rightarrow> (c # l) # ls)"

definition named :: "string \<Rightarrow> string \<Rightarrow> bool" where
  "named name l \<longleftrightarrow> map tolower (take (length name) l) = map tolower name"

definition fields :: "string \<Rightarrow> string \<Rightarrow> string list" where
  "fields name h = map (drop (length name)) (filter (named name) (split_on LF h))"

text \<open>A name is not empty and has no CR, LF or NUL in it.\<close>

definition field_name :: "string \<Rightarrow> bool" where
  "field_name name \<longleftrightarrow> name \<noteq> [] \<and> CR \<notin> set name \<and> LF \<notin> set name \<and> NUL \<notin> set name"

lemma split_on_span:
  "split_on x s = takeWhile (\<lambda>c. c \<noteq> x) s # (if x \<in> set s then split_on x (tl (dropWhile (\<lambda>c. c \<noteq> x) s)) else [])"
  by (induction s) auto

lemma tolower_upper: "65 \<le> code c \<and> code c \<le> 90 \<Longrightarrow> code (tolower c) = code c + 32"
  by (simp add: tolower_def)

lemma tolower_other: "\<not> (65 \<le> code c \<and> code c \<le> 90) \<Longrightarrow> tolower c = c"
  by (auto simp: tolower_def)

lemma tolower_control: "code d < 32 \<Longrightarrow> tolower c = d \<longleftrightarrow> c = d"
  using tolower_upper [of c] tolower_other [of c] by (cases "65 \<le> code c \<and> code c \<le> 90") auto

lemma tolower_LF [simp]: "tolower c = LF \<longleftrightarrow> c = LF" "LF = tolower c \<longleftrightarrow> c = LF"
  and tolower_NUL [simp]: "tolower c = NUL \<longleftrightarrow> c = NUL" "NUL = tolower c \<longleftrightarrow> c = NUL" "tolower NUL = NUL"
  using tolower_control [of LF c] tolower_control [of NUL c] tolower_control [of NUL NUL] by auto

lemma strncaseeq_named: "NUL \<notin> set name \<Longrightarrow> strncaseeq l name (length name) \<longleftrightarrow> named name l"
proof (induction name arbitrary: l)
  case (Cons c name)
  show ?case
  proof (cases l)
    case Nil
    with Cons.prems tolower_NUL(1) [of c] show ?thesis by (auto simp: named_def cget_def)
  next
    case (Cons a l')
    with Cons.IH [of l'] Cons.prems show ?thesis
      using tolower_NUL(1) [of c] by (auto simp: named_def cget_def)
  qed
qed (simp add: named_def)

lemma named_length: "named name l \<Longrightarrow> length name \<le> length l"
  unfolding named_def by (drule arg_cong [of _ _ length]) simp

lemma named_no_control: "named name l \<Longrightarrow> code d < 32 \<Longrightarrow> d \<notin> set name \<Longrightarrow> d \<notin> set (take (length name) l)"
proof
  assume a: "named name l" "code d < 32" "d \<notin> set name" "d \<in> set (take (length name) l)"
  then have "tolower d \<in> tolower ` set name"
    unfolding named_def by (metis image_eqI image_set)
  with a(2,3) show False
    using tolower_control [of d] by (metis imageE)
qed

lemma named_no_LF: "named name l \<Longrightarrow> LF \<notin> set name \<Longrightarrow> LF \<notin> set (take (length name) l)"
  by (rule named_no_control) auto

lemma takeWhile_within: "(\<forall>c \<in> set (take n s). P c) \<Longrightarrow> takeWhile P s = take n s @ takeWhile P (drop n s)"
  by (metis append_take_drop_id takeWhile_append2)

lemma named_line:
  assumes "field_name name"
  shows "named name (takeWhile (\<lambda>c. c \<noteq> LF) s) \<longleftrightarrow> named name s"
    and "named name s \<Longrightarrow> drop (length name) (takeWhile (\<lambda>c. c \<noteq> LF) s) = takeWhile (\<lambda>c. c \<noteq> LF) (drop (length name) s)"
proof -
  have split: "takeWhile (\<lambda>c. c \<noteq> LF) s = take (length name) s @ takeWhile (\<lambda>c. c \<noteq> LF) (drop (length name) s)"
    if "named name s"
    using named_no_LF [OF that] assms by (intro takeWhile_within) (auto simp: field_name_def)
  show "drop (length name) (takeWhile (\<lambda>c. c \<noteq> LF) s) = takeWhile (\<lambda>c. c \<noteq> LF) (drop (length name) s)" if "named name s"
    using split [OF that] named_length [OF that] by simp
  show "named name (takeWhile (\<lambda>c. c \<noteq> LF) s) \<longleftrightarrow> named name s"
  proof
    assume n: "named name (takeWhile (\<lambda>c. c \<noteq> LF) s)"
    have "take (length name) (takeWhile (\<lambda>c. c \<noteq> LF) s) = take (length name) s"
      using named_length [OF n] by (subst takeWhile_eq_take) (simp add: min_absorb1)
    with n show "named name s" by (simp add: named_def)
  next
    assume "named name s"
    with split [OF this] named_length [OF this] show "named name (takeWhile (\<lambda>c. c \<noteq> LF) s)"
      by (simp add: named_def)
  qed
qed

lemma named_Nil: "field_name name \<Longrightarrow> \<not> named name []"
  by (auto simp: named_def field_name_def)

lemma fields_Nil [simp]: "field_name name \<Longrightarrow> fields name [] = []"
  by (simp add: fields_def named_Nil)

lemma fields_short: "length s < length name \<Longrightarrow> field_name name \<Longrightarrow> fields name s = []"
proof (induction "length s" arbitrary: s rule: less_induct)
  case less
  then have "\<not> named name (takeWhile (\<lambda>c. c \<noteq> LF) s)"
    using named_length [of name s] by (auto simp: named_line)
  moreover have "fields name (tl (dropWhile (\<lambda>c. c \<noteq> LF) s)) = []" if "LF \<in> set s"
  proof -
    have "length (tl (dropWhile (\<lambda>c. c \<noteq> LF) s)) < length s"
      using that length_dropWhile_le [of "\<lambda>c. c \<noteq> LF" s] by (cases s) auto
    with less show ?thesis by simp
  qed
  ultimately show ?case
    by (subst fields_def, subst split_on_span) (auto simp: fields_def)
qed

subsection \<open>One line of a scan\<close>

lemma drop_next_line: "drop (next_line h p) h = tl (dropWhile (\<lambda>c. c \<noteq> LF) (drop p h))"
proof (cases "skip_while (\<lambda>c. c \<noteq> LF) h p < length h")
  case True
  then show ?thesis
    by (simp add: next_line_def Let_def drop_Suc tl_drop [symmetric] drop_skip_while [symmetric])
next
  case False
  then have "dropWhile (\<lambda>c. c \<noteq> LF) (drop p h) = []"
    by (simp add: drop_skip_while [symmetric] del: dropWhile_eq_Nil_conv)
  with False show ?thesis
    by (simp add: next_line_def Let_def drop_skip_while del: dropWhile_eq_Nil_conv)
qed

lemma fields_step:
  assumes "field_name name"
  shows "fields name (drop p h) =
    (if named name (drop p h) then [takeWhile (\<lambda>c. c \<noteq> LF) (drop (p + length name) h)] else []) @
    fields name (drop (next_line h p) h)"
proof -
  have "drop (p + length name) h = drop (length name) (drop p h)"
    by (simp add: add.commute)
  moreover have "fields name (drop (next_line h p) h) = []" if "LF \<notin> set (drop p h)"
  proof -
    have "dropWhile (\<lambda>c. c \<noteq> LF) (drop p h) = []"
      using that by (auto simp: dropWhile_eq_Nil_conv)
    then show ?thesis
      using assms by (simp add: drop_next_line del: dropWhile_eq_Nil_conv)
  qed
  ultimately show ?thesis
    using named_line [OF assms, of "drop p h"]
    by (subst fields_def, subst split_on_span) (auto simp: fields_def drop_next_line)
qed

definition line_start :: "string \<Rightarrow> nat \<Rightarrow> bool" where
  "line_start h p \<longleftrightarrow> p = 0 \<or> h ! (p - 1) = LF \<or> length h \<le> p"

lemma next_line_start: "line_start h (next_line h p)"
proof -
  have "h ! skip_while (\<lambda>c. c \<noteq> LF) h p = LF" if "skip_while (\<lambda>c. c \<noteq> LF) h p < length h"
  proof -
    have "dropWhile (\<lambda>c. c \<noteq> LF) (drop p h) \<noteq> []"
      using that by (metis drop_eq_Nil drop_skip_while not_less)
    from hd_dropWhile [OF this] show ?thesis
      using that by (simp add: drop_skip_while [symmetric] hd_drop_conv_nth)
  qed
  then show ?thesis
    by (auto simp: next_line_def line_start_def Let_def)
qed

lemma field_at_named:
  assumes "field_name name" "line_start h p"
  shows "field_at h p name \<longleftrightarrow> named name (drop p h)"
proof (cases "length h \<le> p")
  case True
  then show ?thesis
    using assms strncaseeq_named [of name "drop p h"] named_Nil [of name] by (simp add: field_at_def field_name_def)
next
  case False
  then show ?thesis
    using assms strncaseeq_named [of name "drop p h"] by (auto simp: field_at_def field_name_def line_start_def)
qed

lemma takeWhile_dropWhile_LF:
  assumes "\<not> P LF"
  shows "takeWhile (\<lambda>c. c \<noteq> LF) (dropWhile P s) = dropWhile P (takeWhile (\<lambda>c. c \<noteq> LF) s)"
    and "length (takeWhile P s) + length (takeWhile (\<lambda>c. c \<noteq> LF) (dropWhile P s)) = length (takeWhile (\<lambda>c. c \<noteq> LF) s)"
    and "takeWhile P (takeWhile (\<lambda>c. c \<noteq> LF) s) = takeWhile P s"
  by (use assms in \<open>induction s; auto\<close>)+

lemma next_line_skip: "\<not> P LF \<Longrightarrow> next_line h (skip_while P h p) = next_line h p"
proof -
  assume "\<not> P LF"
  then have "length (takeWhile P (drop p h)) + length (takeWhile (\<lambda>c. c \<noteq> LF) (dropWhile P (drop p h))) =
      length (takeWhile (\<lambda>c. c \<noteq> LF) (drop p h))"
    by (rule takeWhile_dropWhile_LF(2))
  then have "skip_while (\<lambda>c. c \<noteq> LF) h (skip_while P h p) = skip_while (\<lambda>c. c \<noteq> LF) h p"
    by (simp only: skip_while_eq [of "\<lambda>c. c \<noteq> LF"] drop_skip_while) (simp add: skip_while_eq)
  then show ?thesis by (simp add: next_line_def)
qed

lemma next_line_within:
  assumes "LF \<notin> set (take n (drop p h))" "p + n \<le> length h"
  shows "next_line h (p + n) = next_line h p"
proof -
  have "takeWhile (\<lambda>c. c \<noteq> LF) (drop p h) = take n (drop p h) @ takeWhile (\<lambda>c. c \<noteq> LF) (drop n (drop p h))"
    using assms by (intro takeWhile_within) auto
  then have "skip_while (\<lambda>c. c \<noteq> LF) h p = skip_while (\<lambda>c. c \<noteq> LF) h (p + n)"
    using assms(2) by (simp add: skip_while_eq add.commute add.left_commute)
  then show ?thesis
    by (simp add: next_line_def)
qed

subsection \<open>The body length\<close>

definition decimal :: "nat \<Rightarrow> string \<Rightarrow> nat" where
  "decimal n ds = foldl (\<lambda>n c. n * 10 + (code c - 48)) n ds"

text \<open>The value of a field: blanks, digits, blanks, and nothing more than the CR of the line end;
  the number fits an \<open>int64_t\<close>.\<close>

definition length_value :: "string \<Rightarrow> int" where
  "length_value v =
     (let ds = takeWhile digit (dropWhile blank v);
          t = dropWhile blank (dropWhile digit (dropWhile blank v))
      in if ds = [] \<or> decimal 0 ds \<ge> 2 ^ 63 \<or> (t \<noteq> [] \<and> hd t \<noteq> CR) then PROXY_CL_INVALID
         else int (decimal 0 ds))"

definition the_content_length :: "string \<Rightarrow> int" where
  "the_content_length h =
     (case fields ''Content-Length:'' h of
        [] \<Rightarrow> PROXY_CL_MISSING
      | [v] \<Rightarrow> length_value v
      | _ \<Rightarrow> PROXY_CL_INVALID)"

lemma content_length_name: "field_name ''Content-Length:''"
  by (simp add: field_name_def)

lemma decimal_simps [simp]: "decimal n [] = n" "decimal n (c # ds) = decimal (n * 10 + (code c - 48)) ds"
  by (simp_all add: decimal_def)

lemma decimal_ge: "n \<le> decimal n ds"
proof (induction ds arbitrary: n)
  case (Cons c ds)
  show ?case
    using Cons [of "n * 10 + (code c - 48)"] by simp
qed simp

lemma digit_guard:
  assumes "digit c"
  shows "v > (INT64_MAX - of_nat (code c - 48)) div 10 \<longleftrightarrow> unat v * 10 + (code c - 48) \<ge> 2 ^ 63"
    and "unat v * 10 + (code c - 48) < 2 ^ 63 \<Longrightarrow>
      unat (v * 10 + of_nat (code c - 48)) = unat v * 10 + (code c - 48)"
proof -
  have "code c - 48 < 10"
    using assms by (auto simp: digit_def)
  then have d: "unat (of_nat (code c - 48) :: u64) = code c - 48"
    by (simp only: unat_of_nat) simp
  have "of_nat (code c - 48) \<le> INT64_MAX"
    using d \<open>code c - 48 < 10\<close> by (simp only: word_le_nat_alt) (simp add: INT64_MAX_def)
  note g = guarded_multiply_add [OF this, of 10 v]
  from g(1) d show "v > (INT64_MAX - of_nat (code c - 48)) div 10 \<longleftrightarrow> unat v * 10 + (code c - 48) \<ge> 2 ^ 63"
    by (auto simp: INT64_MAX_def)
  from g(2) d show "unat v * 10 + (code c - 48) < 2 ^ 63 \<Longrightarrow>
      unat (v * 10 + of_nat (code c - 48)) = unat v * 10 + (code c - 48)"
    by (simp add: INT64_MAX_def)
qed

lemma cl_digits_eq:
  "unat v < 2 ^ 63 \<Longrightarrow>
    (case cl_digits h p v of None \<Rightarrow> decimal (unat v) (takeWhile digit (drop p h)) \<ge> 2 ^ 63
     | Some (w, q) \<Rightarrow> unat w = decimal (unat v) (takeWhile digit (drop p h)) \<and> unat w < 2 ^ 63 \<and>
         q = skip_while digit h p)"
proof (induction h p v rule: cl_digits.induct)
  case (1 h p v)
  show ?case
  proof (cases "p < length h \<and> digit (h ! p)")
    case True
    let ?d = "code (h ! p) - 48"
    have drop: "drop p h = h ! p # drop (p + 1) h"
      using True by (simp add: Cons_nth_drop_Suc)
    note g = digit_guard [of "h ! p" v]
    show ?thesis
    proof (cases "unat v * 10 + ?d \<ge> 2 ^ 63")
      case big: True
      then have "decimal (unat v) (takeWhile digit (drop p h)) \<ge> 2 ^ 63"
        using True order_trans [OF big decimal_ge] by (simp add: drop)
      then show ?thesis
        using True g(1) big by (simp add: cl_digits.simps [of h p] Let_def)
    next
      case False
      with True g have "cl_digits h p v = cl_digits h (p + 1) (v * 10 + of_nat ?d)"
        by (simp add: cl_digits.simps [of h p] Let_def)
      moreover have "skip_while digit h p = skip_while digit h (p + 1)"
        using True by (simp add: skip_while.simps [of digit h p])
      moreover have "takeWhile digit (drop p h) = h ! p # takeWhile digit (drop (p + 1) h)"
        using True by (simp add: drop)
      ultimately show ?thesis
        using 1(1) [OF True refl] False True g
        by (cases "cl_digits h (p + 1) (v * 10 + of_nat ?d)") auto
    qed
  next
    case False
    then have "takeWhile digit (drop p h) = []"
      by (cases "p < length h") (auto simp: Cons_nth_drop_Suc [symmetric])
    with False 1(2) show ?thesis
      by (auto simp: cl_digits.simps [of h p] skip_while_eq)
  qed
qed

lemma sint_small: "unat (w :: u64) < 2 ^ 63 \<Longrightarrow> sint w = int (unat w)"
proof -
  assume "unat w < 2 ^ 63"
  then have "int (unat w) < int (2 ^ 63)"
    by (simp only: of_nat_less_iff)
  then have "signed_take_bit 63 (int (unat w)) = int (unat w)"
    by (intro signed_take_bit_int_eq_self) (simp_all add: order_trans [OF _ unsigned_greater_eq])
  then show ?thesis
    by (simp add: sint_uint)
qed

lemma cl_again_fields: "line_start h p \<Longrightarrow> cl_again h p \<longleftrightarrow> fields ''Content-Length:'' (drop p h) \<noteq> []"
proof (induction h p rule: cl_again.induct)
  case (1 h p)
  show ?case
  proof (cases "length h - p \<ge> length ''Content-Length:''")
    case True
    then show ?thesis
      using 1 next_line_start [of h p] fields_step [OF content_length_name, of p h]
        field_at_named [OF content_length_name, of h p]
      by (subst cl_again.simps) auto
  next
    case False
    then show ?thesis
      using fields_short [OF _ content_length_name, of "drop p h"] by (subst cl_again.simps) auto
  qed
qed

lemma not_line_end: "\<not> blank LF" "\<not> digit LF"
  by (simp_all add: blank_def digit_def)

lemma at_position: "p < length h \<Longrightarrow> drop p h = h ! p # drop (Suc p) h"
  by (simp add: Cons_nth_drop_Suc)

lemma cl_value_eq:
  "cl_value h p =
    (if fields ''Content-Length:'' (drop (next_line h p) h) \<noteq> [] then PROXY_CL_INVALID
     else length_value (takeWhile (\<lambda>c. c \<noteq> LF) (drop p h)))"
proof -
  define q where "q = skip_while blank h p"
  define r where "r = skip_while blank h (skip_while digit h q)"
  define v where "v = takeWhile (\<lambda>c. c \<noteq> LF) (drop p h)"
  have "next_line h r = next_line h p"
    by (simp add: r_def q_def next_line_skip not_line_end)
  then have again: "cl_again h (next_line h r) \<longleftrightarrow> fields ''Content-Length:'' (drop (next_line h p) h) \<noteq> []"
    by (simp add: cl_again_fields next_line_start)
  have ds: "takeWhile digit (dropWhile blank v) = takeWhile digit (drop q h)"
    by (simp add: q_def v_def drop_skip_while takeWhile_dropWhile_LF(1) [symmetric] takeWhile_dropWhile_LF(3) not_line_end)
  have t: "dropWhile blank (dropWhile digit (dropWhile blank v)) = takeWhile (\<lambda>c. c \<noteq> LF) (drop r h)"
    by (simp add: r_def q_def v_def drop_skip_while takeWhile_dropWhile_LF(1) [symmetric] not_line_end)
  have empty: "q \<ge> length h \<or> \<not> digit (h ! q) \<longleftrightarrow> takeWhile digit (drop q h) = []"
    by (cases "q < length h") (auto simp: at_position)
  have tail: "r < length h \<and> h ! r \<noteq> CR \<and> h ! r \<noteq> LF \<longleftrightarrow>
      takeWhile (\<lambda>c. c \<noteq> LF) (drop r h) \<noteq> [] \<and> hd (takeWhile (\<lambda>c. c \<noteq> LF) (drop r h)) \<noteq> CR"
    by (cases "r < length h") (auto simp: at_position)
  have lv: "length_value v =
      (if q \<ge> length h \<or> \<not> digit (h ! q) \<or> decimal 0 (takeWhile digit (drop q h)) \<ge> 2 ^ 63 \<or>
         r < length h \<and> h ! r \<noteq> CR \<and> h ! r \<noteq> LF then PROXY_CL_INVALID
       else int (decimal 0 (takeWhile digit (drop q h))))"
    unfolding length_value_def Let_def ds t tail using empty by (simp cong: if_cong) blast
  show ?thesis
  proof (cases "cl_digits h q 0")
    case None
    then have "decimal 0 (takeWhile digit (drop q h)) \<ge> 2 ^ 63"
      using cl_digits_eq [where v = 0 and h = h and p = q] by simp
    with None lv show ?thesis
      by (simp add: cl_value_def q_def [symmetric] v_def [symmetric])
  next
    case (Some w)
    then have w: "unat (fst w) = decimal 0 (takeWhile digit (drop q h))" "unat (fst w) < 2 ^ 63" "snd w = skip_while digit h q"
      using cl_digits_eq [where v = 0 and h = h and p = q] by (auto split: prod.splits)
    then have "sint (fst w) = int (decimal 0 (takeWhile digit (drop q h)))"
      using sint_small [of "fst w"] by simp
    with Some w lv again show ?thesis
      by (auto simp: cl_value_def q_def [symmetric] v_def [symmetric] r_def [symmetric] Let_def split: prod.splits)
  qed
qed

lemma cl_loop_fields:
  "line_start h p \<Longrightarrow> cl_loop h p =
    (case fields ''Content-Length:'' (drop p h) of [] \<Rightarrow> PROXY_CL_MISSING | [v] \<Rightarrow> length_value v | _ \<Rightarrow> PROXY_CL_INVALID)"
proof (induction h p rule: cl_loop.induct)
  case (1 h p)
  note step = fields_step [OF content_length_name, of p h]
  show ?case
  proof (cases "length h - p \<ge> length ''Content-Length:''")
    case True
    show ?thesis
    proof (cases "named ''Content-Length:'' (drop p h)")
      case False
      then show ?thesis
        using True 1 next_line_start [of h p] step field_at_named [OF content_length_name, of h p]
        by (subst cl_loop.simps) simp
    next
      case named: True
      have "next_line h (p + length ''Content-Length:'') = next_line h p"
        using named_no_LF [OF named] named_length [OF named] by (intro next_line_within) auto
      then show ?thesis
        using True named 1(2) step field_at_named [OF content_length_name, of h p]
        by (subst cl_loop.simps) (simp add: cl_value_eq split: list.splits)
    qed
  next
    case False
    then show ?thesis
      using fields_short [OF _ content_length_name, of "drop p h"] by (subst cl_loop.simps) auto
  qed
qed

lemma content_length_fields: "proxy_parse_content_length h = the_content_length h"
  using cl_loop_fields [of h 0] by (simp add: proxy_parse_content_length_def the_content_length_def line_start_def)

subsection \<open>Tokens\<close>

definition trim :: "string \<Rightarrow> string" where
  "trim w = rev (dropWhile blank (rev (dropWhile blank w)))"

definition tokens :: "string \<Rightarrow> string list" where
  "tokens v = filter (\<lambda>t. t \<noteq> []) (map trim (split_on (CHR '','') v))"

definition in_value :: "char \<Rightarrow> bool" where
  "in_value c \<longleftrightarrow> c \<noteq> CR \<and> c \<noteq> LF"

text \<open>The tokens of all the fields of a name, in their order; a CR ends the value.\<close>

definition field_tokens :: "string \<Rightarrow> string \<Rightarrow> string list" where
  "field_tokens name h = concat (map (\<lambda>v. tokens (takeWhile (\<lambda>c. c \<noteq> CR) v)) (fields name h))"

lemma trim_blank: "blank c \<Longrightarrow> trim (c # w) = trim w"
  by (simp add: trim_def)

lemma trim_Nil [simp]: "trim [] = []"
  by (simp add: trim_def)

lemma tokens_sep: "blank c \<or> c = CHR '','' \<Longrightarrow> tokens (c # v) = tokens v"
proof -
  assume c: "blank c \<or> c = CHR '',''"
  obtain l ls where "split_on (CHR '','') v = l # ls"
    by (rule that [OF split_on_span])
  with c show ?thesis
    by (auto simp: tokens_def trim_blank)
qed

lemma tokens_skip: "tokens (dropWhile (\<lambda>c. blank c \<or> c = CHR '','') v) = tokens v"
proof (induction v)
  case (Cons c v)
  then show ?case
    using tokens_sep [of c v] by (cases "blank c \<or> c = CHR '',''") auto
qed simp

lemma tokens_first:
  assumes "v = [] \<or> \<not> blank (hd v)"
  shows "tokens v = (let w = takeWhile (\<lambda>c. c \<noteq> CHR '','') v; t = rev (dropWhile blank (rev w))
    in (if t \<noteq> [] then [t] else []) @ tokens (dropWhile (\<lambda>c. c \<noteq> CHR '','') v))"
proof -
  let ?w = "takeWhile (\<lambda>c. c \<noteq> CHR '','') v"
  have "dropWhile blank ?w = ?w"
    using assms by (cases v) auto
  then have t: "trim ?w = rev (dropWhile blank (rev ?w))"
    by (simp add: trim_def)
  show ?thesis
  proof (cases "CHR '','' \<in> set v")
    case True
    then obtain r where r: "dropWhile (\<lambda>c. c \<noteq> CHR '','') v = CHR '','' # r"
      using hd_dropWhile [of "\<lambda>c. c \<noteq> CHR '',''" v] by (cases "dropWhile (\<lambda>c. c \<noteq> CHR '','') v") auto
    have "tokens (CHR '','' # r) = tokens r"
      by (rule tokens_sep) simp
    with True t r show ?thesis
      by (subst tokens_def, subst split_on_span) (simp add: tokens_def Let_def)
  next
    case False
    then have "dropWhile (\<lambda>c. c \<noteq> CHR '','') v = []"
      by (auto simp: dropWhile_eq_Nil_conv)
    with False t show ?thesis
      by (subst tokens_def, subst split_on_span) (simp add: tokens_def Let_def del: dropWhile_eq_Nil_conv)
  qed
qed

lemma takeWhile_conj: "takeWhile (\<lambda>c. P c \<and> Q c) s = takeWhile P (takeWhile Q s)"
  by (induction s) auto

lemma takeWhile_dropWhile_conj: "takeWhile Q (dropWhile (\<lambda>c. P c \<and> Q c) s) = dropWhile P (takeWhile Q s)"
  by (induction s) auto

lemma in_value_split: "takeWhile in_value s = takeWhile (\<lambda>c. c \<noteq> CR) (takeWhile (\<lambda>c. c \<noteq> LF) s)"
  by (induction s) (auto simp: in_value_def)

text \<open>One round of the token loop takes one token off the value.\<close>

lemma next_token_value:
  assumes "next_token h p = (tok, q)"
  shows "tokens (takeWhile in_value (drop p h)) = (if tok \<noteq> [] then [tok] else []) @ tokens (takeWhile in_value (drop q h))"
    and "next_line h q = next_line h p"
proof -
  let ?sep = "\<lambda>c. blank c \<or> c = CHR '',''" and ?tok = "\<lambda>c. c \<noteq> CHR '','' \<and> c \<noteq> CR \<and> c \<noteq> LF"
  define r where "r = skip_while ?sep h p"
  have q: "q = skip_while ?tok h r" and tok: "tok = rev (dropWhile blank (rev (takeWhile ?tok (drop r h))))"
    using assms by (auto simp: next_token_def r_def Let_def skip_while_eq takeWhile_eq_take [symmetric])
  have "next_line h q = next_line h r"
    unfolding q by (rule next_line_skip) simp
  also have "\<dots> = next_line h p"
    unfolding r_def by (rule next_line_skip) (simp add: blank_def)
  finally show "next_line h q = next_line h p" .
  define v where "v = takeWhile in_value (drop r h)"
  have v: "v = dropWhile ?sep (takeWhile in_value (drop p h))"
  proof -
    have sep: "?sep = (\<lambda>c. ?sep c \<and> in_value c)"
      by (auto simp: in_value_def blank_def)
    show ?thesis
      unfolding v_def r_def drop_skip_while by (subst sep) (rule takeWhile_dropWhile_conj)
  qed
  have "v = [] \<or> \<not> blank (hd v)"
    using hd_dropWhile [of ?sep "takeWhile in_value (drop p h)"] v by auto
  note first = tokens_first [OF this]
  have t: "?tok = (\<lambda>c. c \<noteq> CHR '','' \<and> in_value c)"
    by (simp add: in_value_def)
  have "takeWhile ?tok (drop r h) = takeWhile (\<lambda>c. c \<noteq> CHR '','') v"
    unfolding v_def by (subst t) (rule takeWhile_conj)
  moreover have "takeWhile in_value (drop q h) = dropWhile (\<lambda>c. c \<noteq> CHR '','') v"
    unfolding v_def q drop_skip_while by (subst t) (rule takeWhile_dropWhile_conj)
  ultimately have "tokens v = (if tok \<noteq> [] then [tok] else []) @ tokens (takeWhile in_value (drop q h))"
    using first by (simp only: tok Let_def)
  then show "tokens (takeWhile in_value (drop p h)) = (if tok \<noteq> [] then [tok] else []) @ tokens (takeWhile in_value (drop q h))"
    by (simp only: v tokens_skip)
qed

subsection \<open>The transfer coding\<close>

definition the_transfer_coding :: "string \<Rightarrow> PROXY_TE_MODE" where
  "the_transfer_coding h =
     (let codings = field_tokens ''Transfer-Encoding:'' h in
      if fields ''Transfer-Encoding:'' h = [] then PROXY_TE_NONE
      else if codings \<noteq> [] \<and> map tolower (last codings) = ''chunked'' then PROXY_TE_CHUNKED
      else PROXY_TE_OTHER)"

lemma te_tokens_eq:
  "te_tokens h p l = (q, m) \<Longrightarrow>
    m = (let ts = tokens (takeWhile in_value (drop p h)) in if ts = [] then l else last ts) \<and>
    next_line h q = next_line h p \<and> (q < length h \<longrightarrow> \<not> in_value (h ! q))"
proof (induction h p l arbitrary: q m rule: te_tokens.induct)
  case (1 h p l)
  show ?case
  proof (cases "p < length h \<and> h ! p \<noteq> CR \<and> h ! p \<noteq> LF")
    case True
    obtain tok r where t: "next_token h p = (tok, r)" by fastforce
    with True 1(2) have "te_tokens h r (if tok \<noteq> [] then tok else l) = (q, m)"
      by (simp add: te_tokens.simps [of h p])
    from 1(1) [OF True t [symmetric] refl this] next_token_value [OF t] show ?thesis
      by (auto simp: Let_def)
  next
    case False
    then have "takeWhile in_value (drop p h) = []"
      by (cases "p < length h") (auto simp: at_position in_value_def)
    moreover have "q = p \<and> m = l"
      using False 1(2) by (subst (asm) te_tokens.simps) (auto split: if_splits)
    moreover have "p < length h \<longrightarrow> \<not> in_value (h ! p)"
      using False by (auto simp: in_value_def)
    ultimately show ?thesis
      by (simp add: tokens_def)
  qed
qed

definition fields_from :: "string \<Rightarrow> string \<Rightarrow> nat \<Rightarrow> string list" where
  "fields_from name h p = fields name (drop (if line_start h p then p else next_line h p) h)"

lemma fields_from_next: "fields_from name h (next_line h p) = fields name (drop (next_line h p) h)"
  by (simp add: fields_from_def next_line_start)

lemma fields_from_line:
  assumes "field_name name"
  shows "field_at h p name \<Longrightarrow> fields_from name h p =
      takeWhile (\<lambda>c. c \<noteq> LF) (drop (p + length name) h) # fields_from name h (next_line h (p + length name))"
    and "\<not> field_at h p name \<Longrightarrow> fields_from name h p = fields_from name h (next_line h p)"
    and "length h - p < length name \<Longrightarrow> fields_from name h p = []"
proof -
  assume f: "field_at h p name"
  then have "line_start h p" "named name (drop p h)"
    using assms field_at_named [of name h p] by (auto simp: field_at_def line_start_def)
  moreover from this have "next_line h (p + length name) = next_line h p"
    using assms named_no_LF [of name "drop p h"] named_length [of name "drop p h"] length_greater_0_conv [of name]
    by (intro next_line_within) (auto simp: field_name_def simp del: length_greater_0_conv)
  ultimately show "fields_from name h p =
      takeWhile (\<lambda>c. c \<noteq> LF) (drop (p + length name) h) # fields_from name h (next_line h (p + length name))"
    using fields_step [OF assms, of p h] by (simp only: fields_from_next) (simp add: fields_from_def)
next
  assume "\<not> field_at h p name"
  then show "fields_from name h p = fields_from name h (next_line h p)"
    using assms field_at_named [of name h p] fields_step [OF assms, of p h]
    by (simp only: fields_from_next) (simp add: fields_from_def)
next
  assume "length h - p < length name"
  moreover have "p \<le> next_line h p"
    using skip_while_ge [of p "\<lambda>c. c \<noteq> LF" h] by (simp add: next_line_def Let_def)
  ultimately show "fields_from name h p = []"
    unfolding fields_from_def by (intro fields_short [OF _ assms]) auto
qed

text \<open>A scan that stopped inside a line finds the same fields behind it.\<close>

lemma fields_from_inside:
  assumes "field_name name" "q < length h \<longrightarrow> \<not> in_value (h ! q)"
  shows "fields_from name h q = fields_from name h (next_line h q)"
proof (rule fields_from_line(2) [OF assms(1)])
  have "\<not> named name (drop q h)"
  proof (cases "q < length h")
    case True
    obtain c cs where name: "name = c # cs" "c \<noteq> CR" "c \<noteq> LF"
      using assms(1) by (cases name) (auto simp: field_name_def)
    from True assms(2) have "h ! q = CR \<or> h ! q = LF"
      by (auto simp: in_value_def)
    then have "code (h ! q) < 32" "c \<noteq> h ! q"
      using name by auto
    then have "tolower (h ! q) \<noteq> tolower c"
      using tolower_control [of "h ! q" c] tolower_control [of "h ! q" "h ! q"] by auto
    with True name(1) show ?thesis
      by (simp add: named_def at_position)
  qed (simp add: named_Nil assms)
  then show "\<not> field_at h q name"
    using assms(1) strncaseeq_named [of name "drop q h"] by (auto simp: field_at_def field_name_def)
qed

lemma te_loop_eq:
  "te_loop h p seen l =
    (let vs = fields_from ''Transfer-Encoding:'' h p;
         ts = concat (map (\<lambda>v. tokens (takeWhile (\<lambda>c. c \<noteq> CR) v)) vs)
     in (seen \<or> vs \<noteq> [], if ts = [] then l else last ts))"
proof (induction h p seen l rule: te_loop.induct)
  case (1 h p seen l)
  let ?n = "''Transfer-Encoding:''"
  have name: "field_name ?n"
    by (simp add: field_name_def)
  note line = fields_from_line [OF name, of h p]
  consider "length h - p < length ?n" | "length ?n \<le> length h - p" "\<not> field_at h p ?n"
    | "length ?n \<le> length h - p" "field_at h p ?n" by linarith
  then show ?case
  proof cases
    case 1
    with line(3) show ?thesis by (subst te_loop.simps) simp
  next
    case 2
    then show ?thesis
      using "1"(2) line(2) by (subst te_loop.simps) simp
  next
    case 3
    obtain q m where t: "te_tokens h (p + length ?n) l = (q, m)" by fastforce
    note e = te_tokens_eq [OF t]
    have "fields_from ?n h q = fields_from ?n h (next_line h (p + length ?n))"
      using fields_from_inside [OF name, of q h] e by simp
    with line(1) 3 have f: "fields_from ?n h p = takeWhile (\<lambda>c. c \<noteq> LF) (drop (p + length ?n) h) # fields_from ?n h q"
      by simp
    have "te_loop h p seen l = te_loop h q True m"
      using 3 t by (subst te_loop.simps) simp
    with "1"(1) [OF 3 t [symmetric] refl] e f show ?thesis
      by (simp add: Let_def in_value_split)
  qed
qed

lemma token_is:
  assumes "NUL \<notin> set name"
  shows "length t = length name \<and> strncaseeq t name (length name) \<longleftrightarrow> map tolower t = map tolower name"
  using strncaseeq_named [OF assms, of t] map_eq_imp_length_eq [of tolower t tolower name] by (auto simp: named_def)

lemma token_chunked: "length t = 7 \<and> strncaseeq t ''chunked'' 7 \<longleftrightarrow> map tolower t = ''chunked''"
  and token_upgrade: "length t = 7 \<and> strncaseeq t ''upgrade'' 7 \<longleftrightarrow> map tolower t = ''upgrade''"
proof -
  have l: "map tolower ''chunked'' = ''chunked''" "map tolower ''upgrade'' = ''upgrade''"
      "length ''chunked'' = 7" "length ''upgrade'' = 7"
    by code_simp+
  show "length t = 7 \<and> strncaseeq t ''chunked'' 7 \<longleftrightarrow> map tolower t = ''chunked''"
    using token_is [of "''chunked''" t] unfolding l by simp
  show "length t = 7 \<and> strncaseeq t ''upgrade'' 7 \<longleftrightarrow> map tolower t = ''upgrade''"
    using token_is [of "''upgrade''" t] unfolding l by simp
qed

lemma fields_from_start: "fields_from name h 0 = fields name h"
  by (simp add: fields_from_def line_start_def)

lemma transfer_coding_fields: "proxy_check_transfer_encoding h = the_transfer_coding h"
proof -
  define ts where "ts = field_tokens ''Transfer-Encoding:'' h"
  have "te_loop h 0 False [] = (fields ''Transfer-Encoding:'' h \<noteq> [], if ts = [] then [] else last ts)"
    by (simp only: te_loop_eq fields_from_start ts_def field_tokens_def Let_def simp_thms)
  then show ?thesis
    unfolding proxy_check_transfer_encoding_def the_transfer_coding_def ts_def [symmetric]
    by (simp only: prod.case Let_def token_chunked) (simp cong: if_cong)
qed

subsection \<open>The upgrade\<close>

text \<open>A request asks for an upgrade with both the token in Connection and a field of the protocol,
  below the request line.\<close>

definition asks_upgrade :: "string \<Rightarrow> bool" where
  "asks_upgrade h \<longleftrightarrow>
     ''upgrade'' \<in> set (map (map tolower) (field_tokens ''Connection:'' h)) \<and>
     fields ''Upgrade:'' (tl (dropWhile (\<lambda>c. c \<noteq> LF) h)) \<noteq> []"

definition the_upgrade :: "string \<Rightarrow> string" where
  "the_upgrade h =
     (case fields ''Upgrade:'' h of
        [] \<Rightarrow> []
      | v # _ \<Rightarrow> rev (dropWhile blank (rev (take 63 (takeWhile (\<lambda>c. c \<noteq> CR) (dropWhile blank v))))))"

lemma connection_tokens_eq:
  "case connection_tokens h p of
     None \<Rightarrow> ''upgrade'' \<in> set (map (map tolower) (tokens (takeWhile in_value (drop p h))))
   | Some q \<Rightarrow> ''upgrade'' \<notin> set (map (map tolower) (tokens (takeWhile in_value (drop p h)))) \<and>
       next_line h q = next_line h p \<and> (q < length h \<longrightarrow> \<not> in_value (h ! q))"
proof (induction h p rule: connection_tokens.induct)
  case (1 h p)
  show ?case
  proof (cases "p < length h \<and> h ! p \<noteq> CR \<and> h ! p \<noteq> LF")
    case True
    obtain tok r where t: "next_token h p = (tok, r)" by fastforce
    note n = next_token_value [OF t]
    show ?thesis
    proof (cases "length tok = 7 \<and> strncaseeq tok ''upgrade'' 7")
      case up: True
      then have "connection_tokens h p = None"
        using True t by (subst connection_tokens.simps) simp
      moreover have "map tolower tok = ''upgrade''" "tok \<noteq> []"
        using up token_upgrade [of tok] by auto
      ultimately show ?thesis
        using n(1) by (auto intro: image_eqI [of _ _ tok])
    next
      case False
      then have "connection_tokens h p = connection_tokens h r"
        using True t by (subst connection_tokens.simps) auto
      moreover have "map tolower tok \<noteq> ''upgrade''"
        using False unfolding token_upgrade .
      ultimately show ?thesis
        using 1 [OF True t [symmetric] refl False] n by (auto split: option.splits)
    qed
  next
    case False
    then have "takeWhile in_value (drop p h) = []"
      by (cases "p < length h") (auto simp: at_position in_value_def)
    moreover have "connection_tokens h p = Some p"
      using False by (subst connection_tokens.simps) auto
    moreover have "p < length h \<longrightarrow> \<not> in_value (h ! p)"
      using False by (auto simp: in_value_def)
    ultimately show ?thesis
      by (simp add: tokens_def)
  qed
qed

lemma connection_loop_eq:
  "connection_loop h p \<longleftrightarrow>
    ''upgrade'' \<in> set (map (map tolower)
      (concat (map (\<lambda>v. tokens (takeWhile (\<lambda>c. c \<noteq> CR) v)) (fields_from ''Connection:'' h p))))"
proof (induction h p rule: connection_loop.induct)
  case (1 h p)
  let ?n = "''Connection:''"
  have name: "field_name ?n" and n: "length ?n = 11"
    by (simp_all add: field_name_def)
  note line = fields_from_line [OF name, of h p, unfolded n]
  consider "length h - p < 11" | "11 \<le> length h - p" "\<not> field_at h p ?n" | "11 \<le> length h - p" "field_at h p ?n"
    by linarith
  then show ?case
  proof cases
    case 1
    with line(3) show ?thesis by (subst connection_loop.simps) simp
  next
    case 2
    then show ?thesis
      using "1"(2) line(2) by (subst connection_loop.simps) simp
  next
    case 3
    note t = connection_tokens_eq [where h = h and p = "p + 11"]
    show ?thesis
    proof (cases "connection_tokens h (p + 11)")
      case None
      then have "connection_loop h p"
        using 3 by (subst connection_loop.simps) simp
      with None t line(1) 3(2) show ?thesis
        by (simp add: in_value_split)
    next
      case (Some q)
      then have l: "connection_loop h p = connection_loop h q"
        using 3 by (subst connection_loop.simps) simp
      have "fields_from ?n h q = fields_from ?n h (next_line h (p + 11))"
        using fields_from_inside [OF name, of q h] Some t by simp
      with Some t line(1) 3 l "1"(1) [OF 3 Some] show ?thesis
        by (simp add: in_value_split)
    qed
  qed
qed

lemma upgrade_loop_eq: "line_start h p \<Longrightarrow> upgrade_loop h p \<longleftrightarrow> fields ''Upgrade:'' (drop p h) \<noteq> []"
proof (induction h p rule: upgrade_loop.induct)
  case (1 h p)
  let ?n = "''Upgrade:''"
  have name: "field_name ?n" and n: "length ?n = 8"
    by (simp_all add: field_name_def)
  note step = fields_step [OF name, of p h]
  have named: "strncaseeq (drop p h) ?n 8 \<longleftrightarrow> named ?n (drop p h)"
    using strncaseeq_named [of ?n "drop p h"] unfolding n by simp
  consider "length h - p < 8" | "8 \<le> length h - p" "named ?n (drop p h)"
    | "8 \<le> length h - p" "\<not> named ?n (drop p h)" by linarith
  then show ?case
  proof cases
    case 1
    then show ?thesis
      using fields_short [OF _ name, of "drop p h"] n by (subst upgrade_loop.simps) simp
  next
    case 2
    then show ?thesis
      using step named by (subst upgrade_loop.simps) simp
  next
    case 3
    let ?q = "skip_while (\<lambda>c. c \<noteq> LF) h p"
    show ?thesis
    proof (cases "length h \<le> ?q")
      case True
      then have "next_line h p = ?q"
        by (simp add: next_line_def)
      with True 3 step name named show ?thesis
        by (subst upgrade_loop.simps) simp
    next
      case False
      then have "next_line h p = ?q + 1"
        by (simp add: next_line_def)
      with False 3 step named next_line_start [of h p] "1"(1) [of ?q] show ?thesis
        by (subst upgrade_loop.simps) simp
    qed
  qed
qed

lemma request_is_upgrade_fields: "proxy_request_is_upgrade h \<longleftrightarrow> asks_upgrade h"
proof -
  have "upgrade_loop h (next_line h 0) \<longleftrightarrow> fields ''Upgrade:'' (tl (dropWhile (\<lambda>c. c \<noteq> LF) h)) \<noteq> []"
    using upgrade_loop_eq [OF next_line_start, of h 0] drop_next_line [of h 0] by simp
  moreover have "proxy_header_has_connection_upgrade h \<longleftrightarrow>
      ''upgrade'' \<in> set (map (map tolower) (field_tokens ''Connection:'' h))"
    by (simp only: proxy_header_has_connection_upgrade_def connection_loop_eq fields_from_start field_tokens_def)
  ultimately show ?thesis
    by (simp only: proxy_request_is_upgrade_def asks_upgrade_def if_distrib) simp
qed

lemma fields_from_next_char:
  assumes "field_name name" "\<not> field_at h p name"
  shows "fields_from name h p = fields_from name h (p + 1)"
proof (cases "p < length h \<and> h ! p = LF")
  case True
  then have "next_line h p = p + 1"
    by (simp add: next_line_def skip_while_eq at_position)
  then show ?thesis
    using fields_from_line(2) [OF assms] by simp
next
  case False
  show ?thesis
  proof (cases "p < length h")
    case True
    note line = fields_from_line(2) [OF assms]
    show ?thesis
    proof (cases "p + 1 < length h")
      case inside: True
      have "next_line h (p + 1) = next_line h p"
        using True False inside by (intro next_line_within) (auto simp: at_position)
      moreover have "\<not> line_start h (p + 1)"
        using True False inside by (simp add: line_start_def)
      ultimately show ?thesis
        using line by (simp add: fields_from_next) (simp add: fields_from_def)
    next
      case False
      then have "length h - next_line h p < length name" "length h - (p + 1) < length name"
        using next_line_gr [OF True] assms(1) by (auto simp: field_name_def)
      then show ?thesis
        using line fields_from_line(3) [OF assms(1)] by simp
    qed
  next
    case False
    then show ?thesis
      using assms(1) fields_from_line(3) [OF assms(1), of h p] fields_from_line(3) [OF assms(1), of h "p + 1"]
      by (auto simp: field_name_def)
  qed
qed

lemma upgrade_value_eq:
  "upgrade_value_loop h 64 p =
    (case fields_from ''Upgrade:'' h p of
       [] \<Rightarrow> []
     | v # _ \<Rightarrow> rev (dropWhile blank (rev (take 63 (takeWhile (\<lambda>c. c \<noteq> CR) (dropWhile blank v))))))"
proof (induction h "64 :: nat" p rule: upgrade_value_loop.induct)
  case (1 h p)
  let ?n = "''Upgrade:''"
  have name: "field_name ?n" and n: "length ?n = 8"
    by (simp_all add: field_name_def)
  note line = fields_from_line [OF name, of h p, unfolded n]
  consider "length h - p < 8" | "8 \<le> length h - p" "\<not> field_at h p ?n" | "8 \<le> length h - p" "field_at h p ?n"
    by linarith
  then show ?case
  proof cases
    case 1
    with line(3) show ?thesis by (subst upgrade_value_loop.simps) simp
  next
    case 2
    then show ?thesis
      using "1" fields_from_next_char [OF name, of h p] by (subst upgrade_value_loop.simps) simp
  next
    case 3
    have "(\<lambda>c. c \<noteq> CR \<and> c \<noteq> LF) = in_value"
      by (simp add: in_value_def fun_eq_iff)
    with 3 line(1) show ?thesis
      by (subst upgrade_value_loop.simps)
        (simp add: Let_def drop_skip_while in_value_split takeWhile_dropWhile_LF(1) not_line_end)
  qed
qed

lemma upgrade_value_fields: "proxy_get_upgrade_value h 64 = the_upgrade h"
  by (simp add: proxy_get_upgrade_value_def upgrade_value_eq fields_from_start the_upgrade_def)

subsection \<open>What the proxy relies on\<close>

text \<open>C33: how the proxy reads the framing of a message is what its header fields say: a length only
  where exactly one Content-Length field gives a number below 2^63 and nothing else, an error where
  the field is malformed or repeated; and of all the Transfer-Encoding fields together the last
  coding, compared as a whole token.\<close>

theorem proxy_framing_fields:
  "proxy_parse_content_length header = the_content_length header \<and>
   proxy_check_transfer_encoding header = the_transfer_coding header"
  by (simp only: content_length_fields transfer_coding_fields simp_thms)

text \<open>C34: a switch of protocols is let through only where the client asked for it: the backend's 101
  is accepted exactly when the request has the upgrade token and names a protocol below its
  request line, and the response names the same one, up to the case of letters.\<close>

theorem proxy_upgrade_agreed:
  "proxy_parse_response_header request response = Some (status, True) \<longleftrightarrow>
     status = 101 \<and> proxy_get_status_code response = 101 \<and> asks_upgrade request \<and> the_upgrade request \<noteq> [] \<and>
     the_upgrade response \<noteq> [] \<and>
     map tolower (cstr (the_upgrade request)) = map tolower (cstr (the_upgrade response))"
  by (auto simp: proxy_parse_response_header_def Let_def upgrade_value_fields request_is_upgrade_fields strcaseeq_def
    split: if_splits)

lemma proxy_field_examples:
  "proxy_parse_content_length (''POST / HTTP/1.1'' @ [CR, LF] @ ''content-length: 42'' @ [CR, LF, CR, LF]) = 42"
  "proxy_parse_content_length (''POST / HTTP/1.1'' @ [CR, LF] @ ''Content-Length: 5x'' @ [CR, LF, CR, LF]) = PROXY_CL_INVALID"
  "proxy_check_transfer_encoding (''POST / HTTP/1.1'' @ [CR, LF] @ ''Transfer-Encoding: gzip, Chunked '' @ [CR, LF, CR, LF]) = PROXY_TE_CHUNKED"
  "proxy_check_transfer_encoding (''POST / HTTP/1.1'' @ [CR, LF] @ ''Transfer-Encoding: xchunked'' @ [CR, LF, CR, LF]) = PROXY_TE_OTHER"
  by code_simp+

end
