(* ===== verification/ProxyRewriting.thy ===== *)
theory ProxyRewriting
  imports ProxyConnection ProxyFields
begin

text \<open>
  What the proxy changes in a header leaves its framing alone: the value of a Connection field is
  overwritten in place, and new lines are put in front of the empty line at the end. The fields
  that decide where the body ends stay what they were.
\<close>

subsection \<open>Fields of a text made of lines\<close>

lemma split_on_append: "split_on x (a @ x # b) = split_on x a @ split_on x b"
proof (induction a)
  case (Cons c a)
  then show ?case
    by (cases "split_on x a") (auto simp: split_on_span [of x a])
qed simp

lemma fields_append: "fields name (a @ LF # b) = fields name a @ fields name b"
  by (simp add: fields_def split_on_append)

definition lines_ended :: "string \<Rightarrow> bool" where
  "lines_ended a \<longleftrightarrow> a = [] \<or> last a = LF"

lemma fields_lines:
  assumes "lines_ended a" "field_name name"
  shows "fields name (a @ b) = fields name a @ fields name b"
proof (cases "a = []")
  case True
  with assms(2) show ?thesis by simp
next
  case False
  with assms(1) obtain a' where "a = a' @ [LF]"
    by (cases a rule: rev_cases) (auto simp: lines_ended_def)
  then show ?thesis
    using fields_append [of name a' b] fields_append [of name a' "[]"] assms(2) by simp
qed

lemma fields_one_line: "LF \<notin> set l \<Longrightarrow> \<not> named name l \<Longrightarrow> fields name l = []"
proof -
  assume "LF \<notin> set l" "\<not> named name l"
  moreover from this(1) have "split_on LF l = [l]"
    by (subst split_on_span) (auto simp: takeWhile_eq_all_conv)
  ultimately show ?thesis by (simp add: fields_def)
qed

lemma fields_skip_line: "LF \<notin> set l \<Longrightarrow> \<not> named name l \<Longrightarrow> fields name (l @ LF # b) = fields name b"
  by (simp add: fields_append fields_one_line)

text \<open>Two names that differ in the letters they start with cannot both fit a line.\<close>

definition clash :: "string \<Rightarrow> string \<Rightarrow> bool" where
  "clash a b \<longleftrightarrow> (\<exists>i < min (length a) (length b). tolower (a ! i) \<noteq> tolower (b ! i))"

lemma clash_append: "clash name l \<Longrightarrow> clash name (l @ s)"
proof -
  assume "clash name l"
  then obtain i where "i < length name" "i < length l" "tolower (name ! i) \<noteq> tolower (l ! i)"
    by (auto simp: clash_def)
  then show ?thesis
    unfolding clash_def by (intro exI [of _ i]) (simp add: nth_append)
qed

lemma clash_not_named:
  assumes "clash name l"
  shows "\<not> named name (l @ v)"
proof
  assume n: "named name (l @ v)"
  obtain i where i: "i < length name" "i < length l" "tolower (name ! i) \<noteq> tolower (l ! i)"
    using assms by (auto simp: clash_def)
  have "map tolower (take (length name) (l @ v)) ! i = map tolower name ! i"
    using n by (simp add: named_def)
  with i show False
    by (simp add: nth_append)
qed

lemma clash_named:
  assumes "named name l" "clash other name"
  shows "\<not> named other l"
proof -
  obtain i where i: "i < length other" "i < length name" "tolower (other ! i) \<noteq> tolower (name ! i)"
    using assms(2) by (auto simp: clash_def)
  have "map tolower (take (length name) l) ! i = map tolower name ! i"
    using assms(1) by (simp add: named_def)
  with i named_length [OF assms(1)] have "tolower (l ! i) = tolower (name ! i)"
    by simp
  moreover have "map tolower (take (length other) l) ! i = map tolower other ! i" if "named other l"
    using that by (simp add: named_def)
  ultimately show ?thesis
    using i named_length [OF assms(1)] by auto
qed

subsection \<open>The Connection field\<close>

lemma skip_within: "LF \<notin> set (take (skip_while (\<lambda>c. c \<noteq> CR \<and> c \<noteq> LF) h p - p) (drop p h))"
  and skip_within_CR: "CR \<notin> set (take (skip_while (\<lambda>c. c \<noteq> CR \<and> c \<noteq> LF) h p - p) (drop p h))"
  using set_takeWhileD [of LF "\<lambda>c. c \<noteq> CR \<and> c \<noteq> LF" "drop p h"] set_takeWhileD [of CR "\<lambda>c. c \<noteq> CR \<and> c \<noteq> LF" "drop p h"]
  by (auto simp: skip_while_eq takeWhile_eq_take [symmetric])

definition connection_rewritten :: "string \<Rightarrow> string \<Rightarrow> bool" where
  "connection_rewritten h h' \<longleftrightarrow>
     (\<exists>a c v v' b. h = a @ c @ v @ b \<and> h' = a @ c @ v' @ b \<and> lines_ended a \<and> named ''Connection:'' c \<and>
        length c = 11 \<and> LF \<notin> set v \<and> CR \<notin> set v \<and> LF \<notin> set v' \<and> length v = length v' \<and>
        (\<exists>k. v' = '' close'' @ replicate k (CHR '' '')) \<and> (b = [] \<or> hd b = CR \<or> hd b = LF))"

lemma force_close_here:
  assumes "line_start h p" "11 \<le> length h - p" "strncaseeq (drop p h) ''Connection:'' 11"
    and "line_end = skip_while (\<lambda>c. c \<noteq> CR \<and> c \<noteq> LF) h (p + 11)" "6 \<le> line_end - (p + 11)"
  shows "connection_rewritten h
    (take (p + 11) h @ '' close'' @ replicate (line_end - (p + 11) - 6) (CHR '' '') @ drop line_end h)"
proof -
  define c where "c = take 11 (drop p h)"
  define v where "v = take (line_end - (p + 11)) (drop (p + 11) h)"
  define v' where "v' = '' close'' @ replicate (line_end - (p + 11) - 6) (CHR '' '')"
  have le: "p + 11 \<le> line_end"
    using skip_while_ge assms(4) by simp
  have front: "take (p + 11) h = take p h @ c"
    by (simp add: c_def take_add)
  have "drop (p + 11) h = v @ drop line_end h"
    using le append_take_drop_id [of "line_end - (p + 11)" "drop (p + 11) h"] by (simp add: v_def)
  then have whole: "h = take p h @ c @ v @ drop line_end h"
    using append_take_drop_id [of "p + 11" h] by (simp only: front append_assoc)
  have ended: "lines_ended (take p h)"
  proof (cases "p = 0")
    case False
    have "p < length h" "h \<noteq> []" using assms(2) by auto
    with False have "last (take p h) = h ! (p - 1)"
      using last_conv_nth [of "take p h"] by (auto simp: min_def)
    with False \<open>p < length h\<close> assms(1) show ?thesis
      by (simp add: lines_ended_def line_start_def)
  qed (simp add: lines_ended_def)
  have named: "named ''Connection:'' c"
    using assms(3) strncaseeq_named [of "''Connection:''" "drop p h"] by (simp add: c_def named_def numeral_eq_Suc)
  have eleven: "length c = 11"
    using assms(2) by (simp add: c_def)
  have free: "LF \<notin> set v" "CR \<notin> set v" "LF \<notin> set v'"
    using skip_within [of h "p + 11"] skip_within_CR [of h "p + 11"] assms(4) by (simp_all add: v_def v'_def)
  have "line_end \<le> length h"
    using assms(2,4) length_takeWhile_le [of "\<lambda>c. c \<noteq> CR \<and> c \<noteq> LF" "drop (p + 11) h"] by (simp add: skip_while_eq)
  with assms(5) have "length v = length v'"
    by (simp add: v_def v'_def)
  moreover have "drop line_end h = [] \<or> hd (drop line_end h) = CR \<or> hd (drop line_end h) = LF"
    using hd_dropWhile [of "\<lambda>c. c \<noteq> CR \<and> c \<noteq> LF" "drop (p + 11) h"] assms(4) by (auto simp: drop_skip_while)
  moreover have "\<exists>k. v' = '' close'' @ replicate k (CHR '' '')"
    by (auto simp: v'_def)
  ultimately have "connection_rewritten h (take p h @ c @ v' @ drop line_end h)"
    unfolding connection_rewritten_def using whole ended named eleven free by blast
  then show ?thesis
    by (simp only: front v'_def append_assoc)
qed

lemma force_close_loop_shape:
  "line_start h p \<Longrightarrow> force_close_loop h p = (h', ok) \<Longrightarrow> if ok then connection_rewritten h h' else h' = h"
proof (induction h p rule: force_close_loop.induct)
  case (1 h p)
  let ?le = "skip_while (\<lambda>c. c \<noteq> CR \<and> c \<noteq> LF) h (p + 11)"
  let ?q = "skip_while (\<lambda>c. c \<noteq> LF) h p"
  consider "length h - p < 11" | "11 \<le> length h - p" "strncaseeq (drop p h) ''Connection:'' 11"
    | "11 \<le> length h - p" "\<not> strncaseeq (drop p h) ''Connection:'' 11" by linarith
  then show ?case
  proof cases
    case 1
    with "1.prems" show ?thesis by (subst (asm) force_close_loop.simps) simp
  next
    case 2
    with "1.prems"(2) have "(h', ok) = (if ?le - (p + 11) < 6 then (h, False)
        else (take (p + 11) h @ '' close'' @ replicate (?le - (p + 11) - 6) (CHR '' '') @ drop ?le h, True))"
      by (subst (asm) force_close_loop.simps) (simp add: Let_def)
    then show ?thesis
      using force_close_here [OF "1.prems"(1) 2 refl] by (auto split: if_splits)
  next
    case 3
    show ?thesis
    proof (cases "length h \<le> ?q")
      case True
      with 3 "1.prems"(2) show ?thesis
        by (subst (asm) force_close_loop.simps) (simp add: Let_def)
    next
      case False
      then have "next_line h p = ?q + 1"
        by (simp add: next_line_def)
      then have "line_start h (?q + 1)"
        using next_line_start [of h p] by simp
      moreover have "force_close_loop h (?q + 1) = (h', ok)"
        using 3 False "1.prems"(2) by (subst (asm) force_close_loop.simps) (simp add: Let_def)
      ultimately show ?thesis
        using "1.IH" [OF 3 refl] False by simp
    qed
  qed
qed

lemma force_close_shape:
  "proxy_force_connection_close h = (h', ok) \<Longrightarrow> if ok then connection_rewritten h h' else h' = h"
  unfolding proxy_force_connection_close_def by (rule force_close_loop_shape [OF next_line_start])

lemma connection_rewritten_fields:
  assumes "connection_rewritten h h'" "field_name name" "clash name ''Connection:''"
  shows "fields name h' = fields name h"
proof -
  obtain a c v v' b where r: "h = a @ c @ v @ b" "h' = a @ c @ v' @ b" "lines_ended a" "named ''Connection:'' c"
      "length c = 11" "LF \<notin> set v" "LF \<notin> set v'"
    using assms(1) unfolding connection_rewritten_def by blast
  have c: "LF \<notin> set c"
    using named_no_LF [OF r(4)] r(5) by simp
  have line: "fields name (c @ w @ b) = fields name (tl (dropWhile (\<lambda>c. c \<noteq> LF) b))" if "LF \<notin> set w" for w
  proof -
    have "named ''Connection:'' (c @ w @ b)"
      using r(4,5) by (simp add: named_def)
    then have "\<not> named name (c @ w @ b)"
      using assms(3) by (rule clash_named)
    moreover have "dropWhile (\<lambda>c. c \<noteq> LF) (c @ w @ b) = dropWhile (\<lambda>c. c \<noteq> LF) b"
    proof -
      have "\<forall>x \<in> set (c @ w). x \<noteq> LF"
        using c that by auto
      then show ?thesis
        using dropWhile_append2 [of "c @ w" "\<lambda>c. c \<noteq> LF" b] by simp
    qed
    ultimately show ?thesis
      using fields_step [OF assms(2), of 0 "c @ w @ b"] drop_next_line [of "c @ w @ b" 0] by simp
  qed
  show ?thesis
    using line [OF r(6)] line [OF r(7)] fields_lines [OF r(3) assms(2)] by (simp only: r)
qed

subsection \<open>New lines\<close>

text \<open>A header ends with an empty line; the new lines are put in front of it.\<close>

definition ends_header :: "string \<Rightarrow> bool" where
  "ends_header h \<longleftrightarrow> (\<exists>g. h = g @ [CR, LF, CR, LF])"

lemma insert_lines_header:
  assumes "ends_header h"
  shows "insert_lines (h @ b) (length h) new = insert_lines h (length h) new @ b"
    and "ends_header new \<or> (\<exists>g. new = g @ [CR, LF]) \<Longrightarrow> ends_header (insert_lines h (length h) new)"
  using assms by (auto simp: insert_lines_def ends_header_def)

lemma insert_lines_fields:
  assumes "ends_header h" "field_name name" "lines_ended new" "fields name new = []"
  shows "fields name (insert_lines h (length h) new) = fields name h"
proof -
  obtain g where h: "h = (g @ [CR, LF]) @ [CR, LF]"
    using assms(1) by (auto simp: ends_header_def)
  have g: "lines_ended (g @ [CR, LF])"
    by (simp add: lines_ended_def)
  have "insert_lines h (length h) new = (g @ [CR, LF]) @ new @ [CR, LF]"
    by (simp add: h insert_lines_def)
  then show ?thesis
    using fields_lines [OF g assms(2), of "new @ [CR, LF]"] fields_lines [OF g assms(2), of "[CR, LF]"]
      fields_lines [OF assms(3,2), of "[CR, LF]"] assms(4)
    by (simp only: h append_Nil)
qed

lemma connection_rewritten_ends:
  assumes "connection_rewritten h h'" "ends_header h"
  shows "ends_header h'"
proof -
  obtain a c v v' b where r: "h = a @ c @ v @ b" "h' = a @ c @ v' @ b" "LF \<notin> set v" "CR \<notin> set v" "length c = 11"
      "named ''Connection:'' c"
    using assms(1) unfolding connection_rewritten_def by blast
  have "CR \<notin> set c" "LF \<notin> set c"
    using named_no_control [OF r(6), of CR] named_no_control [OF r(6), of LF] r(5) by simp_all
  moreover obtain y d where d: "rev (c @ v) = y # d"
    using r(5) by (cases "rev (c @ v)") auto
  then have "y \<in> set (c @ v)"
    by (metis list.set_intros(1) set_rev)
  ultimately have y: "y \<noteq> CR" "y \<noteq> LF"
    using r(3,4) by auto
  obtain g where "h = g @ [CR, LF, CR, LF]"
    using assms(2) by (auto simp: ends_header_def)
  with r(1) have "rev (a @ c @ v @ b) = rev (g @ [CR, LF, CR, LF])"
    by simp
  then have "rev b @ rev (c @ v) @ rev a = rev (g @ [CR, LF, CR, LF])"
    by (simp only: rev_append append_assoc)
  then have "rev b @ y # d @ rev a = LF # CR # LF # CR # rev g"
    by (simp only: d) simp
  then obtain e where "rev b = LF # CR # LF # CR # e"
    using y by (auto simp: append_eq_Cons_conv)
  then have "b = rev e @ [CR, LF, CR, LF]"
    by (simp add: rev_swap)
  then show ?thesis
    by (auto simp: r(2) ends_header_def)
qed

subsection \<open>No new upgrade\<close>

definition below_first :: "string \<Rightarrow> string" where
  "below_first h = tl (dropWhile (\<lambda>c. c \<noteq> LF) h)"

lemma below_first_append:
  assumes "LF \<in> set a"
  shows "below_first (a @ b) = below_first a @ b"
  using assms by (induction a) (auto simp: below_first_def)

lemma below_first_skip: "LF \<notin> set a \<Longrightarrow> below_first (a @ b) = below_first b"
  by (induction a) (auto simp: below_first_def)

lemma below_first_ended:
  assumes "lines_ended a"
  shows "lines_ended (below_first a)"
  using assms by (induction a) (auto simp: below_first_def lines_ended_def split: if_splits)

definition upgrade_token :: "string \<Rightarrow> bool" where
  "upgrade_token v \<longleftrightarrow> ''upgrade'' \<in> set (map (map tolower) (tokens v))"

definition asks_token :: "string \<Rightarrow> bool" where
  "asks_token h \<longleftrightarrow> (\<exists>v \<in> set (fields ''Connection:'' h). upgrade_token (takeWhile (\<lambda>c. c \<noteq> CR) v))"

lemma in_concat_map: "x \<in> set (map f (concat (map g xs))) \<longleftrightarrow> (\<exists>v \<in> set xs. x \<in> set (map f (g v)))"
  by auto

lemma asks_upgrade_parts: "asks_upgrade h \<longleftrightarrow> asks_token h \<and> fields ''Upgrade:'' (below_first h) \<noteq> []"
  by (simp only: asks_upgrade_def asks_token_def upgrade_token_def field_tokens_def below_first_def in_concat_map)

lemma connection_names:
  "field_name ''Connection:''" "clash ''Connection:'' ''X-Forwarded-''"
  "field_name ''Upgrade:''" "clash ''Upgrade:'' ''Connection:''" "clash ''Upgrade:'' ''X-Forwarded-''"
proof -
  show "clash ''Connection:'' ''X-Forwarded-''" "clash ''Upgrade:'' ''Connection:''" "clash ''Upgrade:'' ''X-Forwarded-''"
    unfolding clash_def by (intro exI [of _ 0], code_simp)+
qed (simp_all add: field_name_def)

lemma close_tokens: "tokens ('' close'' @ replicate k (CHR '' '')) = [''close'']"
proof -
  have "CHR '','' \<notin> set ('' close'' @ replicate k (CHR '' ''))"
    by auto
  then have "split_on (CHR '','') ('' close'' @ replicate k (CHR '' '')) = ['' close'' @ replicate k (CHR '' '')]"
    by (subst split_on_span) (auto simp: takeWhile_eq_all_conv)
  moreover have "dropWhile blank (replicate k (CHR '' '') @ s) = dropWhile blank s" for s
    by (induction k) (simp_all add: blank_def)
  then have "trim ('' close'' @ replicate k (CHR '' '')) = ''close''"
    by (simp add: trim_def blank_def rev_replicate)
  ultimately show ?thesis
    by (simp add: tokens_def)
qed

lemma close_no_upgrade: "\<not> upgrade_token ('' close'' @ replicate k (CHR '' ''))"
  unfolding upgrade_token_def close_tokens by code_simp

lemma connection_field:
  assumes "named ''Connection:'' c" "length c = 11" "LF \<notin> set w" "CR \<notin> set w" "b = [] \<or> hd b = CR \<or> hd b = LF"
  shows "\<exists>v. fields ''Connection:'' (c @ w @ b) = v # fields ''Connection:'' (below_first b) \<and> takeWhile (\<lambda>c. c \<noteq> CR) v = w"
proof -
  have "named ''Connection:'' (c @ w @ b)"
    using assms(1,2) by (simp add: named_def)
  moreover have "drop (0 + length ''Connection:'') (c @ w @ b) = w @ b"
    using assms(2) by (simp add: numeral_eq_Suc)
  moreover have "LF \<notin> set (c @ w)"
    using named_no_LF [OF assms(1)] assms(2,3) by simp
  then have "below_first (c @ w @ b) = below_first b"
    using below_first_skip [of "c @ w" b] by simp
  moreover have "takeWhile (\<lambda>c. c \<noteq> CR) (takeWhile (\<lambda>c. c \<noteq> LF) (w @ b)) = w"
  proof (cases b)
    case Nil
    have "takeWhile (\<lambda>c. c \<noteq> LF) w = w" "takeWhile (\<lambda>c. c \<noteq> CR) w = w"
      using assms(3,4) by (auto simp: takeWhile_eq_all_conv)
    then show ?thesis
      by (simp only: Nil append_Nil2)
  next
    case (Cons x b')
    with assms(3,4,5) show ?thesis
      by (auto simp: takeWhile_append takeWhile_eq_all_conv)
  qed
  ultimately show ?thesis
    using fields_step [OF connection_names(1), of 0 "c @ w @ b"] drop_next_line [of "c @ w @ b" 0]
    unfolding drop_0 below_first_def by (simp only: if_True append_Cons append_Nil) blast
qed

lemma asks_token_lines: "lines_ended a \<Longrightarrow> asks_token (a @ b) \<longleftrightarrow> asks_token a \<or> asks_token b"
  by (auto simp: asks_token_def fields_lines connection_names)

lemma rewritten_asks_no_more:
  assumes "connection_rewritten h h'" "asks_upgrade h'"
  shows "asks_upgrade h"
proof -
  obtain a c v v' b k where r: "h = a @ c @ v @ b" "h' = a @ c @ v' @ b" "lines_ended a" "named ''Connection:'' c"
      "length c = 11" "LF \<notin> set v" "CR \<notin> set v" "v' = '' close'' @ replicate k (CHR '' '')" "b = [] \<or> hd b = CR \<or> hd b = LF"
      and same_length: "length v = length v'"
    using assms(1) unfolding connection_rewritten_def by blast
  have v': "LF \<notin> set v'" "CR \<notin> set v'"
    by (auto simp: r(8))
  have tok: "asks_token (c @ w @ b) \<longleftrightarrow> upgrade_token w \<or> asks_token (below_first b)"
    if "LF \<notin> set w" "CR \<notin> set w" for w
    using connection_field [OF r(4,5) that r(9)] by (auto simp: asks_token_def)
  have "asks_token h"
    using assms(2) r(3) tok [OF v'] tok [OF r(6,7)] by (auto simp: asks_upgrade_parts asks_token_lines r(1,2,8) close_no_upgrade simp del: append_Cons)
  moreover have "fields ''Upgrade:'' (below_first h) = fields ''Upgrade:'' (below_first h')"
  proof (cases "a = []")
    case True
    have "LF \<notin> set (c @ v)" "LF \<notin> set (c @ v')"
      using named_no_LF [OF r(4)] r(5,6) v' by simp_all
    then show ?thesis
      using below_first_skip [of "c @ v" b] below_first_skip [of "c @ v'" b] True by (simp add: r(1,2))
  next
    case False
    with r(3) have "LF \<in> set a"
      by (metis last_in_set lines_ended_def)
    then have "below_first h = below_first a @ c @ v @ b" "below_first h' = below_first a @ c @ v' @ b"
      by (simp_all add: r(1,2) below_first_append)
    moreover have "connection_rewritten (below_first a @ c @ v @ b) (below_first a @ c @ v' @ b)"
      unfolding connection_rewritten_def
      by (rule exI [of _ "below_first a"], rule exI [of _ c], rule exI [of _ v], rule exI [of _ v'], rule exI [of _ b])
        (intro conjI refl below_first_ended r v' same_length exI [of _ k])
    ultimately show ?thesis
      using connection_rewritten_fields connection_names by metis
  qed
  ultimately show ?thesis
    using assms(2) by (simp add: asks_upgrade_parts)
qed

text \<open>The lines the proxy adds.\<close>

lemma clash_skip_line:
  assumes "clash name l" "LF \<notin> set l" "LF \<notin> set v"
  shows "fields name (l @ v @ CR # LF # b) = fields name b"
  using fields_skip_line [of "l @ v @ [CR]" name b] clash_not_named [OF assms(1), of "v @ [CR]"] assms by simp

lemma forwarded_fields:
  assumes "LF \<notin> set (client_ip_str proxy)" "LF \<notin> set host" "clash name ''X-Forwarded-''"
  shows "fields name (forwarded_headers proxy host conn_close) = fields name conn_close"
proof -
  have x: "clash name (''X-Forwarded-'' @ s)" for s
    by (rule clash_append [OF assms(3)])
  show ?thesis
    using clash_skip_line [OF x [of "''For: ''"], of "client_ip_str proxy"]
      clash_skip_line [OF x [of "''Host: ''"], of "if host \<noteq> [] then host else ''unknown''"]
      clash_skip_line [OF x [of "''Proto: ''"], of "if use_ssl proxy then ''https'' else ''http''"] assms(1,2)
    by (simp add: forwarded_headers_def)
qed

lemma forwarded_lines:
  assumes "LF \<notin> set (client_ip_str proxy)" "LF \<notin> set host" "field_name name" "clash name ''X-Forwarded-''"
    and "conn_close = [] \<or> conn_close = ''Connection: close'' @ [CR, LF]" "clash name ''Connection:''"
  shows "lines_ended (forwarded_headers proxy host conn_close)" "fields name (forwarded_headers proxy host conn_close) = []"
proof -
  show "lines_ended (forwarded_headers proxy host conn_close)"
    using assms(5) by (auto simp: forwarded_headers_def lines_ended_def)
  have "fields name conn_close = []"
    using assms(3,5) clash_skip_line [OF assms(6), of "'' close''" "[]"] by auto
  then show "fields name (forwarded_headers proxy host conn_close) = []"
    by (simp only: forwarded_fields [OF assms(1,2,4)])
qed

lemma forwarded_no_token:
  assumes "LF \<notin> set (client_ip_str proxy)" "LF \<notin> set host"
    and "conn_close = [] \<or> conn_close = ''Connection: close'' @ [CR, LF]"
  shows "\<not> asks_token (forwarded_headers proxy host conn_close)"
proof -
  have "\<not> asks_token []" "\<not> asks_token (''Connection: close'' @ [CR, LF])"
    by code_simp+
  then have "\<not> asks_token conn_close"
    using assms(3) by blast
  then show ?thesis
    unfolding asks_token_def forwarded_fields [OF assms(1,2) connection_names(2)] .
qed

lemma inserted_asks_no_more:
  assumes "ends_header h" "lines_ended new" "\<not> asks_token new" "fields ''Upgrade:'' new = []"
    and "asks_upgrade (insert_lines h (length h) new)"
  shows "asks_upgrade h"
proof -
  obtain g where g: "h = (g @ [CR, LF]) @ [CR, LF]"
    using assms(1) by (auto simp: ends_header_def)
  let ?g = "g @ [CR, LF]"
  have l: "lines_ended ?g" "LF \<in> set ?g"
    by (simp_all add: lines_ended_def)
  have i: "insert_lines h (length h) new = ?g @ new @ [CR, LF]"
    by (simp add: g insert_lines_def)
  have a: "asks_upgrade (?g @ new @ [CR, LF])"
    using assms(5) by (simp only: i)
  have "asks_token h"
    using assms(3) a unfolding asks_upgrade_parts g asks_token_lines [OF l(1)] asks_token_lines [OF assms(2)] by blast
  moreover have "fields ''Upgrade:'' (below_first h) \<noteq> []"
    using assms(4) a unfolding asks_upgrade_parts g below_first_append [OF l(2)]
      fields_lines [OF below_first_ended [OF l(1)] connection_names(3)] fields_lines [OF assms(2) connection_names(3)] by simp
  ultimately show ?thesis
    by (simp add: asks_upgrade_parts)
qed

subsection \<open>The framing is kept\<close>

definition same_framing :: "string \<Rightarrow> string \<Rightarrow> bool" where
  "same_framing h h' \<longleftrightarrow> ends_header h' \<and>
     fields ''Content-Length:'' h' = fields ''Content-Length:'' h \<and>
     fields ''Transfer-Encoding:'' h' = fields ''Transfer-Encoding:'' h"

lemma framing_names:
  "field_name ''Content-Length:''" "clash ''Content-Length:'' ''Connection:''" "clash ''Content-Length:'' ''X-Forwarded-''"
  "field_name ''Transfer-Encoding:''" "clash ''Transfer-Encoding:'' ''Connection:''" "clash ''Transfer-Encoding:'' ''X-Forwarded-''"
proof -
  show "clash ''Content-Length:'' ''Connection:''"
    unfolding clash_def by (intro exI [of _ 3]) code_simp
  show "clash ''Content-Length:'' ''X-Forwarded-''" "clash ''Transfer-Encoding:'' ''Connection:''"
      "clash ''Transfer-Encoding:'' ''X-Forwarded-''"
    unfolding clash_def by (intro exI [of _ 0], code_simp)+
qed (simp_all add: field_name_def)

lemma same_framing_rewritten: "connection_rewritten h h' \<Longrightarrow> ends_header h \<Longrightarrow> same_framing h h'"
  by (simp add: same_framing_def connection_rewritten_ends connection_rewritten_fields framing_names)

lemma same_framing_trans: "same_framing a b \<Longrightarrow> same_framing b c \<Longrightarrow> same_framing a c"
  by (simp add: same_framing_def)

lemma same_framing_inserted:
  assumes "ends_header h" "\<exists>g. new = g @ [CR, LF]"
    "fields ''Content-Length:'' new = []" "fields ''Transfer-Encoding:'' new = []"
  shows "same_framing h (insert_lines h (length h) new)"
proof -
  have "lines_ended new"
    using assms(2) by (auto simp: lines_ended_def)
  then show ?thesis
    using assms insert_lines_fields [OF assms(1)] insert_lines_header(2) [OF assms(1)]
    by (simp add: same_framing_def framing_names)
qed

lemma same_framing_read:
  assumes "same_framing h h'"
  shows "proxy_parse_content_length h' = proxy_parse_content_length h"
    "proxy_check_transfer_encoding h' = proxy_check_transfer_encoding h"
proof -
  from assms show "proxy_parse_content_length h' = proxy_parse_content_length h"
    by (simp add: same_framing_def content_length_fields the_content_length_def)
  from assms have "the_transfer_coding h' = the_transfer_coding h"
    by (simp add: same_framing_def the_transfer_coding_def field_tokens_def)
  then show "proxy_check_transfer_encoding h' = proxy_check_transfer_encoding h"
    by (simp only: transfer_coding_fields)
qed

lemma same_framing_decisions:
  assumes "same_framing h h'"
  shows "request_framing h' = request_framing h" "response_framing h' status = response_framing h status"
  by (simp_all only: request_framing_def response_framing_def same_framing_read [OF assms])

lemma force_close_framing:
  assumes "proxy_force_connection_close h = (h', ok)" "ends_header h"
  shows "same_framing h h'" "length h' = length h"
  using force_close_shape [OF assms(1)] same_framing_rewritten [OF _ assms(2)] assms(2)
  by (auto simp: same_framing_def connection_rewritten_def split: if_splits)

lemma host_in_line: "LF \<notin> set (proxy_extract_host_header h n)"
proof -
  have "LF \<notin> set (host_loop h n p)" for p
  proof (induction h n p rule: host_loop.induct)
    case (1 h n p)
    have "LF \<notin> set (take (n - 1) (takeWhile (\<lambda>c. c \<noteq> CR \<and> c \<noteq> LF) s))" for s
      by (auto dest: in_set_takeD set_takeWhileD)
    with 1 show ?case
      by (subst host_loop.simps) (simp add: Let_def)
  qed
  then show ?thesis
    by (simp add: proxy_extract_host_header_def)
qed

lemma cstr_subset: "set (cstr s) \<subseteq> set s"
  by (auto simp: cstr_def dest: set_takeWhileD)

lemma inject_forwarded_request:
  assumes "proxy_inject_forwarded_headers sys proxy = (proxy', ok)"
    and "request_buffer proxy = h @ b" "request_header_end proxy = length h" "ends_header h"
    and "LF \<notin> set (client_ip_str proxy)"
  shows "\<exists>buf size n. proxy' = proxy\<lparr>request_buffer := buf, request_buffer_size := size, request_header_end := n\<rparr> \<and>
    (ok \<longrightarrow> (\<exists>h'. buf = h' @ b \<and> n = length h' \<and> same_framing h h' \<and>
       (proxy_request_is_upgrade h' \<longrightarrow> proxy_request_is_upgrade h)))"
proof -
  obtain forced closes where f:
      "(if \<not> proxy_request_is_upgrade h then proxy_force_connection_close h else (h, True)) = (forced, closes)"
    by fastforce
  have same: "same_framing h forced" "length forced = length h"
    using f force_close_framing [OF _ assms(4)] assms(4) by (auto simp: same_framing_def split: if_splits)
  define host where "host = cstr (proxy_extract_host_header forced 256)"
  define conn where "conn = (if closes then [] else ''Connection: close'' @ [CR, LF])"
  define fwd where "fwd = forwarded_headers proxy host conn"
  have fwd2: "forwarded_headers (proxy\<lparr>request_buffer := forced @ b\<rparr>) host conn = fwd"
    by (simp add: fwd_def forwarded_headers_def)
  have host: "LF \<notin> set host"
    using host_in_line cstr_subset host_def by blast
  have cc: "conn = [] \<or> conn = ''Connection: close'' @ [CR, LF]"
    by (simp add: conn_def)
  have "\<exists>g. fwd = g @ [CR, LF]"
    using cc by (auto simp: fwd_def forwarded_headers_def)
  moreover have "fields ''Content-Length:'' fwd = []" "fields ''Transfer-Encoding:'' fwd = []"
    unfolding fwd_def by (rule forwarded_lines(2) [OF assms(5) host _ _ cc]; rule framing_names)+
  moreover have "ends_header forced"
    using same(1) by (simp add: same_framing_def)
  ultimately have ins: "same_framing h (insert_lines forced (length h) fwd)"
    using same same_framing_inserted [of forced fwd] same_framing_trans by metis
  have up: "proxy_request_is_upgrade h" if "proxy_request_is_upgrade (insert_lines forced (length h) fwd)"
  proof (rule ccontr)
    assume no: "\<not> proxy_request_is_upgrade h"
    have "asks_upgrade forced"
    proof (rule inserted_asks_no_more)
      show "asks_upgrade (insert_lines forced (length forced) fwd)"
        using that same(2) by (simp add: request_is_upgrade_fields)
      show "lines_ended fwd" "fields ''Upgrade:'' fwd = []"
        unfolding fwd_def by (rule forwarded_lines [OF assms(5) host _ _ cc]; rule connection_names)+
      show "\<not> asks_token fwd"
        unfolding fwd_def by (rule forwarded_no_token [OF assms(5) host cc])
    qed fact
    moreover have "proxy_force_connection_close h = (forced, closes)"
      using f no by simp
    ultimately show False
      using force_close_shape rewritten_asks_no_more no by (metis request_is_upgrade_fields)
  qed
  define size where "size = (if length (forced @ b) + length fwd > request_buffer_size proxy
    then length (forced @ b) + length fwd + 1024 else request_buffer_size proxy)"
  have td: "take (length h) (h @ b) = h" "drop (length h) (h @ b) = b"
    by simp_all
  have shape: "proxy_inject_forwarded_headers sys proxy =
      (let p = proxy\<lparr>request_buffer := forced @ b\<rparr>; new_size = length (forced @ b) + length fwd
       in if length fwd \<ge> 512 then (p, False)
          else if new_size > request_buffer_size proxy \<and> \<not> allocates sys (new_size + 1024) then (p, False)
          else (p\<lparr>request_buffer := insert_lines (forced @ b) (length h) fwd,
                 request_buffer_size := size,
                 request_header_end := length h + length fwd\<rparr>, True))"
    unfolding proxy_inject_forwarded_headers_def Let_def assms(2,3) td f prod.case
      host_def [symmetric] conn_def [symmetric] fwd2 size_def
    by simp
  have "insert_lines (forced @ b) (length h) fwd = insert_lines forced (length h) fwd @ b"
    using insert_lines_header(1) [OF \<open>ends_header forced\<close>, of b fwd] same(2) by simp
  moreover have "length (insert_lines forced (length h) fwd) = length h + length fwd"
    using \<open>ends_header forced\<close> same(2) by (auto simp: insert_lines_def ends_header_def)
  ultimately have "proxy' = proxy\<lparr>request_buffer := forced @ b, request_buffer_size := request_buffer_size proxy,
        request_header_end := request_header_end proxy\<rparr> \<and> \<not> ok \<or>
      proxy' = proxy\<lparr>request_buffer := insert_lines forced (length h) fwd @ b, request_buffer_size := size,
        request_header_end := length (insert_lines forced (length h) fwd)\<rparr>"
    using assms(1) unfolding shape Let_def by (auto split: if_splits)
  then show ?thesis
    using ins up by blast
qed

lemma close_line_fields:
  "fields ''Content-Length:'' (''Connection: close'' @ [CR, LF]) = []"
  "fields ''Transfer-Encoding:'' (''Connection: close'' @ [CR, LF]) = []"
  by code_simp+

lemma inject_close_response:
  assumes "proxy_inject_connection_close sys proxy = (proxy', ok)"
    and "response_buffer proxy = h @ b" "response_header_end proxy = length h" "ends_header h"
  shows "\<exists>buf size n. proxy' = proxy\<lparr>response_buffer := buf, response_buffer_size := size, response_header_end := n\<rparr> \<and>
    (ok \<longrightarrow> (\<exists>h'. buf = h' @ b \<and> n = length h' \<and> same_framing h h'))"
proof -
  obtain forced closes where f: "proxy_force_connection_close h = (forced, closes)"
    by fastforce
  note same = force_close_framing [OF f assms(4)]
  define new where "new = ''Connection: close'' @ [CR, LF]"
  have e: "ends_header forced"
    using same(1) by (simp add: same_framing_def)
  have "\<exists>g. new = g @ [CR, LF]"
    unfolding new_def by blast
  then have ins: "same_framing h (insert_lines forced (length h) new)"
    using same same_framing_inserted [OF e, of new] same_framing_trans close_line_fields by (metis new_def)
  define size where "size = (if length (forced @ b) + length new > response_buffer_size proxy
    then length (forced @ b) + length new + 1024 else response_buffer_size proxy)"
  have td: "take (length h) (h @ b) = h" "drop (length h) (h @ b) = b"
    by simp_all
  have shape: "proxy_inject_connection_close sys proxy =
      (let p = proxy\<lparr>response_buffer := forced @ b\<rparr>; new_size = length (forced @ b) + length new
       in if closes then (p, True)
          else if new_size > response_buffer_size proxy \<and> \<not> allocates sys (new_size + 1024) then (p, False)
          else (p\<lparr>response_buffer := insert_lines (forced @ b) (length h) new,
                 response_buffer_size := size, response_header_end := length h + length new\<rparr>, True))"
    unfolding proxy_inject_connection_close_def Let_def assms(2,3) td f prod.case new_def [symmetric] size_def
    by simp
  have "insert_lines (forced @ b) (length h) new = insert_lines forced (length h) new @ b"
    using insert_lines_header(1) [OF e, of b new] same(2) by simp
  moreover have "length (insert_lines forced (length h) new) = length h + length new"
    using e same(2) by (auto simp: insert_lines_def ends_header_def)
  ultimately have "proxy' = proxy\<lparr>response_buffer := forced @ b, response_buffer_size := response_buffer_size proxy,
        response_header_end := length forced\<rparr> \<or>
      proxy' = proxy\<lparr>response_buffer := insert_lines forced (length h) new @ b, response_buffer_size := size,
        response_header_end := length (insert_lines forced (length h) new)\<rparr>"
    using assms(1,3) same(2) unfolding shape Let_def by (auto split: if_splits)
  then show ?thesis
    using ins same(1) by blast
qed

lemma header_end_loop_found:
  "header_end_loop buffer i = n \<Longrightarrow> 0 \<le> n \<Longrightarrow>
    int i + 4 \<le> n \<and> nat n \<le> length buffer \<and> take 4 (drop (nat n - 4) buffer) = [CR, LF, CR, LF]"
proof (induction buffer i rule: header_end_loop.induct)
  case (1 buffer i)
  show ?case
  proof (cases "i < length buffer - 3")
    case True
    show ?thesis
    proof (cases "buffer ! i = CR \<and> buffer ! (i + 1) = LF \<and> buffer ! (i + 2) = CR \<and> buffer ! (i + 3) = LF")
      case here: True
      then have n: "n = int i + 4"
        using True "1.prems" by (subst (asm) header_end_loop.simps) simp
      have "take 4 (drop i buffer) = [buffer ! i, buffer ! (i + 1), buffer ! (i + 2), buffer ! (i + 3)]"
        using True by (simp add: numeral_eq_Suc take_Suc_conv_app_nth Cons_nth_drop_Suc [symmetric])
      with True here n show ?thesis
        by (simp add: nat_add_distrib)
    next
      case False
      then have "header_end_loop buffer (i + 1) = n"
        using True "1.prems"(1) by (subst (asm) header_end_loop.simps) (simp split: if_splits)
      with "1.IH" [OF True False] "1.prems"(2) show ?thesis by auto
    qed
  next
    case False
    with "1.prems" show ?thesis by (subst (asm) header_end_loop.simps) simp
  qed
qed

lemma find_header_end_split:
  assumes "proxy_find_header_end buffer = n" "0 \<le> n"
  shows "ends_header (take (nat n) buffer)" "nat n \<le> length buffer"
proof -
  have f: "4 \<le> n" "nat n \<le> length buffer" "take 4 (drop (nat n - 4) buffer) = [CR, LF, CR, LF]"
    using header_end_loop_found [of buffer 0 n] assms by (auto simp: proxy_find_header_end_def split: if_splits)
  then show "nat n \<le> length buffer" by simp
  have "take (nat n) buffer = take (nat n - 4) buffer @ take 4 (drop (nat n - 4) buffer)"
    using f(1) take_add [of "nat n - 4" 4 buffer] by simp
  with f(3) show "ends_header (take (nat n) buffer)"
    by (auto simp: ends_header_def)
qed

end
