(* ===== verification/ProxyLoops.thy ===== *)
theory ProxyLoops
  imports ProxyRewriting
begin

text \<open>
  The loops of a proxied connection that send and receive: whatever the sockets take at a time, what
  a loop has written and what it has left make up what it was given, and it changes no other part of the
  connection.
\<close>

subsection \<open>What the loops do\<close>

lemma same_fields:
  "p\<lparr>client_sends := client_sends p\<rparr> = p" "p\<lparr>to_client := to_client p\<rparr> = p" "p\<lparr>send_pos := send_pos p\<rparr> = p"
  "p\<lparr>response_body_sent := response_body_sent p\<rparr> = p" "p\<lparr>backend_sends := backend_sends p\<rparr> = p"
  "p\<lparr>to_backend := to_backend p\<rparr> = p" "p\<lparr>tunnel_b2c_len := tunnel_b2c_len p\<rparr> = p" "p\<lparr>tunnel_c2b_len := tunnel_c2b_len p\<rparr> = p"
  "p\<lparr>tunnel_b2c_sent := tunnel_b2c_sent p\<rparr> = p" "p\<lparr>tunnel_c2b_sent := tunnel_c2b_sent p\<rparr> = p"
  "p\<lparr>client_reads := client_reads p\<rparr> = p" "p\<lparr>from_client := from_client p\<rparr> = p" "p\<lparr>request_buffer := request_buffer p\<rparr> = p"
  "p\<lparr>request_body_received := request_body_received p\<rparr> = p" "p\<lparr>request_buffer_size := request_buffer_size p\<rparr> = p"
  for p :: proxy_connection
  by (cases p, simp)+

lemma WebserverSend_shape:
  "WebserverSend p d = (p', st, n) \<Longrightarrow>
    \<exists>cs. p' = p\<lparr>client_sends := cs, to_client := to_client p @ take n d\<rparr> \<and> n \<le> length d"
proof -
  assume a: "WebserverSend p d = (p', st, n)"
  show ?thesis
  proof (cases "client_shut p \<or> client_sends p = []")
    case True
    with a have "p' = p\<lparr>client_sends := client_sends p, to_client := to_client p @ take n d\<rparr> \<and> n \<le> length d"
      by (cases "client_shut p") (auto simp: WebserverSend_def)
    then show ?thesis by blast
  next
    case False
    then obtain x cs where "client_sends p = x # cs" "\<not> client_shut p" by (cases "client_sends p") auto
    with a have "p' = p\<lparr>client_sends := cs, to_client := to_client p @ take n d\<rparr> \<and> n \<le> length d"
      by (cases x) (auto simp: WebserverSend_def min_def)
    then show ?thesis by blast
  qed
qed

lemma take_drop_split: "n \<le> length s - k \<Longrightarrow> take n (drop k s) @ drop (k + n) s = drop k s"
  by (metis add.commute append_take_drop_id drop_drop)

text \<open>A loop that sends: what it has written, and where it stopped.\<close>

lemma send_header_loop_shape:
  "send_header_loop p = (p', oc) \<Longrightarrow> send_pos p \<le> response_header_end p \<Longrightarrow>
    response_header_end p \<le> length (response_buffer p) \<Longrightarrow>
    \<exists>cs out k. p' = p\<lparr>client_sends := cs, to_client := to_client p @ out, send_pos := k\<rparr> \<and>
      (oc \<noteq> Send_error \<longrightarrow> k \<le> response_header_end p \<and> out @ drop k (response_buffer p) = drop (send_pos p) (response_buffer p)) \<and>
      (oc = All_sent \<longrightarrow> k = response_header_end p)"
proof (induction p rule: send_header_loop.induct)
  case (1 p)
  let ?d = "drop (send_pos p) (take (response_header_end p) (response_buffer p))"
  show ?case
  proof (cases "send_pos p < response_header_end p")
    case False
    then have "send_header_loop p = (p, All_sent)"
      by (simp add: send_header_loop.simps [of p])
    with 1(2) have "p' = p" "oc = All_sent" by simp_all
    then show ?thesis
      using False 1(3) by - (rule exI [of _ "client_sends p"], rule exI [of _ "[]"], rule exI [of _ "send_pos p"], simp)
  next
    case True
    obtain q st n where w: "WebserverSend p ?d = (q, st, n)"
      by (metis prod_cases3)
    from WebserverSend_shape [OF this] obtain cs where q: "q = p\<lparr>client_sends := cs, to_client := to_client p @ take n ?d\<rparr>"
        and n0: "n \<le> length ?d"
      by blast
    have n: "n \<le> response_header_end p - send_pos p"
      using n0 "1.prems" by simp
    have whole: "take n ?d @ drop (send_pos p + n) (response_buffer p) = drop (send_pos p) (response_buffer p)"
      using n 1(4) take_drop_split [of n "response_buffer p" "send_pos p"] by (simp add: drop_take)
    have unfold: "send_header_loop p =
        (if st = SOCKET_SEND_SEND_BUFFER_FULL then (q\<lparr>send_pos := send_pos q + n\<rparr>, Must_wait)
         else if st = SOCKET_SEND_FAILED then (q, Send_error)
         else if n = 0 then (q, Must_wait)
         else send_header_loop (q\<lparr>send_pos := send_pos q + n\<rparr>))"
      using True w by (simp add: send_header_loop.simps [of p])
    consider "st = SOCKET_SEND_SEND_BUFFER_FULL" | "st = SOCKET_SEND_FAILED" | "st = SOCKET_SEND_NO_MORE_DATA" "n = 0"
      | "st = SOCKET_SEND_NO_MORE_DATA" "n \<noteq> 0" by (cases st) auto
    then show ?thesis
    proof cases
      case 1
      with unfold "1.prems"(1) have "p' = q\<lparr>send_pos := send_pos q + n\<rparr>" "oc = Must_wait" by simp_all
      then show ?thesis
        using whole n True by - (rule exI [of _ cs], rule exI [of _ "take n ?d"], rule exI [of _ "send_pos p + n"], simp add: q)
    next
      case 2
      with unfold "1.prems"(1) have "p' = q" "oc = Send_error" by simp_all
      then show ?thesis
        by - (rule exI [of _ cs], rule exI [of _ "take n ?d"], rule exI [of _ "send_pos p"], simp add: q)
    next
      case 3
      with unfold "1.prems"(1) have "p' = q" "oc = Must_wait" by simp_all
      then show ?thesis
        using 3 True by - (rule exI [of _ cs], rule exI [of _ "[]"], rule exI [of _ "send_pos p"], simp add: q)
    next
      case 4
      let ?r = "q\<lparr>send_pos := send_pos q + n\<rparr>"
      have ne: "st \<noteq> SOCKET_SEND_SEND_BUFFER_FULL" "st \<noteq> SOCKET_SEND_FAILED"
        using 4 by simp_all
      have loop: "send_header_loop ?r = (p', oc)"
        using unfold "1.prems"(1) 4 by simp
      have b: "send_pos ?r \<le> response_header_end ?r" "response_header_end ?r \<le> length (response_buffer ?r)"
        using n True "1.prems" by (simp_all add: q)
      from "1.IH" [OF True w [symmetric] refl ne 4(2) loop b]
      obtain cs2 out2 k where r: "p' = ?r\<lparr>client_sends := cs2, to_client := to_client ?r @ out2, send_pos := k\<rparr>"
          "oc \<noteq> Send_error \<longrightarrow> k \<le> response_header_end ?r \<and> out2 @ drop k (response_buffer ?r) = drop (send_pos ?r) (response_buffer ?r)"
          "oc = All_sent \<longrightarrow> k = response_header_end ?r"
        by blast
      then show ?thesis
        using whole r(2,3) by - (rule exI [of _ cs2], rule exI [of _ "take n ?d @ out2"], rule exI [of _ k], simp add: r(1) q)
    qed
  qed
qed

lemma send_body_loop_shape:
  "send_body_loop p = (p', oc) \<Longrightarrow> send_pos p \<le> length (response_buffer p) \<Longrightarrow>
    \<exists>cs out k m. p' = p\<lparr>client_sends := cs, to_client := to_client p @ out, send_pos := k, response_body_sent := m\<rparr> \<and>
      (oc \<noteq> Send_error \<longrightarrow> k \<le> length (response_buffer p) \<and> out @ drop k (response_buffer p) = drop (send_pos p) (response_buffer p) \<and>
         m = response_body_sent p + length out) \<and>
      (oc = All_sent \<longrightarrow> k = length (response_buffer p))"
proof (induction p rule: send_body_loop.induct)
  case (1 p)
  let ?d = "drop (send_pos p) (response_buffer p)"
  show ?case
  proof (cases "send_pos p < length (response_buffer p)")
    case False
    then have "send_body_loop p = (p, All_sent)"
      by (simp add: send_body_loop.simps [of p])
    with 1(2) have "p' = p" "oc = All_sent" by simp_all
    then show ?thesis
      using False 1(3) by - (rule exI [of _ "client_sends p"], rule exI [of _ "[]"], rule exI [of _ "send_pos p"], rule exI [of _ "response_body_sent p"], simp only: append_Nil append_Nil2 same_fields, simp)
  next
    case True
    obtain q st n where w: "WebserverSend p ?d = (q, st, n)"
      by (metis prod_cases3)
    from WebserverSend_shape [OF this] obtain cs where q: "q = p\<lparr>client_sends := cs, to_client := to_client p @ take n ?d\<rparr>"
        and n0: "n \<le> length ?d"
      by blast
    have n: "n \<le> length (response_buffer p) - send_pos p"
      using n0 "1.prems" by simp
    have whole: "take n ?d @ drop (send_pos p + n) (response_buffer p) = drop (send_pos p) (response_buffer p)"
      using n by (rule take_drop_split)
    let ?r = "q\<lparr>send_pos := send_pos q + n, response_body_sent := response_body_sent q + n\<rparr>"
    have unfold: "send_body_loop p =
        (if st = SOCKET_SEND_SEND_BUFFER_FULL then (?r, Must_wait)
         else if st = SOCKET_SEND_FAILED then (q, Send_error)
         else if n = 0 then (q, Must_wait)
         else send_body_loop ?r)"
      using True w by (simp add: send_body_loop.simps [of p])
    consider "st = SOCKET_SEND_SEND_BUFFER_FULL" | "st = SOCKET_SEND_FAILED" | "st = SOCKET_SEND_NO_MORE_DATA" "n = 0"
      | "st = SOCKET_SEND_NO_MORE_DATA" "n \<noteq> 0" by (cases st) auto
    then show ?thesis
    proof cases
      case 1
      with unfold "1.prems"(1) have "p' = ?r" "oc = Must_wait" by simp_all
      then show ?thesis
        using whole n True by - (rule exI [of _ cs], rule exI [of _ "take n ?d"], rule exI [of _ "send_pos p + n"], rule exI [of _ "response_body_sent p + n"], simp add: q)
    next
      case 2
      with unfold "1.prems"(1) have "p' = q" "oc = Send_error" by simp_all
      then show ?thesis
        by - (rule exI [of _ cs], rule exI [of _ "take n ?d"], rule exI [of _ "send_pos q"], rule exI [of _ "response_body_sent q"], simp only: q [symmetric] same_fields, simp)
    next
      case 3
      with unfold "1.prems"(1) have "p' = q" "oc = Must_wait" by simp_all
      then show ?thesis
        using 3 True by - (rule exI [of _ cs], rule exI [of _ "take n ?d"], rule exI [of _ "send_pos q"], rule exI [of _ "response_body_sent q"], simp only: q [symmetric] same_fields, simp add: q)
    next
      case 4
      have ne: "st \<noteq> SOCKET_SEND_SEND_BUFFER_FULL" "st \<noteq> SOCKET_SEND_FAILED"
        using 4 by simp_all
      have loop: "send_body_loop ?r = (p', oc)"
        using unfold "1.prems"(1) 4 by simp
      have b: "send_pos ?r \<le> length (response_buffer ?r)"
        using n True by (simp add: q)
      from "1.IH" [OF True w [symmetric] refl ne 4(2) loop b]
      obtain cs2 out2 k m where r: "p' = ?r\<lparr>client_sends := cs2, to_client := to_client ?r @ out2, send_pos := k, response_body_sent := m\<rparr>"
          "oc \<noteq> Send_error \<longrightarrow> k \<le> length (response_buffer ?r) \<and> out2 @ drop k (response_buffer ?r) = drop (send_pos ?r) (response_buffer ?r) \<and>
             m = response_body_sent ?r + length out2"
          "oc = All_sent \<longrightarrow> k = length (response_buffer ?r)"
        by blast
      then show ?thesis
        using whole n r(2,3) by - (rule exI [of _ cs2], rule exI [of _ "take n ?d @ out2"], rule exI [of _ k], rule exI [of _ m], simp add: r(1) q)
    qed
  qed
qed

lemma flush_b2c_shape:
  "proxy_tunnel_flush_b2c p = (p', ok) \<Longrightarrow> tunnel_b2c_sent p \<le> tunnel_b2c_len p \<Longrightarrow> tunnel_b2c_len p \<le> length (response_buffer p) \<Longrightarrow>
    \<exists>cs out l k. p' = p\<lparr>client_sends := cs, to_client := to_client p @ out, tunnel_b2c_len := l, tunnel_b2c_sent := k\<rparr> \<and>
      k \<le> l \<and> l \<le> length (response_buffer p) \<and>
      out @ drop k (take l (response_buffer p)) = drop (tunnel_b2c_sent p) (take (tunnel_b2c_len p) (response_buffer p))"
proof (induction p rule: proxy_tunnel_flush_b2c.induct)
  case (1 p)
  let ?b = "take (tunnel_b2c_len p) (response_buffer p)"
  let ?d = "drop (tunnel_b2c_sent p) ?b"
  show ?case
  proof (cases "tunnel_b2c_sent p < tunnel_b2c_len p")
    case False
    then have "proxy_tunnel_flush_b2c p = (p\<lparr>tunnel_b2c_len := 0, tunnel_b2c_sent := 0\<rparr>, True)"
      by (simp add: proxy_tunnel_flush_b2c.simps [of p])
    with 1(2) have "p' = p\<lparr>tunnel_b2c_len := 0, tunnel_b2c_sent := 0\<rparr>" by simp
    then show ?thesis
      using False 1(3) by - (rule exI [of _ "client_sends p"], rule exI [of _ "[]"], rule exI [of _ 0], rule exI [of _ 0],
        simp only: append_Nil2 same_fields, simp)
  next
    case True
    obtain q st n where w: "WebserverSend p ?d = (q, st, n)"
      by (metis prod_cases3)
    from WebserverSend_shape [OF this] obtain cs where q: "q = p\<lparr>client_sends := cs, to_client := to_client p @ take n ?d\<rparr>"
        and n0: "n \<le> length ?d"
      by blast
    have n: "n \<le> tunnel_b2c_len p - tunnel_b2c_sent p"
      using n0 "1.prems" by simp
    have whole: "take n ?d @ drop (tunnel_b2c_sent p + n) ?b = ?d"
      using n 1(4) take_drop_split [of n ?b "tunnel_b2c_sent p"] by simp
    let ?r = "q\<lparr>tunnel_b2c_sent := tunnel_b2c_sent q + n\<rparr>"
    have unfold: "proxy_tunnel_flush_b2c p =
        (if st = SOCKET_SEND_FAILED then (?r, False)
         else if st = SOCKET_SEND_SEND_BUFFER_FULL \<or> n = 0 then (?r, True)
         else proxy_tunnel_flush_b2c ?r)"
      using True w by (simp add: proxy_tunnel_flush_b2c.simps [of p] Let_def)
    show ?thesis
    proof (cases "st = SOCKET_SEND_FAILED \<or> st = SOCKET_SEND_SEND_BUFFER_FULL \<or> n = 0")
      case stop: True
      then have "p' = ?r"
        using unfold "1.prems"(1) by (simp split: if_splits)
      then show ?thesis
        using whole n True "1.prems"(3) by - (rule exI [of _ cs], rule exI [of _ "take n ?d"], rule exI [of _ "tunnel_b2c_len p"], rule exI [of _ "tunnel_b2c_sent p + n"], simp add: q)
    next
      case False
      then have ne: "st \<noteq> SOCKET_SEND_FAILED" "\<not> (st = SOCKET_SEND_SEND_BUFFER_FULL \<or> n = 0)"
        by simp_all
      have loop: "proxy_tunnel_flush_b2c ?r = (p', ok)"
        using unfold "1.prems"(1) ne by simp
      have b: "tunnel_b2c_sent ?r \<le> tunnel_b2c_len ?r" "tunnel_b2c_len ?r \<le> length (response_buffer ?r)"
        using n True "1.prems" by (simp_all add: q)
      from "1.IH" [OF True w [symmetric] refl refl ne loop b]
      obtain cs2 out2 l k where r: "p' = ?r\<lparr>client_sends := cs2, to_client := to_client ?r @ out2, tunnel_b2c_len := l, tunnel_b2c_sent := k\<rparr>"
          "k \<le> l" "l \<le> length (response_buffer ?r)"
          "out2 @ drop k (take l (response_buffer ?r)) = drop (tunnel_b2c_sent ?r) (take (tunnel_b2c_len ?r) (response_buffer ?r))"
        by blast
      then show ?thesis
        using whole by - (rule exI [of _ cs2], rule exI [of _ "take n ?d @ out2"], rule exI [of _ l], rule exI [of _ k], simp add: q)
    qed
  qed
qed

lemma backend_send_shape:
  "backend_send p d = (p', a) \<Longrightarrow>
    \<exists>bs n. p' = p\<lparr>backend_sends := bs, to_backend := to_backend p @ take n d\<rparr> \<and> n \<le> length d \<and>
      (case a of Accepted k \<Rightarrow> k = n | _ \<Rightarrow> n = 0)"
proof -
  assume a: "backend_send p d = (p', a)"
  consider "backend_sends p = []" | bs where "backend_sends p = Send_blocked # bs" | bs where "backend_sends p = Send_broken # bs"
    | n bs where "backend_sends p = Accepted n # bs"
    by (cases "backend_sends p") (metis send_answer.exhaust)+
  then show ?thesis
  proof cases
    case 1
    with a have "p' = p" "a = Send_blocked" by (simp_all add: backend_send_def)
    then show ?thesis
      by - (rule exI [of _ "backend_sends p"], rule exI [of _ 0], simp only: take_0 append_Nil2 same_fields, simp)
  next
    case (2 bs)
    with a have "p' = p\<lparr>backend_sends := bs\<rparr>" "a = Send_blocked" by (simp_all add: backend_send_def)
    then show ?thesis
      by - (rule exI [of _ bs], rule exI [of _ 0], simp)
  next
    case (3 bs)
    with a have "p' = p\<lparr>backend_sends := bs\<rparr>" "a = Send_broken" by (simp_all add: backend_send_def)
    then show ?thesis
      by - (rule exI [of _ bs], rule exI [of _ 0], simp)
  next
    case (4 n bs)
    with a have "p' = p\<lparr>backend_sends := bs, to_backend := to_backend p @ take n d\<rparr>" "a = Accepted (min n (length d))"
      by (simp_all add: backend_send_def)
    then show ?thesis
      by - (rule exI [of _ bs], rule exI [of _ "min n (length d)"], simp add: min_def)
  qed
qed

lemma flush_c2b_shape:
  "proxy_tunnel_flush_c2b p = (p', ok) \<Longrightarrow> tunnel_c2b_sent p \<le> tunnel_c2b_len p \<Longrightarrow> tunnel_c2b_len p \<le> length (request_buffer p) \<Longrightarrow>
    \<exists>bs out l k. p' = p\<lparr>backend_sends := bs, to_backend := to_backend p @ out, tunnel_c2b_len := l, tunnel_c2b_sent := k\<rparr> \<and>
      k \<le> l \<and> l \<le> length (request_buffer p) \<and>
      out @ drop k (take l (request_buffer p)) = drop (tunnel_c2b_sent p) (take (tunnel_c2b_len p) (request_buffer p))"
proof (induction p rule: proxy_tunnel_flush_c2b.induct)
  case (1 p)
  let ?b = "take (tunnel_c2b_len p) (request_buffer p)"
  let ?d = "drop (tunnel_c2b_sent p) ?b"
  show ?case
  proof (cases "tunnel_c2b_sent p < tunnel_c2b_len p")
    case False
    then have "proxy_tunnel_flush_c2b p = (p\<lparr>tunnel_c2b_len := 0, tunnel_c2b_sent := 0\<rparr>, True)"
      by (simp add: proxy_tunnel_flush_c2b.simps [of p])
    with 1(2) have "p' = p\<lparr>tunnel_c2b_len := 0, tunnel_c2b_sent := 0\<rparr>" by simp
    then show ?thesis
      using False 1(3) by - (rule exI [of _ "backend_sends p"], rule exI [of _ "[]"], rule exI [of _ 0], rule exI [of _ 0],
        simp only: append_Nil2 same_fields, simp)
  next
    case True
    obtain q a where w: "backend_send p ?d = (q, a)"
      by fastforce
    from backend_send_shape [OF this] obtain bs n where q: "q = p\<lparr>backend_sends := bs, to_backend := to_backend p @ take n ?d\<rparr>"
        and n0: "n \<le> length ?d" and a: "case a of Accepted k \<Rightarrow> k = n | _ \<Rightarrow> n = 0"
      by blast
    have n: "n \<le> tunnel_c2b_len p - tunnel_c2b_sent p"
      using n0 "1.prems" by simp
    have whole: "take n ?d @ drop (tunnel_c2b_sent p + n) ?b = ?d"
      using n0 take_drop_split [of n ?b "tunnel_c2b_sent p"] by simp
    show ?thesis
    proof (cases "a = Accepted n \<and> n \<noteq> 0")
      case False
      have "n = 0" using False a by (cases a) auto
      have "p' = q"
        using True w False a "1.prems"(1) by (cases a) (auto simp: proxy_tunnel_flush_c2b.simps [of p])
      then show ?thesis
        using True "1.prems"(3) \<open>n = 0\<close> by - (rule exI [of _ bs], rule exI [of _ "[]"], rule exI [of _ "tunnel_c2b_len p"],
          rule exI [of _ "tunnel_c2b_sent p"], simp add: q)
    next
      case more: True
      let ?r = "q\<lparr>tunnel_c2b_sent := tunnel_c2b_sent q + n\<rparr>"
      have loop: "proxy_tunnel_flush_c2b ?r = (p', ok)"
        using True w more "1.prems"(1) by (simp add: proxy_tunnel_flush_c2b.simps [of p])
      have b: "tunnel_c2b_sent ?r \<le> tunnel_c2b_len ?r" "tunnel_c2b_len ?r \<le> length (request_buffer ?r)"
        using n True "1.prems" by (simp_all add: q)
      have w': "(q, Accepted n) = backend_send p ?d"
        using w more by simp
      from "1.IH" [OF True w' refl _ loop b] more
      obtain bs2 out2 l k where r: "p' = ?r\<lparr>backend_sends := bs2, to_backend := to_backend ?r @ out2, tunnel_c2b_len := l, tunnel_c2b_sent := k\<rparr>"
          "k \<le> l" "l \<le> length (request_buffer ?r)"
          "out2 @ drop k (take l (request_buffer ?r)) = drop (tunnel_c2b_sent ?r) (take (tunnel_c2b_len ?r) (request_buffer ?r))"
        by blast
      then show ?thesis
        using whole by - (rule exI [of _ bs2], rule exI [of _ "take n ?d @ out2"], rule exI [of _ l], rule exI [of _ k], simp add: q)
    qed
  qed
qed

lemma WebserverRecv_shape:
  "WebserverRecv p space = (p', a) \<Longrightarrow>
    \<exists>rs b d. p' = p\<lparr>client_reads := rs, ssl_pending := b, from_client := from_client p @ d\<rparr> \<and> length d \<le> space \<and>
      (case a of Received e \<Rightarrow> e = d \<and> d \<noteq> [] | _ \<Rightarrow> d = [])"
proof -
  assume a: "WebserverRecv p space = (p', a)"
  consider "client_reads p = []" | x b rs where "client_reads p = (x, b) # rs" "\<forall>d. x \<noteq> Received d"
    | d b rs where "client_reads p = (Received d, b) # rs"
    by (metis list.exhaust surj_pair)
  then show ?thesis
  proof cases
    case 1
    with a have "p' = p\<lparr>ssl_pending := False\<rparr>" "a = Read_blocked" by (simp_all add: WebserverRecv_def)
    then show ?thesis
      by - (rule exI [of _ "client_reads p"], rule exI [of _ False], rule exI [of _ "[]"],
        simp only: append_Nil2 same_fields, simp)
  next
    case (2 x b rs)
    with a have "p' = p\<lparr>client_reads := rs, ssl_pending := b\<rparr>" "a = x"
      by (cases x; simp add: WebserverRecv_def)+
    then show ?thesis
      using 2 by - (rule exI [of _ rs], rule exI [of _ b], rule exI [of _ "[]"], cases x, simp_all)
  next
    case (3 d b rs)
    with a have "p' = p\<lparr>client_reads := rs, ssl_pending := b, from_client := from_client p @ take space d\<rparr>"
        "a = (if take space d = [] then Read_blocked else Received (take space d))"
      by (simp_all add: WebserverRecv_def)
    then show ?thesis
      by - (rule exI [of _ rs], rule exI [of _ b], rule exI [of _ "take space d"], simp)
  qed
qed

lemma backend_recv_shape:
  "backend_recv p space = (p', a) \<Longrightarrow>
    \<exists>rs d. p' = p\<lparr>backend_reads := rs, from_backend := from_backend p @ d\<rparr> \<and> length d \<le> space \<and>
      (case a of Received e \<Rightarrow> e = d | _ \<Rightarrow> d = [])"
proof -
  assume a: "backend_recv p space = (p', a)"
  consider "backend_reads p = []" | x rs where "backend_reads p = x # rs" "\<forall>d. x \<noteq> Received d"
    | d rs where "backend_reads p = Received d # rs"
    by (metis list.exhaust)
  then show ?thesis
  proof cases
    case 1
    with a have "p' = p" "a = Read_blocked" by (simp_all add: backend_recv_def)
    moreover have "p\<lparr>backend_reads := backend_reads p, from_backend := from_backend p @ []\<rparr> = p"
      by (cases p) simp
    ultimately show ?thesis
      by - (rule exI [of _ "backend_reads p"], rule exI [of _ "[]"], simp)
  next
    case (2 x rs)
    with a have "p' = p\<lparr>backend_reads := rs\<rparr>" "a = x"
      by (cases x; simp add: backend_recv_def)+
    then show ?thesis
      using 2 by - (rule exI [of _ rs], rule exI [of _ "[]"], cases x, simp_all)
  next
    case (3 d rs)
    with a have "p' = p\<lparr>backend_reads := rs, from_backend := from_backend p @ take space d\<rparr>" "a = Received (take space d)"
      by (simp_all add: backend_recv_def)
    then show ?thesis
      by - (rule exI [of _ rs], rule exI [of _ "take space d"], simp)
  qed
qed

lemma client_read_loop_shape:
  "client_read_loop p = (p', ok) \<Longrightarrow>
    \<exists>rs b d. p' = p\<lparr>client_reads := rs, ssl_pending := b, from_client := from_client p @ d, request_buffer := request_buffer p @ d\<rparr>"
proof (induction p rule: client_read_loop.induct)
  case (1 p)
  show ?case
  proof (cases "length (request_buffer p) \<ge> request_buffer_size p")
    case True
    then have "p' = p"
      using 1(2) by (simp add: client_read_loop.simps [of p])
    moreover have "p\<lparr>client_reads := client_reads p, ssl_pending := ssl_pending p, from_client := from_client p @ [],
        request_buffer := request_buffer p @ []\<rparr> = p"
      by (cases p) simp
    ultimately show ?thesis
      by metis
  next
    case False
    let ?s = "request_buffer_size p - length (request_buffer p)"
    obtain q a where w: "WebserverRecv p ?s = (q, a)" by fastforce
    from WebserverRecv_shape [OF this] obtain rs b d where
        q: "q = p\<lparr>client_reads := rs, ssl_pending := b, from_client := from_client p @ d\<rparr>"
        and a: "case a of Received e \<Rightarrow> e = d \<and> d \<noteq> [] | _ \<Rightarrow> d = []"
      by blast
    let ?r = "q\<lparr>request_buffer := request_buffer q @ d\<rparr>"
    show ?thesis
    proof (cases a)
      case (Received e)
      then have e: "e = d" using a by simp
      show ?thesis
      proof (cases "ssl_pending ?r")
        case True
        then have "client_read_loop ?r = (p', ok)"
          using False w Received e 1(2) by (simp add: client_read_loop.simps [of p] Let_def)
        moreover have "(q, Received d) = WebserverRecv p ?s"
          using w Received e by simp
        ultimately obtain rs2 b2 d2 where "p' = ?r\<lparr>client_reads := rs2, ssl_pending := b2,
            from_client := from_client ?r @ d2, request_buffer := request_buffer ?r @ d2\<rparr>"
          using 1(1) [OF False _ refl refl True] by blast
        then show ?thesis
          by - (rule exI [of _ rs2], rule exI [of _ b2], rule exI [of _ "d @ d2"], simp add: q)
      next
        case no: False
        then have "p' = ?r"
          using False w Received e 1(2) by (simp add: client_read_loop.simps [of p] Let_def)
        then show ?thesis
          by - (rule exI [of _ rs], rule exI [of _ b], rule exI [of _ d], simp add: q)
      qed
    next
      case Read_blocked
      then have "p' = q"
        using False w 1(2) by (simp add: client_read_loop.simps [of p])
      then show ?thesis
        using a Read_blocked by - (rule exI [of _ rs], rule exI [of _ b], rule exI [of _ d], simp add: q)
    next
      case Read_broken
      then have "p' = q"
        using False w 1(2) by (simp add: client_read_loop.simps [of p])
      then show ?thesis
        using a Read_broken by - (rule exI [of _ rs], rule exI [of _ b], rule exI [of _ d], simp add: q)
    qed
  qed
qed

lemma error_send_frame: "\<exists>cs out. error_send_loop p r t = p\<lparr>client_sends := cs, to_client := out\<rparr>"
proof (induction p r t rule: error_send_loop.induct)
  case (1 p r t)
  obtain q st n where w: "WebserverSend p (drop t r) = (q, st, n)"
    by (metis prod_cases3)
  from WebserverSend_shape [OF this] obtain cs where q: "q = p\<lparr>client_sends := cs, to_client := to_client p @ take n (drop t r)\<rparr>"
    by blast
  have stop: "\<exists>cs out. p = p\<lparr>client_sends := cs, to_client := out\<rparr>"
    by (rule exI [of _ "client_sends p"], rule exI [of _ "to_client p"], simp only: same_fields)
  show ?case
  proof (cases "t < length r")
    case True
    show ?thesis
    proof (cases "st = SOCKET_SEND_FAILED \<or> st = SOCKET_SEND_SEND_BUFFER_FULL \<or> n = 0")
      case stop: True
      then have "error_send_loop p r t = q"
        using w True by (auto simp: error_send_loop.simps [of p])
      then show ?thesis
        using q by blast
    next
      case False
      then have ne: "st \<noteq> SOCKET_SEND_FAILED" "\<not> (st = SOCKET_SEND_SEND_BUFFER_FULL \<or> n = 0)"
        by simp_all
      then have "error_send_loop p r t = error_send_loop q r (t + n)"
        using w True by (simp add: error_send_loop.simps [of p])
      moreover from "1.IH" [OF True w [symmetric] refl ne]
      obtain cs2 out where "error_send_loop q r (t + n) = q\<lparr>client_sends := cs2, to_client := out\<rparr>"
        by blast
      ultimately have "error_send_loop p r t = p\<lparr>client_sends := cs2, to_client := out\<rparr>"
        by (simp add: q)
      then show ?thesis by blast
    qed
  qed (use stop in \<open>simp add: error_send_loop.simps [of p]\<close>)
qed

lemma error_response_frame:
  "\<exists>cs out st n. proxy_send_error_response p status reason detail =
    p\<lparr>client_sends := cs, to_client := out, error_response_status := st, error_response_bytes := n\<rparr>"
proof -
  let ?q = "p\<lparr>error_response_status := status, error_response_bytes := length (error_response status reason detail)\<rparr>"
  from error_send_frame [of ?q "take 767 (error_response status reason detail)" 0]
  obtain cs out where "proxy_send_error_response p status reason detail = ?q\<lparr>client_sends := cs, to_client := out\<rparr>"
    unfolding proxy_send_error_response_def Let_def by blast
  then show ?thesis
    by - (rule exI [of _ cs], rule exI [of _ out], rule exI [of _ status],
      rule exI [of _ "length (error_response status reason detail)"], simp)
qed

end
