(* ===== verification/ProxyRelay.thy ===== *)
theory ProxyRelay
  imports ProxyLoops "HOL-Library.Sublist" "HOL-Library.Code_Target_Nat"
begin

text \<open>
  What the backend of a proxied connection receives. The functions that send a response leave the
  request's part of the connection alone (\<open>answered\<close>); \<open>request_inv\<close> says, for each state, how the bytes the backend has
  got relate to those the client has sent, and is kept by every function of the state machine and by both
  handlers. The connections are those that \<open>checkReverseProxy\<close> and the handlers produce, in any order of
  events (\<open>proxied\<close>).
\<close>

subsection \<open>What the answer leaves alone\<close>

text \<open>The part of the connection that belongs to the request, with and without the stage it is in.\<close>

definition request_side ::
    "proxy_connection \<Rightarrow> string \<times> string \<times> string \<times> nat \<times> bool \<times> string" where
  "request_side p = (from_client p, to_backend p, request_buffer p, request_header_end p, response_is_upgrade p, client_ip_str p)"

definition request_stage ::
    "proxy_connection \<Rightarrow> (string \<times> string \<times> string \<times> nat \<times> bool \<times> string) \<times> proxy_state \<times> nat \<times> nat" where
  "request_stage p = (request_side p, state p, tunnel_c2b_len p, tunnel_c2b_sent p)"

lemma request_side_updates [simp]:
  "request_side (p\<lparr>state := s\<rparr>) = request_side p"
  "request_side (p\<lparr>tunnel_c2b_len := n\<rparr>) = request_side p"
  "request_side (p\<lparr>tunnel_c2b_sent := n\<rparr>) = request_side p"
  "request_side (p\<lparr>tunnel_b2c_len := n\<rparr>) = request_side p"
  "request_side (p\<lparr>tunnel_b2c_sent := n\<rparr>) = request_side p"
  "request_side (p\<lparr>client_sends := cs\<rparr>) = request_side p"
  "request_side (p\<lparr>to_client := d\<rparr>) = request_side p"
  "request_side (p\<lparr>send_pos := n\<rparr>) = request_side p"
  "request_side (p\<lparr>response_body_sent := n\<rparr>) = request_side p"
  "request_side (p\<lparr>response_buffer := d\<rparr>) = request_side p"
  "request_side (p\<lparr>response_buffer_size := n\<rparr>) = request_side p"
  "request_side (p\<lparr>response_header_end := n\<rparr>) = request_side p"
  "request_side (p\<lparr>response_header_sent := b\<rparr>) = request_side p"
  "request_side (p\<lparr>response_status_code := i\<rparr>) = request_side p"
  "request_side (p\<lparr>response_body_mode := m\<rparr>) = request_side p"
  "request_side (p\<lparr>response_content_length := n\<rparr>) = request_side p"
  "request_side (p\<lparr>response_body_received := n\<rparr>) = request_side p"
  "request_side (p\<lparr>chunks := c\<rparr>) = request_side p"
  "request_side (p\<lparr>error_response_status := n\<rparr>) = request_side p"
  "request_side (p\<lparr>error_response_bytes := n\<rparr>) = request_side p"
  "request_side (p\<lparr>closeSocket := b\<rparr>) = request_side p"
  "request_side (p\<lparr>reverse_proxy_error := b\<rparr>) = request_side p"
  "request_side (p\<lparr>extern_handle := b\<rparr>) = request_side p"
  "request_side (p\<lparr>client_shut := b\<rparr>) = request_side p"
  "request_side (p\<lparr>client_events := e\<rparr>) = request_side p"
  "request_side (p\<lparr>backend_events := e\<rparr>) = request_side p"
  "request_side (p\<lparr>backend_reads := rs\<rparr>) = request_side p"
  "request_side (p\<lparr>from_backend := d\<rparr>) = request_side p"
  by (simp_all add: request_side_def)

lemma WebserverSend_stage: "WebserverSend p d = (q, st, n) \<Longrightarrow> request_stage q = request_stage p"
  by (auto simp: WebserverSend_def request_stage_def split: list.splits if_splits)

lemma backend_recv_stage: "backend_recv p n = (q, a) \<Longrightarrow> request_stage q = request_stage p"
  by (auto simp: backend_recv_def request_stage_def split: list.splits read_answer.splits)

lemma request_stage_updates [simp]:
  "request_stage (p\<lparr>send_pos := n\<rparr>) = request_stage p"
  "request_stage (p\<lparr>response_body_sent := n\<rparr>) = request_stage p"
  "request_stage (p\<lparr>response_buffer := d\<rparr>) = request_stage p"
  "request_stage (p\<lparr>response_header_sent := b\<rparr>) = request_stage p"
  "request_stage (p\<lparr>tunnel_b2c_len := n\<rparr>) = request_stage p"
  "request_stage (p\<lparr>tunnel_b2c_sent := n\<rparr>) = request_stage p"
  "request_stage (p\<lparr>client_events := e\<rparr>) = request_stage p"
  "request_stage (p\<lparr>backend_events := e\<rparr>) = request_stage p"
  "request_stage (p\<lparr>chunks := c\<rparr>) = request_stage p"
  by (simp_all add: request_stage_def)

lemma send_header_loop_stage: "request_stage (fst (send_header_loop p)) = request_stage p"
proof (induction p rule: send_header_loop.induct)
  case (1 p)
  show ?case
    by (subst send_header_loop.simps) (auto split: prod.splits simp: 1 WebserverSend_stage)
qed

lemma send_body_loop_stage: "request_stage (fst (send_body_loop p)) = request_stage p"
proof (induction p rule: send_body_loop.induct)
  case (1 p)
  show ?case
    by (subst send_body_loop.simps) (auto split: prod.splits simp: 1 WebserverSend_stage)
qed

lemma flush_b2c_stage: "request_stage (fst (proxy_tunnel_flush_b2c p)) = request_stage p"
proof (induction p rule: proxy_tunnel_flush_b2c.induct)
  case (1 p)
  show ?case
    by (subst proxy_tunnel_flush_b2c.simps) (auto split: prod.splits simp: 1 WebserverSend_stage Let_def)
qed

lemma update_events_stage [simp]: "request_stage (proxy_tunnel_update_events p) = request_stage p"
  by (simp add: proxy_tunnel_update_events_def Let_def)

lemma to_error_side: "request_side (fst (to_error p)) = request_side p" "state (fst (to_error p)) = PROXY_STATE_ERROR"
proof -
  obtain cs out st n where e: "proxy_send_error_response (p\<lparr>state := PROXY_STATE_ERROR\<rparr>) 502 ''Bad Gateway'' (backend_path p) =
      p\<lparr>state := PROXY_STATE_ERROR, client_sends := cs, to_client := out, error_response_status := st, error_response_bytes := n\<rparr>"
    using error_response_frame by blast
  show "request_side (fst (to_error p)) = request_side p" "state (fst (to_error p)) = PROXY_STATE_ERROR"
    by (simp_all add: to_error_def process_error_def proxy_shutdown_client_def Let_def e)
qed

lemma to_done_side: "request_side (fst (to_done p)) = request_side p" "state (fst (to_done p)) = PROXY_STATE_DONE"
  by (simp_all add: to_done_def process_done_def proxy_shutdown_client_def Let_def)

lemma reject_side: "request_side (fst (reject p status reason)) = request_side p" "state (fst (reject p status reason)) = PROXY_STATE_ERROR"
proof -
  obtain cs out st n where "proxy_send_error_response p status reason [] =
      p\<lparr>client_sends := cs, to_client := out, error_response_status := st, error_response_bytes := n\<rparr>"
    using error_response_frame by blast
  then show "request_side (fst (reject p status reason)) = request_side p" "state (fst (reject p status reason)) = PROXY_STATE_ERROR"
    by (simp_all add: reject_def to_error_side)
qed

text \<open>Where sending a response can lead.\<close>

definition answered :: "proxy_connection \<Rightarrow> proxy_connection \<Rightarrow> bool" where
  "answered p p' \<longleftrightarrow> request_side p' = request_side p \<and>
     (state p' = state p \<or> state p' \<in> {PROXY_STATE_STREAMING_WAIT_WRITE, PROXY_STATE_ERROR, PROXY_STATE_DONE} \<or>
      state p' = PROXY_STATE_WEBSOCKET_TUNNEL \<and> response_is_upgrade p \<and> tunnel_c2b_len p' = 0 \<and> tunnel_c2b_sent p' = 0)"

lemma answered_ends: "request_side q = request_side p \<Longrightarrow> answered p (fst (to_error q))"
  "request_side q = request_side p \<Longrightarrow> answered p (fst (to_done q))"
  "request_side q = request_side p \<Longrightarrow> answered p (fst (wait_write q))"
  by (simp_all add: answered_def to_error_side to_done_side wait_write_def)

lemma answered_same: "request_stage q = request_stage p \<Longrightarrow> answered p q"
  by (simp add: answered_def request_stage_def)

lemma answered_tunnel:
  assumes "state q = PROXY_STATE_WEBSOCKET_TUNNEL" "tunnel_c2b_len q = 0" "tunnel_c2b_sent q = 0"
    and "request_side q = request_side p" "response_is_upgrade p"
  shows "answered p (proxy_tunnel_update_events q)"
  using assms update_events_stage [of q] unfolding request_stage_def answered_def by simp

lemma stage_side: "request_stage q = request_stage p \<Longrightarrow> request_side q = request_side p"
  by (simp add: request_stage_def)

lemma stream_body_answered: "answered p (fst (stream_body p))"
proof -
  obtain q oc where q: "send_body_loop p = (q, oc)" by fastforce
  with send_body_loop_stage [of p] have s: "request_stage q = request_stage p" by simp
  have side: "request_side q = request_side p" "response_is_upgrade q = response_is_upgrade p" "state q = state p"
    using s by (auto simp: request_stage_def request_side_def)
  let ?r = "q\<lparr>response_buffer := [], send_pos := 0\<rparr>"
  have tunnel: "response_is_upgrade q \<Longrightarrow> answered p (proxy_tunnel_update_events (?r\<lparr>state := PROXY_STATE_WEBSOCKET_TUNNEL,
      tunnel_c2b_len := 0, tunnel_c2b_sent := 0, tunnel_b2c_len := 0, tunnel_b2c_sent := 0\<rparr>))"
    using side by (intro answered_tunnel) simp_all
  have fin: "answered p (fst (to_done ?r))"
    using side by (intro answered_ends) simp
  have same: "answered p ?r"
    using s by (intro answered_same) simp
  show ?thesis
    using side s tunnel fin same
    by (cases oc) (auto simp: stream_body_def q Let_def intro: answered_ends)
qed

lemma enter_tunnel_answered: "response_is_upgrade p \<Longrightarrow> answered p (fst (enter_tunnel p))"
proof -
  assume up: "response_is_upgrade p"
  let ?q = "p\<lparr>state := PROXY_STATE_WEBSOCKET_TUNNEL, client_events := No_event, backend_events := No_event,
            tunnel_b2c_len := length (response_buffer p), tunnel_b2c_sent := send_pos p,
            tunnel_c2b_len := 0, tunnel_c2b_sent := 0\<rparr>"
  obtain r ok where r: "proxy_tunnel_flush_b2c ?q = (r, ok)" by fastforce
  have q: "request_stage ?q = (request_side p, PROXY_STATE_WEBSOCKET_TUNNEL, 0, 0)"
    by (simp add: request_stage_def)
  with r flush_b2c_stage [of ?q] have s: "request_stage r = (request_side p, PROXY_STATE_WEBSOCKET_TUNNEL, 0, 0)" by simp
  have e: "enter_tunnel p =
      (if length (response_buffer p) \<le> send_pos p
       then (proxy_tunnel_update_events (?q\<lparr>tunnel_b2c_len := 0, tunnel_b2c_sent := 0\<rparr>), True)
       else if ok then (proxy_tunnel_update_events r, True) else to_error r)"
    by (simp add: enter_tunnel_def Let_def r)
  have "answered p (fst (to_error r))"
    using s by (intro answered_ends) (simp add: request_stage_def)
  moreover have "answered p (proxy_tunnel_update_events r)"
    using up s by (intro answered_tunnel) (simp_all add: request_stage_def)
  moreover have "answered p (proxy_tunnel_update_events (?q\<lparr>tunnel_b2c_len := 0, tunnel_b2c_sent := 0\<rparr>))"
    using up by (intro answered_tunnel) simp_all
  ultimately show ?thesis
    unfolding e by simp
qed

lemma answered_after:
  "answered q r \<Longrightarrow> request_stage q = request_stage p \<Longrightarrow> answered p r"
  by (auto simp: answered_def request_stage_def request_side_def)

lemma process_streaming_answered: "answered p (fst (process_streaming p))"
proof (cases "response_header_sent p")
  case True
  then show ?thesis by (simp add: process_streaming_def stream_body_answered)
next
  case False
  obtain q oc where q: "send_header_loop p = (q, oc)" by fastforce
  with send_header_loop_stage [of p] have s: "request_stage q = request_stage p" by simp
  let ?r = "q\<lparr>response_header_sent := True\<rparr>"
  have r: "request_stage ?r = request_stage p" using s by simp
  have next_step: "answered p (fst (if response_is_upgrade ?r then enter_tunnel ?r else stream_body ?r))"
    by (rule answered_after [OF _ r]) (auto simp: stream_body_answered intro: enter_tunnel_answered)
  show ?thesis
    using next_step stage_side [OF s]
    by (cases oc) (simp_all add: process_streaming_def False q Let_def answered_ends)
qed

subsection \<open>The request the backend gets\<close>

lemma header_end_loop_append:
  "header_end_loop s i = n \<Longrightarrow> 0 \<le> n \<Longrightarrow> header_end_loop (s @ t) i = n"
proof (induction s i rule: header_end_loop.induct)
  case (1 s i)
  show ?case
  proof (cases "i < length s - 3")
    case True
    then have "(s @ t) ! i = s ! i" "(s @ t) ! (i + 1) = s ! (i + 1)" "(s @ t) ! (i + 2) = s ! (i + 2)"
        "(s @ t) ! (i + 3) = s ! (i + 3)"
      by (auto simp: nth_append)
    then show ?thesis
      using 1 True by (subst header_end_loop.simps) (auto simp: header_end_loop.simps [of s i])
  next
    case False
    with 1 show ?thesis by (simp add: header_end_loop.simps [of s i])
  qed
qed

lemma find_header_end_append:
  "proxy_find_header_end s = int n \<Longrightarrow> proxy_find_header_end (s @ t) = int n"
  using header_end_loop_append [of s 0 "int n" t] by (auto simp: proxy_find_header_end_def split: if_splits)

text \<open>What a client has sent is passed on as a header \<open>h'\<close> and a body. The header the client wrote
  frames the body; what follows it is not passed on, unless an upgrade of the connection was asked for.\<close>

definition passed_as :: "string \<Rightarrow> string \<Rightarrow> string \<Rightarrow> bool" where
  "passed_as sent h' body \<longleftrightarrow>
     (\<exists>h b n. sent = h @ b \<and> proxy_find_header_end (h @ b) = int (length h) \<and>
        request_framing h = Inr n \<and> n \<le> length b \<and> same_framing h h' \<and>
        (proxy_request_is_upgrade h' \<longrightarrow> proxy_request_is_upgrade h) \<and>
        body = (if proxy_request_is_upgrade h then b else take n b))"

definition backend_has :: "string \<Rightarrow> string \<Rightarrow> bool" where
  "backend_has sent got \<longleftrightarrow> got = [] \<or> (\<exists>h' body. passed_as sent h' body \<and> prefix got (h' @ body))"

text \<open>The states in which the whole request has been passed on.\<close>

definition awaiting :: "proxy_connection \<Rightarrow> bool" where
  "awaiting p \<longleftrightarrow>
     (\<exists>body. passed_as (from_client p) (take (request_header_end p) (request_buffer p)) body \<and>
        to_backend p = take (request_header_end p) (request_buffer p) @ body) \<and>
     (response_is_upgrade p \<longrightarrow> proxy_request_is_upgrade (take (request_header_end p) (request_buffer p)))"

definition tunnelled :: "proxy_connection \<Rightarrow> bool" where
  "tunnelled p \<longleftrightarrow>
     (\<exists>h' body. passed_as (from_client p) h' body \<and> proxy_request_is_upgrade h' \<and>
        to_backend p @ drop (tunnel_c2b_sent p) (take (tunnel_c2b_len p) (request_buffer p)) = h' @ body) \<and>
     tunnel_c2b_sent p \<le> tunnel_c2b_len p \<and> tunnel_c2b_len p \<le> length (request_buffer p)"

definition untouched :: "proxy_connection \<Rightarrow> bool" where
  "untouched p \<longleftrightarrow> to_backend p = [] \<and> request_buffer p = from_client p \<and> send_pos p = 0 \<and> \<not> response_is_upgrade p"

definition request_known :: "proxy_connection \<Rightarrow> string \<Rightarrow> string \<Rightarrow> bool" where
  "request_known p h b \<longleftrightarrow> from_client p = h @ b \<and> proxy_find_header_end (h @ b) = int (length h) \<and>
     request_header_end p = length h \<and> request_framing h = Inr (request_content_length p)"

definition sending :: "proxy_connection \<Rightarrow> bool" where
  "sending p \<longleftrightarrow> \<not> response_is_upgrade p \<and>
     (\<exists>h' body. passed_as (from_client p) h' body \<and> request_buffer p = h' @ body \<and> request_header_end p = length h') \<and>
     to_backend p = take (send_pos p) (request_buffer p)"

definition request_inv :: "proxy_connection \<Rightarrow> bool" where
  "request_inv p \<longleftrightarrow> LF \<notin> set (client_ip_str p) \<and>
     (case state p of
        PROXY_STATE_RECV_CLIENT_HEADER \<Rightarrow> untouched p
      | PROXY_STATE_RECV_CLIENT_BODY \<Rightarrow> untouched p \<and> (\<exists>h b. request_known p h b)
      | PROXY_STATE_SEND_TO_BACKEND \<Rightarrow> sending p
      | PROXY_STATE_RECV_BACKEND_HEADER \<Rightarrow> awaiting p
      | PROXY_STATE_STREAMING \<Rightarrow> awaiting p
      | PROXY_STATE_STREAMING_WAIT_WRITE \<Rightarrow> awaiting p
      | PROXY_STATE_WEBSOCKET_TUNNEL \<Rightarrow> tunnelled p
      | PROXY_STATE_ERROR \<Rightarrow> backend_has (from_client p) (to_backend p)
      | PROXY_STATE_DONE \<Rightarrow> backend_has (from_client p) (to_backend p)
      | _ \<Rightarrow> False)"

subsection \<open>Every step keeps the invariant\<close>

lemma sendingI:
  assumes "passed_as (from_client p) h' body" "request_buffer p = h' @ body" "request_header_end p = length h'"
    and "to_backend p = take (send_pos p) (request_buffer p)" "\<not> response_is_upgrade p"
  shows "sending p"
  unfolding sending_def using assms by blast

lemma backend_has_Nil [simp]: "backend_has sent []"
  by (simp add: backend_has_def)

lemma awaiting_has: "awaiting p \<Longrightarrow> backend_has (from_client p) (to_backend p)"
  unfolding awaiting_def backend_has_def by (metis prefix_order.order_refl)

lemma tunnelled_has: "tunnelled p \<Longrightarrow> backend_has (from_client p) (to_backend p)"
  unfolding tunnelled_def backend_has_def by (metis prefixI)

lemma sending_has: "sending p \<Longrightarrow> backend_has (from_client p) (to_backend p)"
  unfolding sending_def backend_has_def by (metis take_is_prefix)

lemma untouched_has: "untouched p \<Longrightarrow> backend_has (from_client p) (to_backend p)"
  by (simp add: untouched_def backend_has_def)

lemmas now_has = awaiting_has tunnelled_has sending_has untouched_has

text \<open>Ending the connection sends nothing to the backend.\<close>

lemma ends_inv:
  assumes "LF \<notin> set (client_ip_str p)" "backend_has (from_client p) (to_backend p)"
  shows "request_inv (fst (to_error p))" "request_inv (fst (to_done p))" "request_inv (fst (reject p status reason))"
  using assms to_error_side [of p] to_done_side [of p] reject_side [of p status reason]
  by (simp_all add: request_inv_def request_side_def)

lemma answered_inv:
  assumes "answered p p'" "awaiting p" "LF \<notin> set (client_ip_str p)"
    and "state p = PROXY_STATE_STREAMING \<or> state p = PROXY_STATE_STREAMING_WAIT_WRITE"
  shows "request_inv p'"
proof -
  have side: "request_side p' = request_side p"
    using assms(1) by (simp add: answered_def)
  then have "awaiting p'" and ip: "LF \<notin> set (client_ip_str p')"
    using assms(2,3) by (simp_all add: awaiting_def request_side_def)
  moreover have "tunnelled p'" if "response_is_upgrade p" "tunnel_c2b_len p' = 0" "tunnel_c2b_sent p' = 0"
    using that \<open>awaiting p'\<close> side unfolding awaiting_def tunnelled_def request_side_def by auto
  ultimately show ?thesis
    using assms(1,4) awaiting_has [of p'] by (auto simp: answered_def request_inv_def)
qed

lemma process_streaming_inv:
  assumes "awaiting p" "LF \<notin> set (client_ip_str p)"
    and "state p = PROXY_STATE_STREAMING \<or> state p = PROXY_STATE_STREAMING_WAIT_WRITE"
  shows "request_inv (fst (process_streaming p))"
  by (rule answered_inv [OF process_streaming_answered assms])

lemma stage_invs:
  assumes "LF \<notin> set (client_ip_str p)"
  shows "state p = PROXY_STATE_RECV_CLIENT_HEADER \<Longrightarrow> untouched p \<Longrightarrow> request_inv p"
    and "state p = PROXY_STATE_RECV_CLIENT_BODY \<Longrightarrow> untouched p \<Longrightarrow> request_known p h b \<Longrightarrow> request_inv p"
    and "state p = PROXY_STATE_SEND_TO_BACKEND \<Longrightarrow> sending p \<Longrightarrow> request_inv p"
    and "state p = PROXY_STATE_RECV_BACKEND_HEADER \<Longrightarrow> awaiting p \<Longrightarrow> request_inv p"
    and "state p = PROXY_STATE_STREAMING \<Longrightarrow> awaiting p \<Longrightarrow> request_inv p"
    and "state p = PROXY_STATE_WEBSOCKET_TUNNEL \<Longrightarrow> tunnelled p \<Longrightarrow> request_inv p"
  using assms by (auto simp: request_inv_def)

lemma process_send_inv:
  assumes "request_inv p" "state p = PROXY_STATE_SEND_TO_BACKEND"
  shows "request_inv (fst (process_send sys p))"
proof -
  from assms have s: "sending p" and ip: "LF \<notin> set (client_ip_str p)"
    by (simp_all add: request_inv_def)
  from s obtain h' body where h: "passed_as (from_client p) h' body" "request_buffer p = h' @ body" "request_header_end p = length h'"
      "to_backend p = take (send_pos p) (request_buffer p)" "\<not> response_is_upgrade p"
    by (auto simp: sending_def)
  obtain q a where q: "backend_send p (drop (send_pos p) (request_buffer p)) = (q, a)" by fastforce
  from backend_send_shape [OF this] obtain bs n where shape:
      "q = p\<lparr>backend_sends := bs, to_backend := to_backend p @ take n (drop (send_pos p) (request_buffer p))\<rparr>"
      "n \<le> length (drop (send_pos p) (request_buffer p))" "case a of Accepted k \<Rightarrow> k = n | _ \<Rightarrow> n = 0"
    by blast
  let ?q = "q\<lparr>send_pos := send_pos p + n\<rparr>"
  have got: "to_backend q = take (send_pos p + n) (request_buffer p)"
    by (simp add: h(4) take_add shape(1))
  have ipq: "LF \<notin> set (client_ip_str q)" and st: "state q = PROXY_STATE_SEND_TO_BACKEND"
    using ip assms(2) by (simp_all add: shape(1))
  have more: "sending ?q"
    using h got unfolding sending_def by (auto simp: shape(1))
  have whole: "awaiting q" if "\<not> send_pos p + n < length (request_buffer p)"
    using h got that unfolding awaiting_def by (auto simp: shape(1))
  have "request_inv (q\<lparr>backend_events := Write_persist\<rparr>)" "request_inv (fst (to_error q))" if "n = 0"
  proof -
    from more that have "sending q"
      by (simp add: sending_def shape(1))
    then show "request_inv (fst (to_error q))"
      using ipq by (intro ends_inv sending_has)
    from \<open>sending q\<close> show "request_inv (q\<lparr>backend_events := Write_persist\<rparr>)"
      using ipq st by (intro stage_invs(3)) (simp_all add: sending_def)
  qed
  moreover have "request_inv (?q\<lparr>backend_events := Write_persist\<rparr>)"
    using ipq st more by (intro stage_invs(3)) (simp_all add: sending_def)
  moreover have "request_inv (q\<lparr>send_pos := 0, state := PROXY_STATE_RECV_BACKEND_HEADER, backend_events := Read_persist\<rparr>)"
    if "\<not> send_pos p + n < length (request_buffer p)"
    using ipq whole [OF that] by (intro stage_invs(4)) (simp_all add: awaiting_def)
  moreover have "request_inv (fst (to_error p))"
    using ip sending_has [OF s] by (rule ends_inv)
  moreover have "send_pos q = send_pos p" "request_buffer q = request_buffer p"
    by (simp_all add: shape(1))
  ultimately show ?thesis
    using shape(3) q by (cases a) (simp_all add: process_send_def Let_def)
qed

text \<open>A request that is complete.\<close>

lemma cut_behind_body_shape:
  assumes "untouched p" "request_known p h b"
  shows "\<exists>m. cut_behind_body p = p\<lparr>request_buffer := h @ (if proxy_request_is_upgrade h then b
    else take (request_content_length p) b), request_body_received := m\<rparr>"
proof -
  have r: "request_buffer p = h @ b" "take (request_header_end p) (request_buffer p) = h"
    using assms by (auto simp: untouched_def request_known_def)
  show ?thesis
  proof (cases "proxy_request_is_upgrade h \<or> length b \<le> request_content_length p")
    case True
    have "p = p\<lparr>request_buffer := h @ b, request_body_received := request_body_received p\<rparr>"
      unfolding r(1) [symmetric] by (simp only: same_fields)
    moreover have "cut_behind_body p = p"
      using True r assms(2) by (auto simp: cut_behind_body_def Let_def request_known_def)
    moreover have "(if proxy_request_is_upgrade h then b else take (request_content_length p) b) = b"
      using True by auto
    ultimately show ?thesis
      by metis
  next
    case False
    then have "cut_behind_body p =
        p\<lparr>request_buffer := h @ take (request_content_length p) b, request_body_received := request_content_length p\<rparr>"
      using r assms(2) unfolding cut_behind_body_def Let_def by (simp add: request_known_def)
    with False show ?thesis
      by (intro exI) simp
  qed
qed

lemma process_connect_inv:
  assumes "untouched p" "request_known p h b" "request_content_length p \<le> length b" "LF \<notin> set (client_ip_str p)"
  shows "request_inv (fst (process_connect sys p))"
proof -
  let ?body = "if proxy_request_is_upgrade h then b else take (request_content_length p) b"
  obtain m where cut: "cut_behind_body p = p\<lparr>request_buffer := h @ ?body, request_body_received := m\<rparr>"
    using cut_behind_body_shape [OF assms(1,2)] by blast
  let ?c = "p\<lparr>request_buffer := h @ ?body, request_body_received := m, client_events := Peer_close_persist\<rparr>"
  let ?o = "?c\<lparr>backend_open := True\<rparr>"
  have none: "to_backend p = []" "send_pos p = 0" "\<not> response_is_upgrade p"
    using assms(1) by (simp_all add: untouched_def)
  have k: "from_client p = h @ b" "proxy_find_header_end (h @ b) = int (length h)" "request_header_end p = length h"
      "request_framing h = Inr (request_content_length p)"
    using assms(2) by (simp_all add: request_known_def)
  have eh: "ends_header h"
    using find_header_end_split(1) [OF k(2)] k(1) by simp
  obtain q ok where q: "proxy_inject_forwarded_headers sys ?o = (q, ok)" by fastforce
  from inject_forwarded_request [OF q, of h ?body] k(3) eh assms(4)
  obtain buf size n where shape: "q = ?o\<lparr>request_buffer := buf, request_buffer_size := size, request_header_end := n\<rparr>"
      "ok \<longrightarrow> (\<exists>h'. buf = h' @ ?body \<and> n = length h' \<and> same_framing h h' \<and>
         (proxy_request_is_upgrade h' \<longrightarrow> proxy_request_is_upgrade h))"
    by auto
  have "request_inv (fst (to_error ?c))" "request_inv (fst (to_error q))"
    using none(1) assms(4) by (auto intro!: ends_inv simp: shape(1))
  moreover have "request_inv (fst (process_send sys (q\<lparr>state := PROXY_STATE_SEND_TO_BACKEND\<rparr>)))" if ok
  proof (rule process_send_inv [OF stage_invs(3)])
    from that shape(2) obtain h' where h': "buf = h' @ ?body" "n = length h'" "same_framing h h'"
        "proxy_request_is_upgrade h' \<longrightarrow> proxy_request_is_upgrade h"
      by blast
    then have "passed_as (from_client p) h' ?body"
      unfolding passed_as_def using k assms(3) by blast
    then show "sending (q\<lparr>state := PROXY_STATE_SEND_TO_BACKEND\<rparr>)"
      by (intro sendingI [of _ h' ?body]) (use none h'(1,2) in \<open>simp_all add: shape(1)\<close>)
    show "LF \<notin> set (client_ip_str (q\<lparr>state := PROXY_STATE_SEND_TO_BACKEND\<rparr>))"
      using assms(4) by (simp add: shape(1))
  qed simp_all
  ultimately show ?thesis
    by (cases ok) (simp_all add: process_connect_def Let_def cut q)
qed

lemma to_connect_inv:
  assumes "untouched p" "request_known p h b" "request_content_length p \<le> length b" "LF \<notin> set (client_ip_str p)"
  shows "request_inv (fst (to_connect sys p))"
  unfolding to_connect_def by (rule process_connect_inv [of _ h b]) (use assms in \<open>simp_all add: untouched_def request_known_def\<close>)

lemma process_client_body_inv:
  assumes "untouched p" "request_known p h b" "LF \<notin> set (client_ip_str p)" "state p = PROXY_STATE_RECV_CLIENT_BODY"
  shows "request_inv (fst (process_client_body sys p))"
proof -
  let ?q = "p\<lparr>request_body_received := length (request_buffer p) - request_header_end p\<rparr>"
  have q: "untouched ?q" "request_known ?q h b" "LF \<notin> set (client_ip_str ?q)" "request_inv ?q"
    using assms stage_invs(2) [of ?q h b] by (auto simp: untouched_def request_known_def)
  have "length (request_buffer p) - request_header_end p = length b"
    using assms(1,2) by (auto simp: untouched_def request_known_def)
  then have "request_inv (fst (to_connect sys ?q))" if "request_content_length p \<le> length (request_buffer p) - request_header_end p"
    using to_connect_inv [OF q(1,2) _ q(3)] that by simp
  moreover have "request_inv (fst (reject ?q 413 ''Payload Too Large''))"
    by (rule ends_inv [OF q(3) untouched_has [OF q(1)]])
  ultimately show ?thesis
    using q(4) by (simp add: process_client_body_def Let_def)
qed

lemma grow_shape:
  assumes "grow_request_buffer sys p = Some r"
  shows "\<exists>sz. r = p\<lparr>request_buffer_size := sz\<rparr>"
proof -
  have "p = p\<lparr>request_buffer_size := request_buffer_size p\<rparr>"
    by (simp only: same_fields)
  then show ?thesis
    using assms unfolding grow_request_buffer_def Let_def by (metis option.distinct(1) option.inject)
qed

lemma process_client_header_inv:
  assumes "untouched p" "LF \<notin> set (client_ip_str p)" "state p = PROXY_STATE_RECV_CLIENT_HEADER"
  shows "request_inv (fst (process_client_header sys p))"
proof (cases "proxy_find_header_end (request_buffer p) < 0")
  case True
  have "request_inv p" "request_inv (fst (reject p 431 ''Request Header Fields Too Large''))"
    using assms by (auto intro: stage_invs(1) ends_inv untouched_has)
  with True show ?thesis
    by (simp add: process_client_header_def Let_def)
next
  case False
  define n where "n = nat (proxy_find_header_end (request_buffer p))"
  define h where "h = take n (request_buffer p)"
  define b where "b = drop n (request_buffer p)"
  have found: "proxy_find_header_end (request_buffer p) = int n"
    using False by (simp add: n_def)
  have "n \<le> length (request_buffer p)"
    using find_header_end_split(2) [OF found] by simp
  then have hb: "from_client p = h @ b" "length h = n" "proxy_find_header_end (h @ b) = int (length h)"
    using assms(1) found by (simp_all add: untouched_def h_def b_def)
  let ?p = "p\<lparr>request_header_end := n\<rparr>"
  have u: "untouched ?p" "LF \<notin> set (client_ip_str ?p)"
    using assms(1,2) by (simp_all add: untouched_def)
  have refused: "request_inv (fst (reject p s r))" "request_inv (fst (reject ?p s r))" for s r
    using assms(2) u untouched_has [OF assms(1)] untouched_has [OF u(1)] by (auto intro: ends_inv)
  show ?thesis
  proof (cases "request_framing h")
    case (Inl e)
    then show ?thesis
      using refused by (cases e) (auto simp: process_client_header_def Let_def found h_def)
  next
    case (Inr m)
    let ?q = "?p\<lparr>request_body_mode := BODY_MODE_CONTENT_LENGTH, request_content_length := m,
                 request_body_received := length (request_buffer p) - n\<rparr>"
    let ?z = "?p\<lparr>request_body_mode := BODY_MODE_NONE, request_content_length := 0\<rparr>"
    have q: "untouched ?q" "request_known ?q h b"
      using u(1) hb Inr by (simp_all add: untouched_def request_known_def)
    have received: "length (request_buffer p) - n = length b"
      by (simp add: b_def)
    have empty: "request_inv (fst (to_connect sys ?z))" if "m = 0"
      using u hb Inr that by (intro to_connect_inv [of _ h b]) (simp_all add: untouched_def request_known_def)
    have broken: "request_inv (fst (to_error ?q))"
      by (rule ends_inv [OF _ untouched_has [OF q(1)]]) (use u(2) in simp)
    have body: "request_inv (fst (if request_body_received r < request_content_length r
        then (r\<lparr>state := PROXY_STATE_RECV_CLIENT_BODY\<rparr>, True) else to_connect sys r))"
      if "grow_request_buffer sys ?q = Some r" for r
    proof -
      from grow_shape [OF that] obtain sz where r: "r = ?q\<lparr>request_buffer_size := sz\<rparr>"
        by blast
      have "untouched r" "request_known r h b" "LF \<notin> set (client_ip_str r)"
        using q u(2) by (simp_all add: r untouched_def request_known_def)
      then have "request_inv (fst (to_connect sys r))" if "\<not> request_body_received r < request_content_length r"
        using that received to_connect_inv [of r h b] by (simp add: r)
      moreover have "request_inv (r\<lparr>state := PROXY_STATE_RECV_CLIENT_BODY\<rparr>)"
        using q u(2) by (intro stage_invs(2) [of _ h b]) (simp_all add: r untouched_def request_known_def)
      ultimately show ?thesis by simp
    qed
    have "fst (process_client_header sys p) = fst (
        if n > PROXY_MAX_HEADER_SIZE then reject p 431 ''Request Header Fields Too Large''
        else if m > 0 then case grow_request_buffer sys ?q of None \<Rightarrow> to_error ?q
          | Some r \<Rightarrow> if request_body_received r < request_content_length r
              then (r\<lparr>state := PROXY_STATE_RECV_CLIENT_BODY\<rparr>, True) else to_connect sys r
        else to_connect sys ?z)"
      using Inr by (simp add: process_client_header_def Let_def found h_def)
    then show ?thesis
      using refused empty broken body by (auto split: option.split)
  qed
qed

lemma inject_close_stage: "request_stage (fst (proxy_inject_connection_close sys p)) = request_stage p"
  by (auto simp: proxy_inject_connection_close_def Let_def request_stage_def split: prod.splits)

lemma start_streaming_inv:
  assumes "awaiting p" "LF \<notin> set (client_ip_str p)"
  shows "request_inv (fst (start_streaming p mode n))"
  unfolding start_streaming_def Let_def
  by (rule process_streaming_inv) (use assms in \<open>auto simp: awaiting_def\<close>)

lemma awaiting_side: "request_side q = request_side p \<Longrightarrow> awaiting q \<longleftrightarrow> awaiting p"
  by (simp add: awaiting_def request_side_def)

lemma process_backend_header_inv:
  assumes "awaiting p" "LF \<notin> set (client_ip_str p)" "state p = PROXY_STATE_RECV_BACKEND_HEADER"
  shows "request_inv (fst (process_backend_header sys p))"
proof (cases "proxy_find_header_end (response_buffer p) < 0")
  case True
  with assms show ?thesis
    by (simp add: process_backend_header_def Let_def stage_invs)
next
  case False
  define n where "n = nat (proxy_find_header_end (response_buffer p))"
  let ?req = "take (request_header_end p) (request_buffer p)" and ?res = "take n (response_buffer p)"
  let ?p = "p\<lparr>response_header_end := n, response_status_code := proxy_get_status_code ?res, response_is_upgrade := False\<rparr>"
  have a: "awaiting ?p" "LF \<notin> set (client_ip_str ?p)"
    using assms by (auto simp: awaiting_def)
  obtain q ok where q: "proxy_inject_connection_close sys ?p = (q, ok)" by fastforce
  have "request_stage q = request_stage ?p"
    using inject_close_stage [of sys ?p] by (simp add: q)
  then have side: "request_side q = request_side ?p"
    by (rule stage_side)
  then have aq: "awaiting q" "LF \<notin> set (client_ip_str q)"
    using a awaiting_side [OF side] by (simp_all add: request_side_def)
  have "request_inv (fst (to_error ?p))" "request_inv (fst (to_error q))"
    using a aq by (auto intro: ends_inv awaiting_has)
  moreover have "request_inv (fst (process_streaming (?p\<lparr>response_is_upgrade := True, state := PROXY_STATE_STREAMING\<rparr>)))"
    if "proxy_parse_response_header ?req ?res = Some (st, True)" for st
  proof (rule process_streaming_inv)
    have "proxy_request_is_upgrade ?req"
      using that by (auto simp: proxy_parse_response_header_def Let_def split: if_splits)
    then show "awaiting (?p\<lparr>response_is_upgrade := True, state := PROXY_STATE_STREAMING\<rparr>)"
      using a(1) by (simp add: awaiting_def)
  qed (use assms(2) in simp_all)
  moreover have "request_inv (fst (start_streaming q mode m))" for mode m
    using start_streaming_inv [OF aq] .
  ultimately show ?thesis
    using False by (auto simp: process_backend_header_def Let_def n_def [symmetric] q split: option.split bool.split)
qed

lemma process_ends_inv:
  assumes "request_inv p"
  shows "state p = PROXY_STATE_ERROR \<Longrightarrow> request_inv (fst (process_error p))"
    and "state p = PROXY_STATE_DONE \<Longrightarrow> request_inv (fst (process_done p))"
proof -
  have same: "p\<lparr>state := s\<rparr> = p" if "state p = s" for s
    using that by (cases p) simp
  show "request_inv (fst (process_error p))" if s: "state p = PROXY_STATE_ERROR"
  proof -
    have "LF \<notin> set (client_ip_str p)" "backend_has (from_client p) (to_backend p)"
      using assms s by (simp_all add: request_inv_def)
    from ends_inv(1) [OF this] show ?thesis
      by (simp only: to_error_def same [OF s])
  qed
  show "request_inv (fst (process_done p))" if s: "state p = PROXY_STATE_DONE"
  proof -
    have "LF \<notin> set (client_ip_str p)" "backend_has (from_client p) (to_backend p)"
      using assms s by (simp_all add: request_inv_def)
    from ends_inv(2) [OF this] show ?thesis
      by (simp only: to_done_def same [OF s])
  qed
qed

lemma proxy_process_state_inv:
  assumes "request_inv p"
  shows "request_inv (fst (proxy_process_state sys p))"
proof -
  have ip: "LF \<notin> set (client_ip_str p)"
    using assms by (simp add: request_inv_def)
  show ?thesis
  proof (cases "state p")
    case PROXY_STATE_RECV_CLIENT_HEADER
    with assms ip show ?thesis
      using process_client_header_inv [of p sys] by (simp add: proxy_process_state_def request_inv_def [of p])
  next
    case PROXY_STATE_RECV_CLIENT_BODY
    with assms ip show ?thesis
      using process_client_body_inv [of p _ _ sys] by (auto simp: proxy_process_state_def request_inv_def [of p])
  next
    case PROXY_STATE_SEND_TO_BACKEND
    with assms show ?thesis
      using process_send_inv [of p sys] by (simp add: proxy_process_state_def)
  next
    case PROXY_STATE_RECV_BACKEND_HEADER
    with assms ip show ?thesis
      using process_backend_header_inv [of p sys] by (simp add: proxy_process_state_def request_inv_def [of p])
  next
    case PROXY_STATE_STREAMING
    with assms ip show ?thesis
      using process_streaming_inv [of p] by (simp add: proxy_process_state_def request_inv_def [of p])
  next
    case PROXY_STATE_ERROR
    with assms show ?thesis
      using process_ends_inv(1) [of p] by (simp add: proxy_process_state_def)
  next
    case PROXY_STATE_DONE
    with assms show ?thesis
      using process_ends_inv(2) [of p] by (simp add: proxy_process_state_def)
  qed (use assms in \<open>simp_all add: proxy_process_state_def, simp_all add: request_inv_def\<close>)
qed

subsection \<open>The handlers keep it\<close>

lemma passed_on_more:
  assumes "passed_as sent h' body" "proxy_request_is_upgrade h'"
  shows "passed_as (sent @ d) h' (body @ d)"
proof -
  obtain h b n where h: "sent = h @ b" "proxy_find_header_end (h @ b) = int (length h)" "request_framing h = Inr n"
      "n \<le> length b" "same_framing h h'" "proxy_request_is_upgrade h" "body = b"
    using assms by (auto simp: passed_as_def)
  have "proxy_find_header_end (h @ b @ d) = int (length h)"
    using find_header_end_append [OF h(2), of d] by simp
  with h show ?thesis
    unfolding passed_as_def by (intro exI [of _ h] exI [of _ "b @ d"] exI [of _ n]) simp
qed

lemma client_read_loop_inv:
  assumes "client_read_loop p = (q, ok)" "untouched p"
  shows "untouched q" "client_ip_str q = client_ip_str p" "state q = state p"
    and "\<exists>h b. request_known p h b \<Longrightarrow> \<exists>h b. request_known q h b"
proof -
  obtain rs e d where q: "q = p\<lparr>client_reads := rs, ssl_pending := e, from_client := from_client p @ d,
      request_buffer := request_buffer p @ d\<rparr>"
    using client_read_loop_shape [OF assms(1)] by blast
  show "untouched q" "client_ip_str q = client_ip_str p" "state q = state p"
    using assms(2) by (simp_all add: q untouched_def)
  assume "\<exists>h b. request_known p h b"
  then obtain h b where k: "request_known p h b" by blast
  have "request_known q h (b @ d)"
    using k find_header_end_append [of "h @ b" "length h" d] by (simp add: q request_known_def)
  then show "\<exists>h b. request_known q h b" by blast
qed

lemma client_receive_inv:
  assumes "request_inv p" "state p = PROXY_STATE_RECV_CLIENT_HEADER \<or> state p = PROXY_STATE_RECV_CLIENT_BODY"
  shows "request_inv (fst (case client_read_loop p of (q, False) \<Rightarrow> to_error q | (q, True) \<Rightarrow> proxy_process_state sys q))"
proof -
  obtain q ok where q: "client_read_loop p = (q, ok)" by fastforce
  have u: "untouched p" "LF \<notin> set (client_ip_str p)"
    using assms by (auto simp: request_inv_def)
  note r = client_read_loop_inv [OF q u(1)]
  have "request_inv q"
    using assms r u(2) by (auto simp: request_inv_def)
  moreover have "request_inv (fst (to_error q))"
    using r u(2) by (auto intro: ends_inv untouched_has)
  ultimately show ?thesis
    using proxy_process_state_inv [of q sys] by (cases ok) (simp_all add: q)
qed

lemma flush_c2b_reads: "client_reads (fst (proxy_tunnel_flush_c2b p)) = client_reads p"
proof (induction p rule: proxy_tunnel_flush_c2b.induct)
  case (1 p)
  then show ?case
    by (subst proxy_tunnel_flush_c2b.simps) (auto simp: backend_send_def split: prod.splits send_answer.splits list.splits)
qed

lemma request_inv_stage:
  assumes "request_stage q = request_stage p" "send_pos q = send_pos p" "request_content_length q = request_content_length p"
  shows "request_inv q \<longleftrightarrow> request_inv p"
  using assms by (simp add: request_stage_def request_side_def request_inv_def untouched_def request_known_def sending_def
      awaiting_def tunnelled_def cong: proxy_state.case_cong)

lemma update_events_inv: "request_inv (proxy_tunnel_update_events p) \<longleftrightarrow> request_inv p"
  by (rule request_inv_stage [OF update_events_stage]) (simp_all add: proxy_tunnel_update_events_def Let_def)

lemma flush_c2b_inv:
  assumes "proxy_tunnel_flush_c2b p = (q, ok)" "tunnelled p" "LF \<notin> set (client_ip_str p)" "state p = PROXY_STATE_WEBSOCKET_TUNNEL"
  shows "tunnelled q" "LF \<notin> set (client_ip_str q)" "state q = PROXY_STATE_WEBSOCKET_TUNNEL"
proof -
  have l: "tunnel_c2b_sent p \<le> tunnel_c2b_len p" "tunnel_c2b_len p \<le> length (request_buffer p)"
    using assms(2) by (simp_all add: tunnelled_def)
  from flush_c2b_shape [OF assms(1) l] obtain bs out l k where
      q: "q = p\<lparr>backend_sends := bs, to_backend := to_backend p @ out, tunnel_c2b_len := l, tunnel_c2b_sent := k\<rparr>"
      and le: "k \<le> l" "l \<le> length (request_buffer p)"
      and out: "out @ drop k (take l (request_buffer p)) = drop (tunnel_c2b_sent p) (take (tunnel_c2b_len p) (request_buffer p))"
    by blast
  show "LF \<notin> set (client_ip_str q)" "state q = PROXY_STATE_WEBSOCKET_TUNNEL"
    using assms(3,4) by (simp_all add: q)
  show "tunnelled q"
    using assms(2) le unfolding tunnelled_def out [symmetric] by (simp add: q)
qed

lemma tunnel_received:
  assumes "tunnelled p" "tunnel_c2b_len p = 0"
  shows "tunnelled (p\<lparr>client_reads := rs, ssl_pending := e, from_client := from_client p @ d, request_buffer := d,
    tunnel_c2b_len := length d, tunnel_c2b_sent := 0\<rparr>)"
proof -
  obtain h' body where h: "passed_as (from_client p) h' body" "proxy_request_is_upgrade h'" "to_backend p = h' @ body"
    using assms by (auto simp: tunnelled_def)
  have "passed_as (from_client p @ d) h' (body @ d)"
    using passed_on_more [OF h(1,2)] .
  with h(2,3) show ?thesis
    unfolding tunnelled_def by (intro conjI) (rule exI [of _ h'], rule exI [of _ "body @ d"], simp_all)
qed

lemma tunnel_ends_inv:
  assumes "tunnelled p" "LF \<notin> set (client_ip_str p)" "state p = PROXY_STATE_WEBSOCKET_TUNNEL"
  shows "request_inv p" "request_inv (proxy_tunnel_update_events p)"
    "request_inv (fst (to_error p))" "request_inv (fst (to_done p))"
  using assms by (auto simp: update_events_inv intro: stage_invs(6) ends_inv tunnelled_has)

lemma tunnel_read_loop_inv:
  "tunnelled p \<Longrightarrow> LF \<notin> set (client_ip_str p) \<Longrightarrow> state p = PROXY_STATE_WEBSOCKET_TUNNEL \<Longrightarrow>
    request_inv (fst (tunnel_read_loop p))"
proof (induction "length (client_reads p)" arbitrary: p rule: less_induct)
  case less
  show ?case
  proof (cases "tunnel_c2b_len p = 0")
    case False
    then show ?thesis
      using tunnel_ends_inv [OF less.prems] by (simp add: tunnel_read_loop.simps [of p])
  next
    case True
    obtain q a where q: "WebserverRecv p (request_buffer_size p) = (q, a)" by fastforce
    from WebserverRecv_shape [OF this] obtain rs e d where
        shape: "q = p\<lparr>client_reads := rs, ssl_pending := e, from_client := from_client p @ d\<rparr>"
        and a: "case a of Received x \<Rightarrow> x = d \<and> d \<noteq> [] | _ \<Rightarrow> d = []"
      by blast
    show ?thesis
    proof (cases a)
      case (Received x)
      then have x: "x = d" using a by simp
      define r where "r = q\<lparr>request_buffer := d, tunnel_c2b_len := length d, tunnel_c2b_sent := 0\<rparr>"
      have "tunnelled r"
        using tunnel_received [OF less.prems(1) True, where rs = rs and e = e and d = d] by (simp add: r_def shape)
      moreover have "LF \<notin> set (client_ip_str r)" "state r = PROXY_STATE_WEBSOCKET_TUNNEL"
        using less.prems by (simp_all add: r_def shape)
      moreover obtain s ok where s: "(if backend_open r then proxy_tunnel_flush_c2b r else (r, True)) = (s, ok)"
        by fastforce
      ultimately have t: "tunnelled s" "LF \<notin> set (client_ip_str s)" "state s = PROXY_STATE_WEBSOCKET_TUNNEL"
        using flush_c2b_inv [of r s ok] by (auto split: if_splits)
      have "client_reads s = client_reads q"
        using s flush_c2b_reads [of r] by (auto simp: r_def split: if_splits)
      moreover have "length (client_reads q) < length (client_reads p)"
        using q Received by (auto simp: WebserverRecv_def split: list.splits read_answer.splits if_splits)
      ultimately have "request_inv (fst (tunnel_read_loop s))"
        using less.hyps [OF _ t] by simp
      moreover have "tunnel_read_loop p = (if ok then if \<not> ssl_pending s then (proxy_tunnel_update_events s, True)
          else tunnel_read_loop s else to_error s)"
        by (subst tunnel_read_loop.simps)
          (simp only: True simp_thms if_True q Received x prod.case read_answer.case Let_def r_def [symmetric] s,
            cases ok, simp_all)
      ultimately show ?thesis
        using tunnel_ends_inv [OF t] by simp
    next
      case Read_blocked
      then have "d = []" using a by simp
      then have "tunnelled q" "LF \<notin> set (client_ip_str q)" "state q = PROXY_STATE_WEBSOCKET_TUNNEL"
        using less.prems by (simp_all add: shape tunnelled_def)
      from tunnel_ends_inv [OF this] show ?thesis
        using True by (subst tunnel_read_loop.simps) (simp add: q Read_blocked)
    next
      case Read_broken
      then have "d = []" using a by simp
      then have "tunnelled q" "LF \<notin> set (client_ip_str q)" "state q = PROXY_STATE_WEBSOCKET_TUNNEL"
        using less.prems by (simp_all add: shape tunnelled_def)
      from tunnel_ends_inv [OF this] show ?thesis
        using True by (subst tunnel_read_loop.simps) (simp add: q Read_broken)
    qed
  qed
qed

lemma client_handler_inv:
  assumes "request_inv p"
  shows "request_inv (fst (reverse_proxy_client_handler sys p))"
proof -
  have ip: "LF \<notin> set (client_ip_str p)"
    using assms by (simp add: request_inv_def)
  have ending: "request_inv (fst (to_done p))" if "state p \<in> {PROXY_STATE_SEND_TO_BACKEND, PROXY_STATE_RECV_BACKEND_HEADER, PROXY_STATE_STREAMING}"
  proof -
    have "backend_has (from_client p) (to_backend p)"
      using assms that by (auto simp: request_inv_def intro: now_has)
    with ip show ?thesis by (rule ends_inv)
  qed
  show ?thesis
  proof (cases "state p")
    case PROXY_STATE_RECV_CLIENT_HEADER
    with client_receive_inv [OF assms] show ?thesis
      by (simp add: reverse_proxy_client_handler_def)
  next
    case PROXY_STATE_RECV_CLIENT_BODY
    with client_receive_inv [OF assms] show ?thesis
      by (simp add: reverse_proxy_client_handler_def)
  next
    case PROXY_STATE_STREAMING_WAIT_WRITE
    have "request_inv (fst (process_streaming (p\<lparr>client_events := Peer_close_persist, backend_events := Read_persist,
        state := PROXY_STATE_STREAMING\<rparr>)))"
      by (rule process_streaming_inv)
        (use assms PROXY_STATE_STREAMING_WAIT_WRITE ip in \<open>simp_all add: request_inv_def awaiting_def\<close>)
    with PROXY_STATE_STREAMING_WAIT_WRITE show ?thesis
      by (simp add: reverse_proxy_client_handler_def)
  next
    case PROXY_STATE_WEBSOCKET_TUNNEL
    then have t: "tunnelled p" using assms by (simp add: request_inv_def)
    obtain q ok where q: "(if 0 < tunnel_b2c_len p then proxy_tunnel_flush_b2c p else (p, True)) = (q, ok)" by fastforce
    have "request_stage q = request_stage p"
      using q flush_b2c_stage [of p] by (auto split: if_splits)
    then have "tunnelled q" "LF \<notin> set (client_ip_str q)" "state q = PROXY_STATE_WEBSOCKET_TUNNEL"
      using t ip PROXY_STATE_WEBSOCKET_TUNNEL by (simp_all add: request_stage_def request_side_def tunnelled_def)
    with q show ?thesis
      using PROXY_STATE_WEBSOCKET_TUNNEL tunnel_read_loop_inv [of q] tunnel_ends_inv [of q]
      by (cases ok) (simp_all add: reverse_proxy_client_handler_def)
  qed (use ending assms proxy_process_state_inv [OF assms, of sys] in
      \<open>simp_all add: reverse_proxy_client_handler_def, simp_all add: request_inv_def\<close>)
qed

lemma backend_tunnel_inv:
  assumes "tunnelled p" "LF \<notin> set (client_ip_str p)" "state p = PROXY_STATE_WEBSOCKET_TUNNEL"
  shows "request_inv (fst (backend_tunnel_read p))" "request_inv (fst (backend_tunnel sys p))"
proof -
  have keep: "tunnelled r \<and> LF \<notin> set (client_ip_str r) \<and> state r = PROXY_STATE_WEBSOCKET_TUNNEL"
    if "request_stage r = request_stage q" "tunnelled q" "LF \<notin> set (client_ip_str q)" "state q = PROXY_STATE_WEBSOCKET_TUNNEL" for q r
    using that by (simp add: request_stage_def request_side_def tunnelled_def)
  have read: "request_inv (fst (backend_tunnel_read p))"
    if p: "tunnelled p" "LF \<notin> set (client_ip_str p)" "state p = PROXY_STATE_WEBSOCKET_TUNNEL" for p
  proof -
    obtain q a where q: "backend_recv p (response_buffer_size p) = (q, a)" by fastforce
    have tq: "request_stage q = request_stage p"
      using backend_recv_stage [OF q] .
    note kq = keep [OF tq p]
    have flush: "request_inv (fst (case proxy_tunnel_flush_b2c r of (s, False) \<Rightarrow> to_error s
        | (s, True) \<Rightarrow> (proxy_tunnel_update_events s, True)))" if "request_stage r = request_stage q" for r
    proof -
      obtain s ok where s: "proxy_tunnel_flush_b2c r = (s, ok)" by fastforce
      have "request_stage s = request_stage p"
        using flush_b2c_stage [of r] that tq by (simp add: s)
      note ks = keep [OF this p]
      show ?thesis
        using tunnel_ends_inv [of s] ks by (cases ok) (simp_all add: s)
    qed
    show ?thesis
      using tunnel_ends_inv [of q] tunnel_ends_inv [OF p] kq flush
      by (cases a) (simp_all add: backend_tunnel_read_def q)
  qed
  show "request_inv (fst (backend_tunnel_read p))"
    by (rule read [OF assms])
  obtain q ok where q: "proxy_tunnel_flush_c2b p = (q, ok)" by fastforce
  note f = flush_c2b_inv [OF q assms]
  show "request_inv (fst (backend_tunnel sys p))"
    using read [OF f] read [OF assms] tunnel_ends_inv [OF f] client_handler_inv [of q sys]
    by (cases ok) (simp_all add: backend_tunnel_def q)
qed

lemma backend_streaming_inv:
  assumes "awaiting p" "LF \<notin> set (client_ip_str p)" "state p = PROXY_STATE_STREAMING"
  shows "request_inv (fst (backend_streaming p))"
proof -
  let ?p = "p\<lparr>response_buffer := [], send_pos := 0\<rparr>"
  obtain q a where q: "backend_recv ?p (response_buffer_size p) = (q, a)" by fastforce
  have "request_stage q = request_stage p"
    using backend_recv_stage [OF q] by simp
  then have side: "request_side q = request_side p" and st: "state q = PROXY_STATE_STREAMING"
    using assms(3) by (simp_all add: request_stage_def)
  then have aq: "awaiting q" "LF \<notin> set (client_ip_str q)"
    using assms awaiting_side [OF side] by (simp_all add: request_side_def)
  have ends: "request_inv q" "request_inv (fst (to_error q))" "request_inv (fst (to_done q))" "request_inv (fst (to_done p))"
    using aq assms st by (auto intro: stage_invs(5) ends_inv awaiting_has)
  have go: "request_inv (fst (process_streaming r))" if "request_stage r = request_stage q" for r
  proof (rule process_streaming_inv)
    show "awaiting r" "LF \<notin> set (client_ip_str r)"
      using that aq awaiting_side [OF stage_side [OF that]] by (simp_all add: request_stage_def request_side_def)
    show "state r = PROXY_STATE_STREAMING \<or> state r = PROXY_STATE_STREAMING_WAIT_WRITE"
      using that st by (simp add: request_stage_def)
  qed
  have "request_inv (fst (process_streaming p))"
    by (rule process_streaming_inv) (use assms in simp_all)
  then show ?thesis
    using ends go by (cases a) (simp_all add: backend_streaming_def Let_def q)
qed

lemma backend_handler_inv:
  assumes "request_inv p"
  shows "request_inv (fst (reverse_proxy_backend_handler sys p))"
proof -
  have ip: "LF \<notin> set (client_ip_str p)"
    using assms by (simp add: request_inv_def)
  show ?thesis
  proof (cases "state p")
    case PROXY_STATE_SEND_TO_BACKEND
    obtain q ok where q: "proxy_process_state sys p = (q, ok)" by fastforce
    then have "request_inv q"
      using proxy_process_state_inv [OF assms, of sys] by simp
    with PROXY_STATE_SEND_TO_BACKEND show ?thesis
      by (simp add: reverse_proxy_backend_handler_def q proxy_process_state_inv)
  next
    case PROXY_STATE_RECV_BACKEND_HEADER
    then have a: "awaiting p" using assms by (simp add: request_inv_def)
    obtain q x where q: "backend_recv p (response_buffer_size p - length (response_buffer p)) = (q, x)" by fastforce
    have s: "request_stage q = request_stage p"
      using backend_recv_stage [OF q] .
    have aq: "awaiting q" "LF \<notin> set (client_ip_str q)" "state q = PROXY_STATE_RECV_BACKEND_HEADER"
      using s a ip awaiting_side [OF stage_side [OF s]] PROXY_STATE_RECV_BACKEND_HEADER
      by (simp_all add: request_stage_def request_side_def)
    have ends: "request_inv q" "request_inv (fst (to_error q))" "request_inv (fst (to_error p))"
      using aq a ip by (auto intro: stage_invs(4) ends_inv awaiting_has)
    have "request_inv (fst (proxy_process_state sys (q\<lparr>response_buffer := d\<rparr>)))" for d
      by (rule proxy_process_state_inv) (use aq in \<open>simp add: stage_invs(4) awaiting_def\<close>)
    with ends PROXY_STATE_RECV_BACKEND_HEADER show ?thesis
      by (cases x) (simp_all add: reverse_proxy_backend_handler_def q)
  next
    case PROXY_STATE_STREAMING
    with assms ip backend_streaming_inv [of p] show ?thesis
      by (simp add: reverse_proxy_backend_handler_def request_inv_def [of p])
  next
    case PROXY_STATE_WEBSOCKET_TUNNEL
    with assms ip backend_tunnel_inv(2) [of p sys] show ?thesis
      by (simp add: reverse_proxy_backend_handler_def request_inv_def [of p])
  qed (use proxy_process_state_inv [OF assms, of sys] in \<open>simp_all add: reverse_proxy_backend_handler_def\<close>)
qed

subsection \<open>The connections that arise\<close>

text \<open>A connection starts with \<open>checkReverseProxy\<close>; the event loop then calls one handler or the other, in any
  order, while the system may allow or refuse anything. The client's address is a text without a line end.\<close>

inductive proxied :: "proxy_connection \<Rightarrow> bool" where
  started: "checkReverseProxy sys answers regs s buffer = (s', True, Some p) \<Longrightarrow> LF \<notin> set (sock_ip_str s) \<Longrightarrow> proxied p"
| client: "proxied p \<Longrightarrow> reverse_proxy_client_handler sys p = (p', alive) \<Longrightarrow> proxied p'"
| backend: "proxied p \<Longrightarrow> reverse_proxy_backend_handler sys p = (p', alive) \<Longrightarrow> proxied p'"

text \<open>The connection as it is made, with the bytes read so far in its buffer.\<close>

definition fresh_connection :: "proxy_connection \<Rightarrow> bool" where
  "fresh_connection p \<longleftrightarrow> state p = PROXY_STATE_RECV_CLIENT_HEADER \<and> LF \<notin> set (client_ip_str p) \<and> untouched p \<and>
     to_client p = [] \<and> from_backend p = [] \<and> response_buffer p = [] \<and> chunks p = chunk_start \<and> \<not> response_header_sent p"

lemma checkReverseProxy_starts:
  assumes "checkReverseProxy sys answers regs s buffer = (s', True, Some p)" "LF \<notin> set (sock_ip_str s)"
  shows "\<exists>q r alive. fresh_connection q \<and> proxy_process_state sys q = (r, alive) \<and> (p = r \<or> p = r\<lparr>client_events := Read_persist\<rparr>)"
proof -
  have fresh_sock: "\<not> reverse_proxy_checked s"
    using assms(1) by (cases "reverse_proxy_checked s") (simp_all add: checkReverseProxy_def)
  then obtain http_method url where line: "proxy_parse_request_line buffer 16 512 = Some (http_method, url)"
    using assms(1) by (cases "proxy_parse_request_line buffer 16 512") (simp_all add: checkReverseProxy_def, fastforce)
  then obtain reg where reg: "proxy_find_registration http_method url regs = Some reg"
    using assms(1) fresh_sock by (cases "proxy_find_registration http_method url regs") (simp_all add: checkReverseProxy_def)
  have idle: "\<not> output_list_size s > 0"
    using assms(1) fresh_sock line reg by (cases "output_list_size s > 0") (simp_all add: checkReverseProxy_def)
  obtain c where c: "proxy_create_connection sys s reg = Some c"
    using assms(1) fresh_sock line reg idle by (cases "proxy_create_connection sys s reg") (simp_all add: checkReverseProxy_def)
  let ?q = "if 0 < length buffer \<and> length buffer < request_buffer_size (with_answers answers c)
            then (with_answers answers c)\<lparr>request_buffer := buffer, from_client := buffer\<rparr> else with_answers answers c"
  obtain r alive where r: "proxy_process_state sys ?q = (r, alive)" by fastforce
  have "fresh_connection ?q"
    using c assms(2)
    by (auto simp: fresh_connection_def untouched_def with_answers_def proxy_create_connection_def split: if_splits)
  moreover have "p = r \<or> p = r\<lparr>client_events := Read_persist\<rparr>"
    using assms(1) unfolding checkReverseProxy_def Let_def
    by (simp only: fresh_sock line reg idle c r option.case prod.case if_False if_True) (simp split: if_splits)
  ultimately show ?thesis
    using r by blast
qed

lemma proxied_inv: "proxied p \<Longrightarrow> request_inv p"
proof (induction rule: proxied.induct)
  case (started sys answers regs s buffer s' p)
  from checkReverseProxy_starts [OF this] obtain q r alive where q: "fresh_connection q" "proxy_process_state sys q = (r, alive)"
      and p: "p = r \<or> p = r\<lparr>client_events := Read_persist\<rparr>"
    by blast
  have "request_inv q"
    using q(1) stage_invs(1) by (simp add: fresh_connection_def)
  then have "request_inv r"
    using proxy_process_state_inv [of q sys] q(2) by simp
  with p request_inv_stage [of "r\<lparr>client_events := Read_persist\<rparr>" r] show ?case
    by auto
next
  case (client p sys p' alive)
  then show ?case using client_handler_inv [of p sys] by simp
next
  case (backend p sys p' alive)
  then show ?case using backend_handler_inv [of p sys] by simp
qed


text \<open>A request with two bytes behind its body.\<close>

definition example_system :: proxy_system where
  "example_system = \<lparr>allocates = (\<lambda>_. True), connects = True, connect_failed = False\<rparr>"

definition example_answers :: proxy_answers where
  "example_answers = \<lparr>ans_client_sends = [(SOCKET_SEND_NO_MORE_DATA, 99), (SOCKET_SEND_NO_MORE_DATA, 99)], ans_client_reads = [],
     ans_backend_sends = [Accepted 200],
     ans_backend_reads = [Received (''HTTP/1.1 200 OK'' @ [CR, LF] @ ''Content-Length: 2'' @ [CR, LF, CR, LF]), Received ''ok'']\<rparr>"

definition example_client :: proxy_client where
  "example_client = \<lparr>reverse_proxy_checked = False, output_list_size = 0, header_buffer_pos = 0, sock_closeSocket = False,
     sock_proxy_error = False, sock_ip_str = ''::1'', sock_use_ssl = False, sock_events = Read_persist\<rparr>"

definition example_registrations :: "proxy_registration list" where
  "example_registrations = [\<lparr>reg_method = ''*'', url_prefix = ''/'', reg_backend_path = ''b''\<rparr>]"

definition example_request :: string where
  "example_request = ''PUT /x H'' @ [CR, LF] @ ''Content-Length: 1'' @ [CR, LF, CR, LF] @ ''abc''"

definition example_start :: "proxy_client \<times> bool \<times> proxy_connection option" where
  "example_start = checkReverseProxy example_system example_answers example_registrations example_client example_request"

text \<open>The connection it makes; the backend then answers with a header and, in a second read, the body.\<close>

definition example_connection :: proxy_connection where
  "example_connection = the (snd (snd example_start))"

definition example_streaming :: proxy_connection where
  "example_streaming = fst (reverse_proxy_backend_handler example_system example_connection)"

definition example_done :: proxy_connection where
  "example_done = fst (reverse_proxy_backend_handler example_system example_streaming)"

text \<open>What is observed of the run, in steps, so that each state is computed once.\<close>

definition observe_done :: "proxy_connection \<Rightarrow> proxy_connection \<Rightarrow> proxy_connection \<Rightarrow> string \<times> proxy_state \<times> proxy_state \<times> string" where
  "observe_done c s d = (to_backend c, state s, state d, to_client d)"

definition observe_streaming :: "proxy_connection \<Rightarrow> proxy_connection \<Rightarrow> string \<times> proxy_state \<times> proxy_state \<times> string" where
  "observe_streaming c s = observe_done c s (fst (reverse_proxy_backend_handler example_system s))"

definition observe_connection :: "proxy_connection \<Rightarrow> string \<times> proxy_state \<times> proxy_state \<times> string" where
  "observe_connection c = observe_streaming c (fst (reverse_proxy_backend_handler example_system c))"

definition observe_start ::
    "proxy_client \<times> bool \<times> proxy_connection option \<Rightarrow> bool \<times> (string \<times> proxy_state \<times> proxy_state \<times> string) option" where
  "observe_start r = (fst (snd r), map_option observe_connection (snd (snd r)))"

lemma example_observed:
  "observe_start example_start =
   (True, Some (''PUT /x H'' @ [CR, LF] @ ''Content-Length: 1'' @ [CR, LF] @
     ''X-Forwarded-For: ::1'' @ [CR, LF] @ ''X-Forwarded-Host: unknown'' @ [CR, LF] @ ''X-Forwarded-Proto: http'' @ [CR, LF] @
     ''Connection: close'' @ [CR, LF, CR, LF] @ ''a'',
     PROXY_STATE_STREAMING, PROXY_STATE_DONE,
     ''HTTP/1.1 200 OK'' @ [CR, LF] @ ''Content-Length: 2'' @ [CR, LF] @ ''Connection: close'' @ [CR, LF, CR, LF] @ ''ok''))"
  by code_simp

lemma example_run:
  "fst (snd example_start)" "snd (snd example_start) = Some example_connection" "to_backend example_connection \<noteq> []"
  "state example_streaming = PROXY_STATE_STREAMING" "state example_done = PROXY_STATE_DONE" "to_client example_done \<noteq> []"
  using example_observed
  by (auto simp: observe_start_def observe_connection_def observe_streaming_def observe_done_def
      example_connection_def example_streaming_def example_done_def)

lemma example_started: "proxied example_connection"
proof -
  have "checkReverseProxy example_system example_answers example_registrations example_client example_request =
      (fst example_start, True, Some example_connection)"
    using example_run(1,2) unfolding example_start_def [symmetric] by (simp add: prod_eq_iff)
  then show ?thesis
    by (rule proxied.started) (simp add: example_client_def)
qed


end
