(* ===== verification/ProxyResponse.thy ===== *)
theory ProxyResponse
  imports ProxyRelay
begin

text \<open>
  What the client of a proxied connection receives: the bytes of the backend in their order, none lost or
  repeated, behind a header whose framing fields are those the backend wrote; and the end of a
  response, which comes when its own framing says so. \<open>response_inv\<close> says for each state how the bytes the
  client has got relate to those the backend has sent.
\<close>

subsection \<open>The invariant\<close>

text \<open>Before the backend has answered.\<close>

definition quiet :: "proxy_connection \<Rightarrow> bool" where
  "quiet p \<longleftrightarrow> to_client p = [] \<and> from_backend p = [] \<and> response_buffer p = [] \<and> chunks p = chunk_start \<and> \<not> response_header_sent p"

definition awaits_header :: "proxy_connection \<Rightarrow> bool" where
  "awaits_header p \<longleftrightarrow> to_client p = [] \<and> from_backend p = response_buffer p \<and> chunks p = chunk_start \<and>
     \<not> response_header_sent p \<and> send_pos p = 0"

text \<open>The backend has sent the header \<open>h\<close> and \<open>b\<close> behind it; the client gets \<open>h'\<close> and \<open>b\<close>.\<close>

definition answer_header :: "proxy_connection \<Rightarrow> string \<Rightarrow> string \<Rightarrow> string \<Rightarrow> bool" where
  "answer_header p h h' b \<longleftrightarrow> from_backend p = h @ b \<and> proxy_find_header_end (h @ b) = int (length h) \<and>
     (if response_is_upgrade p then h' = h
      else same_framing h h' \<and>
        response_framing h (proxy_get_status_code h) = Some (response_body_mode p, response_content_length p) \<and>
        (response_body_mode p = BODY_MODE_CHUNKED \<longrightarrow> chunks p = scan_feed chunk_start b))"

definition answer_sent :: "proxy_connection \<Rightarrow> string \<Rightarrow> string \<Rightarrow> bool" where
  "answer_sent p h' b \<longleftrightarrow> send_pos p \<le> length (response_buffer p) \<and> to_client p @ drop (send_pos p) (response_buffer p) = h' @ b \<and>
     (if response_header_sent p then \<not> response_is_upgrade p \<and> length (to_client p) = length h' + response_body_sent p
      else response_buffer p = h' @ b \<and> response_header_end p = length h' \<and> send_pos p \<le> length h' \<and>
        (\<not> response_is_upgrade p \<longrightarrow> response_body_sent p = 0))"

definition streams :: "proxy_connection \<Rightarrow> bool" where
  "streams p \<longleftrightarrow> (\<exists>h h' b. answer_header p h h' b \<and> answer_sent p h' b)"

definition relays :: "proxy_connection \<Rightarrow> bool" where
  "relays p \<longleftrightarrow>
     (\<exists>h b. from_backend p = h @ b \<and> proxy_find_header_end (h @ b) = int (length h) \<and>
        to_client p @ drop (tunnel_b2c_sent p) (take (tunnel_b2c_len p) (response_buffer p)) = h @ b) \<and>
     tunnel_b2c_sent p \<le> tunnel_b2c_len p \<and> tunnel_b2c_len p \<le> length (response_buffer p)"

definition client_has :: "string \<Rightarrow> string \<Rightarrow> bool" where
  "client_has sent got \<longleftrightarrow> got = [] \<or>
     (\<exists>h h' b. sent = h @ b \<and> proxy_find_header_end (h @ b) = int (length h) \<and> (h' = h \<or> same_framing h h') \<and> prefix got (h' @ b))"

definition response_inv :: "proxy_connection \<Rightarrow> bool" where
  "response_inv p \<longleftrightarrow>
     (case state p of
        PROXY_STATE_RECV_CLIENT_HEADER \<Rightarrow> quiet p
      | PROXY_STATE_RECV_CLIENT_BODY \<Rightarrow> quiet p
      | PROXY_STATE_SEND_TO_BACKEND \<Rightarrow> quiet p
      | PROXY_STATE_RECV_BACKEND_HEADER \<Rightarrow> awaits_header p
      | PROXY_STATE_STREAMING \<Rightarrow> streams p \<and> response_header_sent p
      | PROXY_STATE_STREAMING_WAIT_WRITE \<Rightarrow> streams p
      | PROXY_STATE_WEBSOCKET_TUNNEL \<Rightarrow> relays p
      | PROXY_STATE_DONE \<Rightarrow> client_has (from_backend p) (to_client p)
      | PROXY_STATE_ERROR \<Rightarrow> True
      | _ \<Rightarrow> False)"

lemma streams_has: "streams p \<Longrightarrow> client_has (from_backend p) (to_client p)"
proof -
  assume "streams p"
  then obtain h h' b where a: "answer_header p h h' b" and s: "answer_sent p h' b"
    by (auto simp: streams_def)
  from s have "prefix (to_client p) (h' @ b)"
    unfolding answer_sent_def by (metis prefixI)
  with a show ?thesis
    unfolding client_has_def answer_header_def by (metis (full_types))
qed

lemma relays_has: "relays p \<Longrightarrow> client_has (from_backend p) (to_client p)"
  unfolding relays_def client_has_def by (metis prefixI)

lemma error_keeps: "response_inv (fst (to_error p))" "response_inv (fst (reject p s r))"
  by (simp_all add: response_inv_def to_error_side reject_side)

lemma done_keeps: "client_has (from_backend p) (to_client p) \<Longrightarrow> response_inv (fst (to_done p))"
  by (simp add: response_inv_def to_done_def process_done_def proxy_shutdown_client_def Let_def)

subsection \<open>While the request is read and passed on\<close>

lemma quiet_has: "quiet p \<Longrightarrow> client_has (from_backend p) (to_client p)"
  "awaits_header p \<Longrightarrow> client_has (from_backend p) (to_client p)"
  by (simp_all add: quiet_def awaits_header_def client_has_def)

lemma process_send_keeps:
  assumes "quiet p" "state p = PROXY_STATE_SEND_TO_BACKEND"
  shows "response_inv (fst (process_send sys p))"
proof -
  obtain q a where q: "backend_send p (drop (send_pos p) (request_buffer p)) = (q, a)" by fastforce
  from backend_send_shape [OF this] obtain bs d where shape: "q = p\<lparr>backend_sends := bs, to_backend := d\<rparr>"
    by blast
  have "response_inv (q\<lparr>send_pos := n, backend_events := e\<rparr>)" "response_inv (q\<lparr>backend_events := e\<rparr>)"
    "response_inv (q\<lparr>send_pos := 0, state := PROXY_STATE_RECV_BACKEND_HEADER, backend_events := e\<rparr>)" for n e
    using assms by (simp_all add: shape response_inv_def quiet_def awaits_header_def)
  then show ?thesis
    by (cases a) (simp_all add: process_send_def Let_def q error_keeps)
qed

lemma inject_forwarded_quiet: "quiet (fst (proxy_inject_forwarded_headers sys p)) \<longleftrightarrow> quiet p"
  by (auto simp: proxy_inject_forwarded_headers_def Let_def quiet_def split: prod.splits)

lemma process_connect_keeps:
  assumes "quiet p"
  shows "response_inv (fst (process_connect sys p))"
proof -
  let ?c = "(cut_behind_body p)\<lparr>client_events := Peer_close_persist, backend_open := True\<rparr>"
  obtain q ok where q: "proxy_inject_forwarded_headers sys ?c = (q, ok)" by fastforce
  have "quiet ?c"
    using assms by (simp add: quiet_def cut_behind_body_def Let_def)
  then have "quiet q"
    using inject_forwarded_quiet [of sys ?c] by (simp add: q)
  then have "response_inv (fst (process_send sys (q\<lparr>state := PROXY_STATE_SEND_TO_BACKEND\<rparr>)))"
    by (intro process_send_keeps) (simp_all add: quiet_def)
  then show ?thesis
    by (cases ok) (simp_all add: process_connect_def Let_def q error_keeps)
qed

lemma to_connect_keeps: "quiet p \<Longrightarrow> response_inv (fst (to_connect sys p))"
  unfolding to_connect_def by (rule process_connect_keeps) (simp add: quiet_def)

lemma process_client_body_keeps:
  assumes "quiet p" "state p = PROXY_STATE_RECV_CLIENT_BODY"
  shows "response_inv (fst (process_client_body sys p))"
proof -
  let ?q = "p\<lparr>request_body_received := length (request_buffer p) - request_header_end p\<rparr>"
  have "quiet ?q" "response_inv ?q"
    using assms by (simp_all add: quiet_def response_inv_def)
  then show ?thesis
    using to_connect_keeps [of ?q sys] by (simp add: process_client_body_def Let_def error_keeps)
qed

lemma process_client_header_keeps:
  assumes "quiet p" "state p = PROXY_STATE_RECV_CLIENT_HEADER"
  shows "response_inv (fst (process_client_header sys p))"
proof -
  have stay: "response_inv p"
    using assms by (simp add: response_inv_def)
  have grown: "quiet r" if "grow_request_buffer sys q = Some r" "quiet q" for q r
    using grow_shape [OF that(1)] that(2) by (auto simp: quiet_def)
  have q: "quiet (p\<lparr>request_header_end := a, request_body_mode := m, request_content_length := c, request_body_received := d\<rparr>)"
      "quiet (p\<lparr>request_header_end := a, request_body_mode := m, request_content_length := c\<rparr>)" for a m c d
    using assms(1) by (simp_all add: quiet_def)
  have body: "response_inv (r\<lparr>state := PROXY_STATE_RECV_CLIENT_BODY\<rparr>)" if "quiet r" for r
    using that by (simp add: response_inv_def quiet_def)
  show ?thesis
    unfolding process_client_header_def Let_def
    using stay by (auto simp: error_keeps q split: sum.split option.split intro: to_connect_keeps body dest!: grown)
qed

subsection \<open>While the response is passed on\<close>

text \<open>The whole of what the backend sent has reached the client, and the framing says that it is the whole response.\<close>

definition body_complete :: "body_transfer_mode \<Rightarrow> nat \<Rightarrow> string \<Rightarrow> bool" where
  "body_complete mode n b \<longleftrightarrow>
     (case mode of
        BODY_MODE_CONTENT_LENGTH \<Rightarrow> n \<le> length b
      | BODY_MODE_CHUNKED \<Rightarrow> (\<exists>w rest. b = w @ rest \<and> chunked_body w)
      | _ \<Rightarrow> False)"

definition answer_complete :: "proxy_connection \<Rightarrow> bool \<Rightarrow> bool" where
  "answer_complete p closed \<longleftrightarrow>
     (\<exists>h h' b mode n. from_backend p = h @ b \<and> proxy_find_header_end (h @ b) = int (length h) \<and> same_framing h h' \<and>
        response_framing h (proxy_get_status_code h) = Some (mode, n) \<and> to_client p = h' @ b \<and>
        (body_complete mode n b \<or> closed \<and> mode \<noteq> BODY_MODE_CONTENT_LENGTH))"

definition ends_whole :: "proxy_connection \<Rightarrow> bool" where
  "ends_whole p \<longleftrightarrow> response_inv p \<and> (state p = PROXY_STATE_DONE \<longrightarrow> answer_complete p False)"

lemma answer_completeI:
  assumes "from_backend p = h @ b" "proxy_find_header_end (h @ b) = int (length h)" "same_framing h h'"
    "response_framing h (proxy_get_status_code h) = Some (mode, n)" "to_client p = h' @ b"
    "body_complete mode n b \<or> closed \<and> mode \<noteq> BODY_MODE_CONTENT_LENGTH"
  shows "answer_complete p closed"
  unfolding answer_complete_def using assms by blast

lemma scan_done: "chunk_state (scan_feed chunk_start b) = PROXY_CHUNK_DONE \<longleftrightarrow> (\<exists>w rest. b = w @ rest \<and> chunked_body w)"
  by (simp add: scan_feed_automaton chunk_start_wf scan_accepts expects_start)

lemma to_done_streams: "answer_complete (fst (to_done p)) c \<longleftrightarrow> answer_complete p c"
  by (simp add: to_done_def process_done_def proxy_shutdown_client_def Let_def answer_complete_def)

lemma answer_header_cong:
  assumes "from_backend q = from_backend p" "response_is_upgrade q = response_is_upgrade p" "response_body_mode q = response_body_mode p"
    "response_content_length q = response_content_length p" "chunks q = chunks p"
  shows "answer_header q h h' b \<longleftrightarrow> answer_header p h h' b"
  by (simp add: answer_header_def assms)

lemma streamsI: "answer_header p h h' b \<Longrightarrow> answer_sent p h' b \<Longrightarrow> streams p"
  unfolding streams_def by blast

lemma streams_updates [simp]:
  "streams (p\<lparr>state := s\<rparr>) \<longleftrightarrow> streams p" "streams (p\<lparr>client_events := e\<rparr>) \<longleftrightarrow> streams p"
  "streams (p\<lparr>backend_events := e\<rparr>) \<longleftrightarrow> streams p"
  by (simp_all add: streams_def answer_header_def answer_sent_def)

lemma streams_wait: "streams p \<Longrightarrow> ends_whole (fst (wait_write p))"
  by (simp add: ends_whole_def response_inv_def wait_write_def)

lemma stream_body_keeps:
  assumes "streams p" "response_header_sent p" "state p = PROXY_STATE_STREAMING"
  shows "ends_whole (fst (stream_body p))"
proof -
  obtain h h' b where a: "answer_header p h h' b" and s: "answer_sent p h' b"
    using assms(1) by (auto simp: streams_def)
  have le: "send_pos p \<le> length (response_buffer p)" and sent: "to_client p @ drop (send_pos p) (response_buffer p) = h' @ b"
      and up: "\<not> response_is_upgrade p" and acc: "length (to_client p) = length h' + response_body_sent p"
    using s assms(2) by (auto simp: answer_sent_def)
  obtain q oc where q: "send_body_loop p = (q, oc)" by fastforce
  from send_body_loop_shape [OF this le] obtain cs out k m where
      shape: "q = p\<lparr>client_sends := cs, to_client := to_client p @ out, send_pos := k, response_body_sent := m\<rparr>"
      and go: "oc \<noteq> Send_error \<Longrightarrow> k \<le> length (response_buffer p) \<and> out @ drop k (response_buffer p) = drop (send_pos p) (response_buffer p) \<and>
         m = response_body_sent p + length out"
      and all: "oc = All_sent \<Longrightarrow> k = length (response_buffer p)"
    by blast
  have sq: "answer_sent q h' b" if "oc \<noteq> Send_error"
    using go [OF that] sent up acc assms(2) by (simp add: answer_sent_def shape)
  have aq: "answer_header q h h' b"
    using a answer_header_cong [of q p] by (simp add: shape)
  let ?r = "q\<lparr>response_buffer := [], send_pos := 0\<rparr>"
  have wait: "ends_whole (fst (wait_write q))" if "oc = Must_wait"
    using sq that aq by (intro streams_wait streamsI [of _ h h' b]) simp_all
  have err: "ends_whole (fst (to_error q))"
    by (simp add: ends_whole_def error_keeps to_error_side)
  show ?thesis
  proof (cases oc)
    case All_sent
    have to: "to_client q = h' @ b"
      using sent go All_sent all by (simp add: shape)
    have body: "response_body_sent q = length b"
      using go All_sent acc arg_cong [OF to, of length] by (simp add: shape)
    have fin: "ends_whole (fst (to_done ?r))" if "body_complete (response_body_mode p) (response_content_length p) b"
    proof -
      have "answer_complete ?r False"
      proof (rule answer_completeI [of _ h b h' "response_body_mode p" "response_content_length p"])
        show "from_backend ?r = h @ b" "proxy_find_header_end (h @ b) = int (length h)" "same_framing h h'"
          "response_framing h (proxy_get_status_code h) = Some (response_body_mode p, response_content_length p)"
          using aq up by (simp_all add: answer_header_def shape)
      qed (use to that in simp_all)
      moreover from this have "client_has (from_backend ?r) (to_client ?r)"
        unfolding answer_complete_def client_has_def by (metis prefix_order.order_refl)
      ultimately show ?thesis
        using done_keeps [of ?r] to_done_streams [of ?r False] by (simp add: ends_whole_def)
    qed
    have "streams ?r"
    proof (rule streamsI)
      show "answer_header ?r h h' b"
        using aq answer_header_cong [of ?r q] by simp
      show "answer_sent ?r h' b"
        using to body up assms(2) by (simp add: shape answer_sent_def)
    qed
    then have stay: "ends_whole ?r"
      using assms(2,3) by (simp add: ends_whole_def response_inv_def shape)
    have ch: "chunk_state (chunks q) = PROXY_CHUNK_DONE \<Longrightarrow> response_body_mode p = BODY_MODE_CHUNKED \<Longrightarrow> \<exists>w rest. b = w @ rest \<and> chunked_body w"
      using aq up scan_done [of b] by (auto simp: answer_header_def shape split: if_splits)
    have "response_body_mode q = response_body_mode p" "response_content_length q = response_content_length p"
        "response_is_upgrade q = response_is_upgrade p"
      by (simp_all add: shape)
    then show ?thesis
      using fin stay ch body up by (auto simp: stream_body_def q All_sent Let_def body_complete_def)
  qed (use wait err in \<open>simp_all add: stream_body_def q\<close>)
qed

lemma flush_b2c_keeps:
  assumes "proxy_tunnel_flush_b2c p = (q, ok)" "relays p"
  shows "relays q" "state q = state p"
proof -
  have l: "tunnel_b2c_sent p \<le> tunnel_b2c_len p" "tunnel_b2c_len p \<le> length (response_buffer p)"
    using assms(2) by (simp_all add: relays_def)
  from flush_b2c_shape [OF assms(1) l] obtain cs out l k where
      q: "q = p\<lparr>client_sends := cs, to_client := to_client p @ out, tunnel_b2c_len := l, tunnel_b2c_sent := k\<rparr>"
      and le: "k \<le> l" "l \<le> length (response_buffer p)"
      and out: "out @ drop k (take l (response_buffer p)) = drop (tunnel_b2c_sent p) (take (tunnel_b2c_len p) (response_buffer p))"
    by blast
  show "state q = state p"
    by (simp add: q)
  show "relays q"
    using assms(2) le unfolding relays_def out [symmetric] by (simp add: q)
qed

lemma update_events_keeps: "response_inv (proxy_tunnel_update_events p) \<longleftrightarrow> response_inv p"
  "state (proxy_tunnel_update_events p) = state p"
  by (simp_all add: proxy_tunnel_update_events_def Let_def response_inv_def quiet_def awaits_header_def streams_def relays_def
      answer_header_def answer_sent_def cong: proxy_state.case_cong)

lemma tunnel_keeps:
  assumes "relays p" "state p = PROXY_STATE_WEBSOCKET_TUNNEL"
  shows "response_inv p" "response_inv (proxy_tunnel_update_events p)" "response_inv (fst (to_done p))"
proof -
  show "response_inv p"
    using assms by (simp add: response_inv_def)
  then show "response_inv (proxy_tunnel_update_events p)"
    by (simp add: update_events_keeps)
  show "response_inv (fst (to_done p))"
    by (rule done_keeps [OF relays_has [OF assms(1)]])
qed

lemma enter_tunnel_keeps:
  assumes "from_backend p = h @ b" "proxy_find_header_end (h @ b) = int (length h)" "send_pos p \<le> length (response_buffer p)"
    "to_client p @ drop (send_pos p) (response_buffer p) = h @ b"
  shows "ends_whole (fst (enter_tunnel p))"
proof -
  let ?q = "p\<lparr>state := PROXY_STATE_WEBSOCKET_TUNNEL, client_events := No_event, backend_events := No_event,
            tunnel_b2c_len := length (response_buffer p), tunnel_b2c_sent := send_pos p,
            tunnel_c2b_len := 0, tunnel_c2b_sent := 0\<rparr>"
  obtain r ok where r: "proxy_tunnel_flush_b2c ?q = (r, ok)" by fastforce
  have "relays ?q"
    using assms unfolding relays_def by auto
  from flush_b2c_keeps [OF r this] have rr: "relays r" "state r = PROXY_STATE_WEBSOCKET_TUNNEL" by simp_all
  have e: "enter_tunnel p =
      (if length (response_buffer p) \<le> send_pos p
       then (proxy_tunnel_update_events (?q\<lparr>tunnel_b2c_len := 0, tunnel_b2c_sent := 0\<rparr>), True)
       else if ok then (proxy_tunnel_update_events r, True) else to_error r)"
    by (simp add: enter_tunnel_def Let_def r)
  have "relays (?q\<lparr>tunnel_b2c_len := 0, tunnel_b2c_sent := 0\<rparr>)" if "length (response_buffer p) \<le> send_pos p"
    using assms that unfolding relays_def by auto
  then show ?thesis
    unfolding e ends_whole_def using tunnel_keeps [of r] tunnel_keeps [of "?q\<lparr>tunnel_b2c_len := 0, tunnel_b2c_sent := 0\<rparr>"] rr
    by (simp add: error_keeps to_error_side update_events_keeps)
qed

lemma process_streaming_keeps:
  assumes "streams p" "state p = PROXY_STATE_STREAMING"
  shows "ends_whole (fst (process_streaming p))"
proof (cases "response_header_sent p")
  case True
  with assms show ?thesis by (simp add: process_streaming_def stream_body_keeps)
next
  case False
  obtain h h' b where a: "answer_header p h h' b" and s: "answer_sent p h' b"
    using assms(1) by (auto simp: streams_def)
  have rb: "response_buffer p = h' @ b" "response_header_end p = length h'" "send_pos p \<le> length h'"
      and sent: "to_client p @ drop (send_pos p) (response_buffer p) = h' @ b"
      and none: "\<not> response_is_upgrade p \<longrightarrow> response_body_sent p = 0"
    using s False by (auto simp: answer_sent_def)
  obtain q oc where q: "send_header_loop p = (q, oc)" by fastforce
  from send_header_loop_shape [OF this] rb obtain cs out k where
      shape: "q = p\<lparr>client_sends := cs, to_client := to_client p @ out, send_pos := k\<rparr>"
      and go: "oc \<noteq> Send_error \<Longrightarrow> k \<le> length h' \<and> out @ drop k (response_buffer p) = drop (send_pos p) (response_buffer p)"
      and all: "oc = All_sent \<Longrightarrow> k = length h'"
    by auto
  have aq: "answer_header q h h' b"
    using a answer_header_cong [of q p] by (simp add: shape)
  have sq: "answer_sent q h' b" if "oc \<noteq> Send_error"
  proof -
    have "(to_client p @ out) @ drop k (response_buffer p) = h' @ b"
      using sent go [OF that] by (metis append_assoc)
    then show ?thesis
      using go [OF that] rb none False by (simp add: answer_sent_def shape)
  qed
  have wait: "ends_whole (fst (wait_write q))" if "oc = Must_wait"
    using sq that aq by (intro streams_wait streamsI [of _ h h' b]) simp_all
  have err: "ends_whole (fst (to_error q))"
    by (simp add: ends_whole_def error_keeps to_error_side)
  show ?thesis
  proof (cases oc)
    case All_sent
    let ?r = "q\<lparr>response_header_sent := True\<rparr>"
    have rest: "to_client q @ b = h' @ b" "drop k (response_buffer p) = b" "k = length h'"
      using sq All_sent all rb by (simp_all add: answer_sent_def shape)
    then have to: "to_client q = h'" by simp
    have "ends_whole (fst (enter_tunnel ?r))" if "response_is_upgrade p"
      using aq that rest rb to by (intro enter_tunnel_keeps [of _ h b]) (simp_all add: answer_header_def shape)
    moreover have "ends_whole (fst (stream_body ?r))" if "\<not> response_is_upgrade p"
    proof (rule stream_body_keeps)
      have "answer_sent ?r h' b"
        using rest rb to that none by (simp add: answer_sent_def shape)
      moreover have "answer_header ?r h h' b"
        using aq answer_header_cong [of ?r q] by simp
      ultimately show "streams ?r"
        unfolding streams_def by blast
    qed (use assms(2) in \<open>simp_all add: shape\<close>)
    ultimately show ?thesis
      by (simp add: process_streaming_def False q All_sent Let_def shape)
  qed (use wait err in \<open>simp_all add: process_streaming_def False q\<close>)
qed

lemma start_streaming_keeps:
  assumes "from_backend p = h @ b" "proxy_find_header_end (h @ b) = int (length h)" "same_framing h h'"
    and "response_buffer p = h' @ b" "response_header_end p = length h'" "to_client p = []" "chunks p = chunk_start"
    and "\<not> response_is_upgrade p" "response_framing h (proxy_get_status_code h) = Some (mode, n)"
  shows "ends_whole (fst (start_streaming p mode n))"
proof -
  have d: "drop (response_header_end p) (response_buffer p) = b"
    using assms(4,5) by simp
  have c: "(if mode = BODY_MODE_CHUNKED \<and> 0 < length b then fst (proxy_chunked_scan chunk_start b) else chunk_start) =
      (if mode = BODY_MODE_CHUNKED then scan_feed chunk_start b else chunk_start)"
    using scan.feed_Nil [OF chunk_start_wf] by (auto simp: scan_feed_def)
  let ?s = "p\<lparr>response_body_mode := mode, response_content_length := n, response_body_received := length b,
    chunks := (if mode = BODY_MODE_CHUNKED then scan_feed chunk_start b else chunk_start),
    backend_events := (if mode = BODY_MODE_CONTENT_LENGTH \<and> n \<le> length b then No_event else backend_events p),
    state := PROXY_STATE_STREAMING, send_pos := 0, response_header_sent := False, response_body_sent := 0\<rparr>"
  have "start_streaming p mode n = process_streaming ?s"
    unfolding start_streaming_def Let_def d c [symmetric] using assms(7) by (cases p) auto
  moreover have "ends_whole (fst (process_streaming ?s))"
  proof (rule process_streaming_keeps, rule streamsI)
    show "answer_header ?s h h' b"
      using assms(1,2,3,8,9) by (simp add: answer_header_def)
    show "answer_sent ?s h' b"
      using assms(4,5,6,8) by (simp add: answer_sent_def)
  qed simp
  ultimately show ?thesis by simp
qed

lemma process_backend_header_keeps:
  assumes "awaits_header p" "state p = PROXY_STATE_RECV_BACKEND_HEADER"
  shows "ends_whole (fst (process_backend_header sys p))"
proof (cases "proxy_find_header_end (response_buffer p) < 0")
  case True
  with assms show ?thesis
    by (simp add: process_backend_header_def Let_def ends_whole_def response_inv_def)
next
  case False
  define n where "n = nat (proxy_find_header_end (response_buffer p))"
  define h where "h = take n (response_buffer p)"
  define b where "b = drop n (response_buffer p)"
  have found: "proxy_find_header_end (response_buffer p) = int n"
    using False by (simp add: n_def)
  have n: "n \<le> length (response_buffer p)" and eh: "ends_header h"
    using find_header_end_split [OF found] by (simp_all add: h_def)
  have hb: "response_buffer p = h @ b" "length h = n"
    using n by (simp_all add: h_def b_def)
  have find: "proxy_find_header_end (h @ b) = int (length h)"
    using found hb by simp
  have w: "to_client p = []" "from_backend p = h @ b" "chunks p = chunk_start" "\<not> response_header_sent p" "send_pos p = 0"
    using assms(1) hb by (simp_all add: awaits_header_def)
  let ?p = "p\<lparr>response_header_end := n, response_status_code := proxy_get_status_code h, response_is_upgrade := False\<rparr>"
  let ?u = "?p\<lparr>response_is_upgrade := True, state := PROXY_STATE_STREAMING\<rparr>"
  have err: "ends_whole (fst (to_error q))" for q
    by (simp add: ends_whole_def error_keeps to_error_side)
  have up: "ends_whole (fst (process_streaming ?u))"
  proof (rule process_streaming_keeps, rule streamsI)
    show "answer_header ?u h h b"
      using w find by (simp add: answer_header_def)
    show "answer_sent ?u h b"
      using w hb by (simp add: answer_sent_def)
  qed simp
  obtain q ok where q: "proxy_inject_connection_close sys ?p = (q, ok)" by fastforce
  from inject_close_response [OF q, of h b] hb eh obtain buf size m where
      shape: "q = ?p\<lparr>response_buffer := buf, response_buffer_size := size, response_header_end := m\<rparr>"
      and ok: "ok \<longrightarrow> (\<exists>h'. buf = h' @ b \<and> m = length h' \<and> same_framing h h')"
    by auto
  have go: "ends_whole (fst (case response_framing (take (response_header_end q) (response_buffer q)) (response_status_code q) of
      None \<Rightarrow> to_error q | Some (mode, k) \<Rightarrow> start_streaming q mode k))" if ok
  proof -
    from ok that obtain h' where h': "buf = h' @ b" "m = length h'" "same_framing h h'" by blast
    have f: "response_framing (take (response_header_end q) (response_buffer q)) (response_status_code q) =
        response_framing h (proxy_get_status_code h)"
      using same_framing_decisions(2) [OF h'(3)] by (simp add: shape h'(1,2))
    have "ends_whole (fst (start_streaming q mode k))" if "response_framing h (proxy_get_status_code h) = Some (mode, k)" for mode k
      using w h' find that by (intro start_streaming_keeps [of _ h b h']) (simp_all add: shape)
    then show ?thesis
      unfolding f using err by (auto split: option.split)
  qed
  have hn: "take n (response_buffer p) = h"
    by (simp add: h_def)
  have "process_backend_header sys p =
      (case proxy_parse_response_header (take (request_header_end p) (request_buffer p)) h of
         None \<Rightarrow> to_error ?p
       | Some (status, True) \<Rightarrow> process_streaming ?u
       | Some (status, False) \<Rightarrow> if ok then case response_framing (take (response_header_end q) (response_buffer q)) (response_status_code q) of
           None \<Rightarrow> to_error q | Some (mode, k) \<Rightarrow> start_streaming q mode k else to_error q)"
    unfolding process_backend_header_def Let_def found nat_int hn
    using q by (cases ok) (simp_all add: hn split: option.split bool.split)
  then show ?thesis
    using err up go by (auto split: option.split bool.split prod.split)
qed

lemma process_ends_keeps:
  assumes "response_inv p"
  shows "state p = PROXY_STATE_ERROR \<Longrightarrow> response_inv (fst (process_error p))"
    and "state p = PROXY_STATE_DONE \<Longrightarrow> response_inv (fst (process_done p))"
proof -
  have same: "p\<lparr>state := s\<rparr> = p" if "state p = s" for s
    using that by (cases p) simp
  show "response_inv (fst (process_error p))" if s: "state p = PROXY_STATE_ERROR"
    using error_keeps(1) [of p] by (simp only: to_error_def same [OF s])
  show "response_inv (fst (process_done p))" if s: "state p = PROXY_STATE_DONE"
  proof -
    have "client_has (from_backend p) (to_client p)"
      using assms s by (simp add: response_inv_def)
    from done_keeps [OF this] show ?thesis
      by (simp only: to_done_def same [OF s])
  qed
qed

lemma whole_keeps: "ends_whole p \<Longrightarrow> response_inv p"
  by (simp add: ends_whole_def)

lemma proxy_process_state_keeps:
  assumes "response_inv p"
  shows "response_inv (fst (proxy_process_state sys p))"
proof (cases "state p")
  case PROXY_STATE_RECV_CLIENT_HEADER
  with assms process_client_header_keeps [of p sys] show ?thesis
    by (simp add: proxy_process_state_def response_inv_def [of p])
next
  case PROXY_STATE_RECV_CLIENT_BODY
  with assms process_client_body_keeps [of p sys] show ?thesis
    by (simp add: proxy_process_state_def response_inv_def [of p])
next
  case PROXY_STATE_SEND_TO_BACKEND
  with assms process_send_keeps [of p sys] show ?thesis
    by (simp add: proxy_process_state_def response_inv_def [of p])
next
  case PROXY_STATE_RECV_BACKEND_HEADER
  with assms process_backend_header_keeps [of p sys] show ?thesis
    by (simp add: proxy_process_state_def response_inv_def [of p] whole_keeps)
next
  case PROXY_STATE_STREAMING
  with assms process_streaming_keeps [of p] show ?thesis
    by (simp add: proxy_process_state_def response_inv_def [of p] whole_keeps)
next
  case PROXY_STATE_ERROR
  with process_ends_keeps(1) [OF assms] show ?thesis
    by (simp add: proxy_process_state_def)
next
  case PROXY_STATE_DONE
  with process_ends_keeps(2) [OF assms] show ?thesis
    by (simp add: proxy_process_state_def)
qed (use assms in \<open>simp_all add: proxy_process_state_def, simp_all add: response_inv_def\<close>)

subsection \<open>The handlers\<close>

lemma client_receive_keeps:
  assumes "quiet p" "state p = PROXY_STATE_RECV_CLIENT_HEADER \<or> state p = PROXY_STATE_RECV_CLIENT_BODY"
  shows "response_inv (fst (case client_read_loop p of (q, False) \<Rightarrow> to_error q | (q, True) \<Rightarrow> proxy_process_state sys q))"
proof -
  obtain q ok where q: "client_read_loop p = (q, ok)" by fastforce
  from client_read_loop_shape [OF this] obtain rs e d f where
      shape: "q = p\<lparr>client_reads := rs, ssl_pending := e, from_client := d, request_buffer := f\<rparr>"
    by blast
  have "response_inv q"
    using assms by (auto simp: shape response_inv_def quiet_def)
  then show ?thesis
    using proxy_process_state_keeps [of q sys] by (cases ok) (simp_all add: q error_keeps)
qed

text \<open>The direction from client to backend leaves the other one alone.\<close>

definition response_stage :: "proxy_connection \<Rightarrow> string \<times> string \<times> string \<times> nat \<times> nat \<times> proxy_state" where
  "response_stage p = (to_client p, from_backend p, response_buffer p, tunnel_b2c_len p, tunnel_b2c_sent p, state p)"

lemma response_stage_updates [simp]:
  "response_stage (p\<lparr>tunnel_c2b_len := n\<rparr>) = response_stage p"
  "response_stage (p\<lparr>tunnel_c2b_sent := n\<rparr>) = response_stage p"
  "response_stage (p\<lparr>request_buffer := d\<rparr>) = response_stage p"
  by (simp_all add: response_stage_def)

lemma response_stage_sockets:
  "backend_send p d = (q, a) \<Longrightarrow> response_stage q = response_stage p"
  "WebserverRecv p n = (q, r) \<Longrightarrow> response_stage q = response_stage p"
  using backend_send_shape [of p d q a] WebserverRecv_shape [of p n q r] by (auto simp: response_stage_def)

lemma flush_c2b_other: "response_stage (fst (proxy_tunnel_flush_c2b p)) = response_stage p"
proof (induction p rule: proxy_tunnel_flush_c2b.induct)
  case (1 p)
  show ?case
    by (subst proxy_tunnel_flush_c2b.simps)
      (auto split: prod.splits send_answer.splits simp: 1 response_stage_sockets(1))
qed

lemma relays_stage: "response_stage q = response_stage p \<Longrightarrow> relays p \<Longrightarrow> relays q"
  by (simp add: response_stage_def relays_def)

lemma tunnel_read_loop_keeps:
  "relays p \<Longrightarrow> state p = PROXY_STATE_WEBSOCKET_TUNNEL \<Longrightarrow> response_inv (fst (tunnel_read_loop p))"
proof (induction "length (client_reads p)" arbitrary: p rule: less_induct)
  case less
  show ?case
  proof (cases "tunnel_c2b_len p = 0")
    case False
    then show ?thesis
      using tunnel_keeps [OF less.prems] by (simp add: tunnel_read_loop.simps [of p])
  next
    case True
    obtain q a where q: "WebserverRecv p (request_buffer_size p) = (q, a)" by fastforce
    have sq: "response_stage q = response_stage p"
      using response_stage_sockets(2) [OF q] .
    have rq: "relays q" "state q = PROXY_STATE_WEBSOCKET_TUNNEL"
      using relays_stage [OF sq] sq less.prems by (simp_all add: response_stage_def)
    show ?thesis
    proof (cases a)
      case (Received d)
      define r where "r = q\<lparr>request_buffer := d, tunnel_c2b_len := length d, tunnel_c2b_sent := 0\<rparr>"
      obtain s ok where s: "(if backend_open r then proxy_tunnel_flush_c2b r else (r, True)) = (s, ok)"
        by fastforce
      have "response_stage s = response_stage r"
        using s flush_c2b_other [of r] by (auto split: if_splits)
      then have ss: "response_stage s = response_stage q"
        by (simp add: r_def)
      then have rs: "relays s" "state s = PROXY_STATE_WEBSOCKET_TUNNEL"
        using relays_stage [OF ss] rq by (simp_all add: response_stage_def)
      have "client_reads s = client_reads q"
        using s flush_c2b_reads [of r] by (auto simp: r_def split: if_splits)
      moreover have "length (client_reads q) < length (client_reads p)"
        using q Received by (auto simp: WebserverRecv_def split: list.splits read_answer.splits if_splits)
      ultimately have "response_inv (fst (tunnel_read_loop s))"
        using less.hyps [OF _ rs] by simp
      moreover have "tunnel_read_loop p = (if ok then if \<not> ssl_pending s then (proxy_tunnel_update_events s, True)
          else tunnel_read_loop s else to_error s)"
        by (subst tunnel_read_loop.simps)
          (simp only: True simp_thms if_True q Received prod.case read_answer.case Let_def r_def [symmetric] s,
            cases ok, simp_all)
      ultimately show ?thesis
        using tunnel_keeps [OF rs] by (simp add: error_keeps)
    qed (use True tunnel_keeps [OF rq] in \<open>subst tunnel_read_loop.simps, simp add: q\<close>)+
  qed
qed

lemma client_handler_keeps:
  assumes "response_inv p"
  shows "response_inv (fst (reverse_proxy_client_handler sys p))"
proof (cases "state p")
  case PROXY_STATE_RECV_CLIENT_HEADER
  with client_receive_keeps [of p sys] assms show ?thesis
    by (simp add: reverse_proxy_client_handler_def response_inv_def [of p])
next
  case PROXY_STATE_RECV_CLIENT_BODY
  with client_receive_keeps [of p sys] assms show ?thesis
    by (simp add: reverse_proxy_client_handler_def response_inv_def [of p])
next
  case PROXY_STATE_STREAMING_WAIT_WRITE
  have "ends_whole (fst (process_streaming (p\<lparr>client_events := Peer_close_persist, backend_events := Read_persist,
      state := PROXY_STATE_STREAMING\<rparr>)))"
    by (rule process_streaming_keeps)
      (use assms PROXY_STATE_STREAMING_WAIT_WRITE in \<open>simp_all add: response_inv_def\<close>)
  with PROXY_STATE_STREAMING_WAIT_WRITE show ?thesis
    by (simp add: reverse_proxy_client_handler_def whole_keeps)
next
  case PROXY_STATE_WEBSOCKET_TUNNEL
  then have r: "relays p" using assms by (simp add: response_inv_def)
  obtain q ok where q: "(if 0 < tunnel_b2c_len p then proxy_tunnel_flush_b2c p else (p, True)) = (q, ok)" by fastforce
  have rq: "relays q" "state q = PROXY_STATE_WEBSOCKET_TUNNEL"
    using q flush_b2c_keeps [of p q ok] r PROXY_STATE_WEBSOCKET_TUNNEL by (auto split: if_splits)
  with q show ?thesis
    using PROXY_STATE_WEBSOCKET_TUNNEL tunnel_read_loop_keeps [OF rq] tunnel_keeps [OF rq]
    by (cases ok) (simp_all add: reverse_proxy_client_handler_def)
next
  case PROXY_STATE_SEND_TO_BACKEND
  with assms show ?thesis
    by (simp add: reverse_proxy_client_handler_def done_keeps quiet_has response_inv_def [of p])
next
  case PROXY_STATE_RECV_BACKEND_HEADER
  with assms show ?thesis
    by (simp add: reverse_proxy_client_handler_def done_keeps quiet_has response_inv_def [of p])
next
  case PROXY_STATE_STREAMING
  with assms show ?thesis
    by (simp add: reverse_proxy_client_handler_def done_keeps streams_has response_inv_def [of p])
qed (use assms proxy_process_state_keeps [OF assms, of sys] in
    \<open>simp_all add: reverse_proxy_client_handler_def, simp_all add: response_inv_def\<close>)

lemma find_grows: "proxy_find_header_end (h @ b) = int (length h) \<Longrightarrow> proxy_find_header_end (h @ b @ d) = int (length h)"
  using find_header_end_append [of "h @ b" "length h" d] by simp

lemma backend_tunnel_keeps:
  assumes "relays p" "state p = PROXY_STATE_WEBSOCKET_TUNNEL"
  shows "response_inv (fst (backend_tunnel_read p))" "response_inv (fst (backend_tunnel sys p))"
proof -
  have read: "response_inv (fst (backend_tunnel_read p))"
    if p: "relays p" "state p = PROXY_STATE_WEBSOCKET_TUNNEL" for p
  proof (cases "tunnel_b2c_len p = 0")
    case False
    then show ?thesis
      using tunnel_keeps [OF p] by (simp add: backend_tunnel_read_def)
  next
    case True
    obtain q a where q: "backend_recv p (response_buffer_size p) = (q, a)" by fastforce
    from backend_recv_shape [OF this] obtain rs d where shape: "q = p\<lparr>backend_reads := rs, from_backend := from_backend p @ d\<rparr>"
        and a: "case a of Received e \<Rightarrow> e = d | _ \<Rightarrow> d = []"
      by blast
    obtain h b where hb: "from_backend p = h @ b" "proxy_find_header_end (h @ b) = int (length h)" "to_client p = h @ b"
      using p(1) True by (auto simp: relays_def)
    have same: "relays q \<and> state q = PROXY_STATE_WEBSOCKET_TUNNEL" if "d = []"
      using p that by (simp add: shape relays_def)
    let ?r = "q\<lparr>response_buffer := d, tunnel_b2c_len := length d, tunnel_b2c_sent := 0\<rparr>"
    have "relays ?r"
      unfolding relays_def
      by (intro conjI, rule exI [of _ h], rule exI [of _ "b @ d"]) (use hb find_grows [OF hb(2)] in \<open>simp_all add: shape\<close>)
    moreover obtain s ok where s: "proxy_tunnel_flush_b2c ?r = (s, ok)" by fastforce
    ultimately have rs: "relays s" "state s = PROXY_STATE_WEBSOCKET_TUNNEL"
      using flush_b2c_keeps [OF s] p(2) by (simp_all add: shape)
    show ?thesis
    proof (cases a)
      case (Received e)
      then have "e = d" using a by simp
      then show ?thesis
        using same tunnel_keeps [of q] tunnel_keeps [OF rs] True Received s
        by (cases ok; cases "d = []") (simp_all add: backend_tunnel_read_def q error_keeps)
    qed (use a same tunnel_keeps [of q] True in \<open>simp_all add: backend_tunnel_read_def q\<close>)
  qed
  show "response_inv (fst (backend_tunnel_read p))"
    by (rule read [OF assms])
  obtain q ok where q: "proxy_tunnel_flush_c2b p = (q, ok)" by fastforce
  have sq: "response_stage q = response_stage p"
    using flush_c2b_other [of p] by (simp add: q)
  have rq: "relays q" "state q = PROXY_STATE_WEBSOCKET_TUNNEL"
    using relays_stage [OF sq] sq assms by (simp_all add: response_stage_def)
  show "response_inv (fst (backend_tunnel sys p))"
    using read [OF rq] read [OF assms] tunnel_keeps [OF rq] client_handler_keeps [of q sys]
    by (cases ok) (simp_all add: backend_tunnel_def q error_keeps)
qed

text \<open>The backend has closed its end: a read gives no byte.\<close>

definition backend_closes :: "proxy_connection \<Rightarrow> bool" where
  "backend_closes p \<longleftrightarrow> (case backend_reads p of Received d # _ \<Rightarrow> take (response_buffer_size p) d = [] | _ \<Rightarrow> False)"

lemma answer_complete_closed: "answer_complete p False \<Longrightarrow> answer_complete p c"
  unfolding answer_complete_def by blast

lemma answer_complete_has: "answer_complete p c \<Longrightarrow> client_has (from_backend p) (to_client p)"
  unfolding answer_complete_def client_has_def by (metis prefix_order.order_refl)

definition ends_answer :: "proxy_connection \<Rightarrow> bool \<Rightarrow> bool" where
  "ends_answer p closed \<longleftrightarrow> response_inv p \<and> (state p = PROXY_STATE_DONE \<longrightarrow> answer_complete p closed)"

lemma ends_answerI:
  "ends_whole p \<Longrightarrow> ends_answer p c" "answer_complete q c \<Longrightarrow> ends_answer (fst (to_done q)) c" "ends_answer (fst (to_error q)) c"
  by (auto simp: ends_answer_def ends_whole_def error_keeps to_error_side to_done_streams
      intro: answer_complete_closed done_keeps answer_complete_has)

lemma backend_streaming_keeps:
  assumes "streams p" "response_header_sent p" "state p = PROXY_STATE_STREAMING"
  shows "ends_answer (fst (backend_streaming p)) (backend_closes p)"
proof (cases "send_pos p < length (response_buffer p)")
  case True
  then show ?thesis
    using process_streaming_keeps [OF assms(1,3)] by (simp add: backend_streaming_def ends_answerI)
next
  case False
  obtain h h' b where a: "answer_header p h h' b" and s: "answer_sent p h' b"
    using assms(1) by (auto simp: streams_def)
  have to: "to_client p = h' @ b" and up: "\<not> response_is_upgrade p" and "length (to_client p) = length h' + response_body_sent p"
    using s assms(2) False by (auto simp: answer_sent_def)
  then have acc: "response_body_sent p = length b" by simp
  have hdr: "from_backend p = h @ b" "proxy_find_header_end (h @ b) = int (length h)" "same_framing h h'"
      "response_framing h (proxy_get_status_code h) = Some (response_body_mode p, response_content_length p)"
      and ch: "response_body_mode p = BODY_MODE_CHUNKED \<Longrightarrow> chunks p = scan_feed chunk_start b"
    using a up by (simp_all add: answer_header_def)
  have complete: "answer_complete r c" if "from_backend r = from_backend p" "to_client r = to_client p"
    "body_complete (response_body_mode p) (response_content_length p) b \<or> c \<and> response_body_mode p \<noteq> BODY_MODE_CONTENT_LENGTH" for r c
    using that to hdr by (intro answer_completeI [of _ h b h' "response_body_mode p" "response_content_length p"]) simp_all
  show ?thesis
  proof (cases "response_body_mode p = BODY_MODE_CONTENT_LENGTH \<and> response_content_length p \<le> response_body_sent p")
    case True
    then have "ends_answer (fst (to_done p)) (backend_closes p)"
      using acc by (intro ends_answerI(2) complete) (simp_all add: body_complete_def)
    with False True show ?thesis
      by (simp add: backend_streaming_def)
  next
    case unfinished: False
    let ?p = "p\<lparr>response_buffer := [], send_pos := 0\<rparr>"
    obtain q x where q: "backend_recv ?p (response_buffer_size p) = (q, x)" by fastforce
    have fb: "from_backend ?p = from_backend p" by simp
    from backend_recv_shape [OF q] obtain rs d where
        shape: "q = ?p\<lparr>backend_reads := rs, from_backend := from_backend p @ d\<rparr>"
        and x: "case x of Received e \<Rightarrow> e = d | _ \<Rightarrow> d = []"
      unfolding fb by blast
    have unfold: "backend_streaming p =
        (case (q, x) of (q, Read_blocked) \<Rightarrow> (q, True) | (q, Read_broken) \<Rightarrow> to_error q
         | (q, Received d) \<Rightarrow>
            if d = [] then
              if response_body_mode q = BODY_MODE_CHUNKED \<and> chunk_state (chunks q) \<noteq> PROXY_CHUNK_DONE then to_done q
              else if response_body_mode q = BODY_MODE_CLOSE \<or> response_body_sent q \<ge> response_content_length q then to_done q
              else to_error q
            else process_streaming (if response_body_mode q = BODY_MODE_CHUNKED
              then q\<lparr>response_buffer := d, chunks := fst (proxy_chunked_scan (chunks q) d)\<rparr> else q\<lparr>response_buffer := d\<rparr>))"
      unfolding backend_streaming_def if_not_P [OF False] if_not_P [OF unfinished] Let_def q by (cases x) simp_all
    show ?thesis
    proof (cases x)
      case Read_blocked
      then have "d = []" using x by simp
      then have "streams q"
        using a s to acc up assms(2) by (intro streamsI [of _ h h' b]) (simp_all add: shape answer_header_def answer_sent_def)
      then have "ends_answer q (backend_closes p)"
        using assms(2,3) by (simp add: ends_answer_def response_inv_def shape)
      then show ?thesis by (simp add: unfold Read_blocked)
    next
      case Read_broken
      then show ?thesis by (simp add: unfold ends_answerI)
    next
      case (Received e)
      then have e: "e = d" using x by simp
      show ?thesis
      proof (cases "d = []")
        case True
        have "backend_closes p"
          using q Received e True by (auto simp: backend_recv_def backend_closes_def split: list.splits read_answer.splits)
        moreover have "ends_answer (fst (to_done q)) True"
          if "response_body_mode p = BODY_MODE_CONTENT_LENGTH \<longrightarrow> response_content_length p \<le> response_body_sent p"
          using that acc True by (intro ends_answerI(2) complete) (auto simp: shape body_complete_def)
        ultimately show ?thesis
          using unfinished by (auto simp: unfold Received e True shape ends_answerI)
      next
        case False
        let ?r = "if response_body_mode q = BODY_MODE_CHUNKED
              then q\<lparr>response_buffer := d, chunks := fst (proxy_chunked_scan (chunks q) d)\<rparr> else q\<lparr>response_buffer := d\<rparr>"
        have "scan_feed (scan_feed chunk_start b) d = scan_feed chunk_start (b @ d)"
          using scan.feed_append [OF chunk_start_wf] by simp
        then have "answer_header ?r h h' (b @ d)"
          using hdr ch up find_grows [OF hdr(2), of d] by (auto simp: answer_header_def shape scan_feed_def)
        moreover have "answer_sent ?r h' (b @ d)"
          using to acc up assms(2) by (simp add: answer_sent_def shape)
        ultimately have "streams ?r"
          by (rule streamsI)
        then have "ends_whole (fst (process_streaming ?r))"
          by (rule process_streaming_keeps) (simp add: shape assms(3))
        with False show ?thesis
          by (simp add: unfold Received e ends_answerI)
      qed
    qed
  qed
qed

lemma backend_handler_keeps:
  assumes "response_inv p"
  shows "response_inv (fst (reverse_proxy_backend_handler sys p))"
proof (cases "state p")
  case PROXY_STATE_SEND_TO_BACKEND
  obtain q ok where q: "proxy_process_state sys p = (q, ok)" by fastforce
  then have "response_inv q"
    using proxy_process_state_keeps [OF assms, of sys] by simp
  with PROXY_STATE_SEND_TO_BACKEND show ?thesis
    by (simp add: reverse_proxy_backend_handler_def q proxy_process_state_keeps)
next
  case PROXY_STATE_RECV_BACKEND_HEADER
  then have a: "awaits_header p" using assms by (simp add: response_inv_def)
  obtain q x where q: "backend_recv p (response_buffer_size p - length (response_buffer p)) = (q, x)" by fastforce
  from backend_recv_shape [OF this] obtain rs d where shape: "q = p\<lparr>backend_reads := rs, from_backend := from_backend p @ d\<rparr>"
      and x: "case x of Received e \<Rightarrow> e = d | _ \<Rightarrow> d = []"
    by blast
  have stay: "response_inv q" if "d = []"
    using a that PROXY_STATE_RECV_BACKEND_HEADER by (simp add: shape response_inv_def awaits_header_def)
  have "response_inv (q\<lparr>response_buffer := response_buffer q @ d\<rparr>)"
    using a PROXY_STATE_RECV_BACKEND_HEADER by (simp add: shape response_inv_def awaits_header_def)
  from proxy_process_state_keeps [OF this, of sys] stay x show ?thesis
    using PROXY_STATE_RECV_BACKEND_HEADER by (cases x) (simp_all add: reverse_proxy_backend_handler_def q error_keeps)
next
  case PROXY_STATE_STREAMING
  with assms backend_streaming_keeps [of p] show ?thesis
    by (simp add: reverse_proxy_backend_handler_def response_inv_def [of p] ends_answer_def)
next
  case PROXY_STATE_WEBSOCKET_TUNNEL
  with assms backend_tunnel_keeps(2) [of p sys] show ?thesis
    by (simp add: reverse_proxy_backend_handler_def response_inv_def [of p])
qed (use proxy_process_state_keeps [OF assms, of sys] in \<open>simp_all add: reverse_proxy_backend_handler_def\<close>)

lemma proxied_response: "proxied p \<Longrightarrow> response_inv p"
proof (induction rule: proxied.induct)
  case (started sys answers regs s buffer s' p)
  from checkReverseProxy_starts [OF this] obtain q r alive where q: "fresh_connection q" "proxy_process_state sys q = (r, alive)"
      and p: "p = r \<or> p = r\<lparr>client_events := Read_persist\<rparr>"
    by blast
  have "response_inv q"
    using q(1) by (simp add: fresh_connection_def response_inv_def quiet_def)
  then have "response_inv r"
    using proxy_process_state_keeps [of q sys] q(2) by simp
  moreover have "response_inv (r\<lparr>client_events := e\<rparr>) \<longleftrightarrow> response_inv r" for e
    by (simp add: response_inv_def quiet_def awaits_header_def relays_def cong: proxy_state.case_cong)
  ultimately show ?case
    using p by auto
next
  case (client p sys p' alive)
  then show ?case using client_handler_keeps [of p sys] by simp
next
  case (backend p sys p' alive)
  then show ?case using backend_handler_keeps [of p sys] by simp
qed

subsection \<open>What the client gets\<close>



text \<open>The example of \<open>ProxyRelay\<close>, up to its end.\<close>

lemma example_proxied: "proxied example_streaming" "proxied example_done"
proof -
  show s: "proxied example_streaming"
    unfolding example_streaming_def by (rule proxied.backend [OF example_started]) (rule prod.collapse [symmetric])
  show "proxied example_done"
    unfolding example_done_def by (rule proxied.backend [OF s]) (rule prod.collapse [symmetric])
qed



end
