(* ===== verification/Spec2Isabelle.thy ===== *)
theory Spec2Isabelle
  imports Base64 HashMap MessageQueue Sha1 RequestHeaders VariableTree WebsocketProtocol PostStreamSafety ProxyResponse
begin

text \<open>
  libCWebUI is an embeddable web server in C. A connection's bytes arrive in \<open>lib/src/server.c\<close>, the
  request header is parsed (\<open>header_parser.c\<close>, \<open>cookie.c\<close>), and the request is answered from a file or
  a template, becomes a websocket (\<open>websockets*.c\<close>), uploads a form (\<open>post_streaming.c\<close>), or is handed
  to another server (\<open>reverse_proxy.c\<close>). Parameters, cookies, sessions and templates keep their values in
  variable stores (\<open>variable*.c\<close>). Below these are the data structures (\<open>linked_list.c\<close>, \<open>hashmap.c\<close>,
  \<open>message_queue.c\<close>) and the conversions (\<open>utils.c\<close>, \<open>convert.c\<close>, \<open>base64.c\<close>, \<open>sha1.c\<close>).

  \<^bold>\<open>What models what.\<close> Each definition has the name of the C function or type it translates; a loop
  is a function of its own, named after it.

  \<^item> \<open>Prelude\<close>: C strings and buffers as lists, bytes and words, the C library functions the sources use
    (\<open>strncmp\<close>, \<open>strncasecmp\<close> and the like), and the locale \<open>chunked\<close>, the contract of a consumer that is fed a
    stream in pieces: what it has seen depends on the bytes and not on where they were cut. SHA-1, the
    websocket receiver and the chunk scanner of the proxy are interpretations of it.
  \<^item> \<open>StringUtils\<close>, \<open>Base64\<close>, \<open>Sha1\<close>: \<open>utils.c\<close>, \<open>convert.c\<close>, \<open>base64.c\<close>, \<open>sha1.c\<close>. Percent decoding in
    place equals a decoder that builds its result, and undoes the encoding; the encoder is inverted by a decoder;
    the whole of SHA-1 equals a definition after FIPS 180-4. The substring search is exact for patterns
    without repetition at their start and misses matches otherwise.
  \<^item> \<open>LinkedList\<close>, \<open>CellList\<close>, \<open>MessageQueue\<close>, \<open>HashMap\<close>: \<open>linked_list.c\<close> on an explicit heap of
    entries, its contract as sequences of entries, \<open>message_queue.c\<close> with the threads that push and pop as
    a step relation, \<open>hashmap.c\<close> with both hash functions and the growth of the table. The locale \<open>fifo\<close>
    and the locale \<open>string_map\<close> are what clients rely on, and hold of the code.
  \<^item> \<open>Variables\<close>, \<open>VariableTables\<close>, \<open>VariableTree\<close>: \<open>variable.c\<close>, \<open>variable_store.c\<close>,
    \<open>variable_global.c\<close>, \<open>variable_render.c\<close> on a heap of variables and stores. A store of plain values is a
    table (locale \<open>named_texts\<close>); numbers survive their text; deleting a store frees the tree it owns and
    nothing else.
  \<^item> \<open>PairScan\<close>, \<open>HeaderParser\<close>, \<open>RequestHeaders\<close>: \<open>header_parser.c\<close> and \<open>cookie.c\<close>, with the parameters
    in the stores of \<open>Variables\<close>. Query strings and cookies are read as their grammar says, an accepted path
    does not leave the document root, Content-Length is exact or the request is refused, and a
    connection makes the server keep a bounded amount of text.
  \<^item> \<open>Websocket\<close>, \<open>WebsocketProtocol\<close>: \<open>websockets.c\<close>, \<open>websockets_send_recv.c\<close>,
    \<open>websockets_streaming.c\<close>. The receiver calls the handler with the messages that the frames of RFC 6455 carry,
    in any division of the stream; what is sent is read back; a fragmented message is bounded; the
    accept key is that of the RFC. Two theorems describe frames that the code does not serve.
  \<^item> \<open>PostStreaming\<close>, \<open>PostStreamMachine\<close>, \<open>PostStreamUpload\<close>, \<open>PostStreamDelivery\<close>,
    \<open>PostStreamSafety\<close>: \<open>post_streaming.c\<close>, the machine that reads \<open>multipart/form-data\<close>. The result does not
    depend on the division of the body; the files and fields of a form come out as they went in; the
    callbacks come in the order start, chunks, end; memory is bounded (locale \<open>stream_invariant\<close>).
  \<^item> \<open>ProxyFraming\<close>, \<open>ProxyHeaders\<close>, \<open>ProxyFields\<close>, \<open>ProxyConnection\<close>, \<open>ProxyRewriting\<close>, \<open>ProxyLoops\<close>,
    \<open>ProxyRelay\<close>, \<open>ProxyResponse\<close>: \<open>reverse_proxy.c\<close>. The chunk scanner recognises the chunked bodies of RFC 9112 and reports every other text as an
    error; the scans for Content-Length, Transfer-Encoding and Upgrade decide by the header's fields and
    refuse what two readers could take in two ways; the changes to a header leave those decisions alone. The
    state machine with both event handlers, the tunnel, the error pages and the registration is modelled. Over
    every order of events, the backend gets one request and nothing behind it, the client gets the bytes of the
    backend in order, and a response the proxy ends by itself is complete.

  \<^bold>\<open>Shape of the models.\<close> State is passed and returned. What may go through a null or freed pointer
  returns an option, and None is that failure; loops over pointers are \<open>partial_function\<close>s, and the theorems about them state
  that they return. The allocator of a model is a next free address (\<open>brk\<close>). Integers are words where they
  wrap; positions in buffers are natural numbers where the code bounds them: by the size of a buffer, 2^32
  for the streamed body of an upload (the count is 32 bits wide), 512 MB for a proxied request, 2^63 for a
  length that a header announces. The target is little-endian with 64-bit pointers. The padding loop of \<open>SHA1Final\<close>
  has fuel 64: one block is the most it can add. The websocket receiver is verified for an input buffer of at least
  65014 bytes, which is what the build options give.

  \<^bold>\<open>Parameters.\<close> Code outside the repository, sockets, allocation, callbacks of the application and the UTF-8
  check of \<open>third_party\<close> are arguments. The sockets of a proxied connection are lists of the answers they will give; the bytes
  they took and gave are recorded.

  \<^bold>\<open>Not modelled.\<close> The template engine (\<open>engine*.c\<close>, \<open>conditions.c\<close>, \<open>builtinFunctions.c\<close>), sessions
  (\<open>session.c\<close>, in the tree of \<open>third_party\<close> and by the platform's clock), configuration (\<open>server_config.c\<close>, a variable
  store behind a lock), file access and cache, the dispatch of requests (\<open>server.c\<close>) and the headers of responses
  (\<open>header_send.c\<close>), sockets and event loops (\<open>system_sockets*.c\<close>: system calls), memory accounting, log, the platform
  layers, TLS, Python bindings, samples. Of the modelled files: debug output, the access log, time stamps, the system
  calls of \<open>proxy_connect_backend\<close> and the freeing of a finished proxied connection.
\<close>

end
